(* ===== verification/Prelude.thy ===== *)
theory Prelude
  imports Main "HOL-Library.Word"
begin

text \<open>
  Shared vocabulary of the development: the machine types of the daemon, the bounded search
  loop \<open>for (i = lo; i < hi; i++) if (P(i)) return i;\<close> that most of the C tables use, and the
  list and word facts that several components need.
\<close>

section \<open>Types\<close>

text \<open>An IPv4 address is the 32-bit value the C code carries (\<open>uint32_t\<close>, network byte
  order); a port is a \<open>uint16_t\<close>.  Times are seconds (\<open>time_t\<close>), kept as unbounded integers:
  the code only subtracts two clock readings or adds a 32-bit number of seconds.\<close>

type_synonym ipv4 = "32 word"
type_synonym port = "16 word"
type_synonym byte = "8 word"
type_synonym seconds = int

named_theorems knockd_wf \<open>preservation of the components' well-formedness invariants\<close>
named_theorems slot_simps \<open>what a table lookup sees after an update\<close>

section \<open>C integers\<close>

definition INT_MIN :: int where "INT_MIN = - (2 ^ 31)"
definition INT_MAX :: int where "INT_MAX = 2 ^ 31 - 1"
definition LONG_MIN :: int where "LONG_MIN = - (2 ^ 63)"
definition LONG_MAX :: int where "LONG_MAX = 2 ^ 63 - 1"

definition c_int :: "int \<Rightarrow> bool" where
  "c_int n \<longleftrightarrow> INT_MIN \<le> n \<and> n \<le> INT_MAX"

lemmas c_int_limits = INT_MIN_def INT_MAX_def LONG_MIN_def LONG_MAX_def

lemma c_int_LONG: "c_int n \<Longrightarrow> LONG_MIN \<le> n \<and> n \<le> LONG_MAX"
  by (simp add: c_int_def c_int_limits)

section \<open>The bounded search loop\<close>

text \<open>\<open>first_index P lo n\<close> runs \<open>P\<close> on \<open>lo, lo + 1, \<dots>, lo + n - 1\<close> and stops at the first hit.\<close>

fun first_index :: "(nat \<Rightarrow> bool) \<Rightarrow> nat \<Rightarrow> nat \<Rightarrow> nat option" where
  "first_index P lo 0 = None"
| "first_index P lo (Suc n) = (if P lo then Some lo else first_index P (Suc lo) n)"

lemma first_index_None_iff:
  "first_index P lo n = None \<longleftrightarrow> (\<forall>i. lo \<le> i \<and> i < lo + n \<longrightarrow> \<not> P i)"
proof (induction n arbitrary: lo)
  case 0
  then show ?case by auto
next
  case (Suc n)
  have "(\<forall>i. lo \<le> i \<and> i < lo + Suc n \<longrightarrow> \<not> P i) \<longleftrightarrow>
        \<not> P lo \<and> (\<forall>i. Suc lo \<le> i \<and> i < Suc lo + n \<longrightarrow> \<not> P i)"
    by (metis Suc_leI add_Suc_right add_Suc_shift le_add1 le_imp_less_Suc
        le_neq_implies_less order_refl Suc_leD)
  then show ?case using Suc by simp
qed

lemma first_index_SomeD:
  assumes "first_index P lo n = Some i"
  shows "lo \<le> i \<and> i < lo + n \<and> P i \<and> (\<forall>j. lo \<le> j \<and> j < i \<longrightarrow> \<not> P j)"
  using assms
proof (induction n arbitrary: lo)
  case 0
  then show ?case by simp
next
  case (Suc n)
  show ?case
  proof (cases "P lo")
    case True
    with Suc.prems show ?thesis by auto
  next
    case False
    with Suc.prems have "first_index P (Suc lo) n = Some i" by simp
    from Suc.IH [OF this] False show ?thesis
      by (auto simp: le_less_Suc_eq Suc_le_eq) (metis le_neq_implies_less)
  qed
qed

lemma first_index_SomeI:
  assumes "lo \<le> i" "i < lo + n" "P i" "\<And>j. lo \<le> j \<Longrightarrow> j < i \<Longrightarrow> \<not> P j"
  shows "first_index P lo n = Some i"
proof (cases "first_index P lo n")
  case None
  with assms show ?thesis by (auto simp: first_index_None_iff)
next
  case (Some k)
  from first_index_SomeD [OF this] assms have "k = i"
    by (metis linorder_neqE_nat)
  with Some show ?thesis by simp
qed

lemma first_index_cong:
  "(\<And>i. lo \<le> i \<Longrightarrow> i < lo + n \<Longrightarrow> P i = Q i) \<Longrightarrow> first_index P lo n = first_index Q lo n"
  by (induction n arbitrary: lo) auto

section \<open>Lists\<close>

lemma append_sep_inject:
  assumes "xs @ c # as = ys @ c # bs" "c \<notin> set xs" "c \<notin> set ys"
  shows "xs = ys \<and> as = bs"
  using assms
proof (induction xs arbitrary: ys)
  case Nil
  then show ?case by (cases ys) auto
next
  case (Cons x xs)
  then show ?case by (cases ys) auto
qed

lemma takeWhile_sep:
  "\<forall>x\<in>set xs. P x \<Longrightarrow> \<not> P y \<Longrightarrow> takeWhile P (xs @ y # ys) = xs"
  by (induction xs) auto

lemma dropWhile_sep:
  "\<forall>x\<in>set xs. P x \<Longrightarrow> \<not> P y \<Longrightarrow> dropWhile P (xs @ y # ys) = y # ys"
  by (induction xs) auto

lemma count_list_pos_iff: "0 < count_list xs x \<longleftrightarrow> x \<in> set xs"
  by (metis count_list_0_iff not_gr0)

lemma count_list_remove1:
  "x \<in> set xs \<Longrightarrow> count_list xs y = count_list (remove1 x xs) y + (if y = x then 1 else 0)"
  by (induction xs) auto

lemma count_list_distinct: "distinct xs \<Longrightarrow> count_list xs x = (if x \<in> set xs then 1 else 0)"
  by (induction xs) auto

section \<open>Little-endian loads\<close>

text \<open>The daemon runs on little-endian Linux hosts: a \<open>uint16_t\<close> read from memory has its first
  byte in the low half, and \<open>ntohs\<close> exchanges the two.\<close>

definition le16 :: "byte \<Rightarrow> byte \<Rightarrow> 16 word" where
  "le16 b0 b1 = of_nat (unat b0 + 256 * unat b1)"

definition le32 :: "byte \<Rightarrow> byte \<Rightarrow> byte \<Rightarrow> byte \<Rightarrow> 32 word" where
  "le32 b0 b1 b2 b3 = of_nat (unat b0 + 256 * unat b1 + 65536 * unat b2 + 16777216 * unat b3)"

definition ntohs :: "16 word \<Rightarrow> 16 word" where
  "ntohs w = of_nat (unat w div 256 + 256 * (unat w mod 256))"

lemma unat_byte_less: "unat (b :: byte) < 256"
  using unsigned_less [of b, where 'a = nat] by simp

lemma unat_le16: "unat (le16 b0 b1) = unat b0 + 256 * unat b1"
  using unat_byte_less [of b0] unat_byte_less [of b1]
  by (simp add: le16_def unat_of_nat take_bit_nat_eq_self_iff del: of_nat_add of_nat_mult)

lemma unat_le32:
  "unat (le32 b0 b1 b2 b3) = unat b0 + 256 * unat b1 + 65536 * unat b2 + 16777216 * unat b3"
  using unat_byte_less [of b0] unat_byte_less [of b1] unat_byte_less [of b2] unat_byte_less [of b3]
  by (simp add: le32_def unat_of_nat take_bit_nat_eq_self_iff del: of_nat_add of_nat_mult)

lemma ntohs_le16: "ntohs (le16 b0 b1) = le16 b1 b0"
proof -
  have "(unat b0 + 256 * unat b1) div 256 = unat b1" "(unat b0 + 256 * unat b1) mod 256 = unat b0"
    using unat_byte_less [of b0] by simp_all
  then show ?thesis unfolding ntohs_def unat_le16 le16_def [of b1 b0] by (simp only:)
qed

lemma ntohs_ntohs: "ntohs (ntohs w) = w"
proof -
  have lt: "unat w < 65536" using unsigned_less [of w, where 'a = nat] by simp
  have "unat (ntohs w) = unat w div 256 + 256 * (unat w mod 256)"
    using lt by (simp add: ntohs_def unat_of_nat take_bit_nat_eq_self_iff del: of_nat_add of_nat_mult)
  then have "unat (ntohs w) div 256 + 256 * (unat (ntohs w) mod 256) = unat w"
    using lt by auto
  then show ?thesis by (simp only: ntohs_def [of "ntohs w"] of_nat_unat ucast_id)
qed

end
