(* ===== verification/CLib.thy ===== *)
theory CLib
  imports Prelude
begin

text \<open>
  The C standard library functions the daemon uses, on character lists: NUL-terminated strings,
  \<open>strchr\<close>, \<open>strtok\<close>, \<open>strtol\<close>, \<open>fgets\<close>, \<open>snprintf\<close> of a bounded buffer, decimal
  conversion (\<open>%d\<close>, \<open>%u\<close>) and \<open>inet_ntop\<close>.  The facts proved here (decimal printing is read
  back by \<open>strtol\<close>, dotted quads determine their address) carry the configuration parser and
  the firewall.
\<close>

section \<open>Characters and strings\<close>

definition NUL :: char where "NUL = CHR 0x00"
definition TAB :: char where "TAB = CHR 0x09"
definition LF :: char where "LF = CHR 0x0A"
definition CR :: char where "CR = CHR 0x0D"

text \<open>The \<open>errno\<close> values the daemon looks at (Linux).\<close>

definition EPERM :: int where "EPERM = 1"
definition EINTR :: int where "EINTR = 4"
definition EAGAIN :: int where "EAGAIN = 11"
definition EWOULDBLOCK :: int where "EWOULDBLOCK = 11"
definition EACCES :: int where "EACCES = 13"

text \<open>A buffer read as a C string ends at the first NUL.\<close>

definition cstr :: "string \<Rightarrow> string" where
  "cstr s = takeWhile (\<lambda>c. c \<noteq> NUL) s"

text \<open>\<open>strchr(s, c)\<close>: the text before and after the first occurrence.\<close>

definition strchr :: "string \<Rightarrow> char \<Rightarrow> (string \<times> string) option" where
  "strchr s c = (case dropWhile (\<lambda>x. x \<noteq> c) s of
     [] \<Rightarrow> None
   | _ # rest \<Rightarrow> Some (takeWhile (\<lambda>x. x \<noteq> c) s, rest))"

text \<open>\<open>isspace\<close> in the C locale.\<close>

definition isspace :: "char \<Rightarrow> bool" where
  "isspace c \<longleftrightarrow> c = CHR '' '' \<or> c = TAB \<or> c = LF \<or> c = CHR 0x0B \<or> c = CHR 0x0C \<or> c = CR"

definition isdigit :: "char \<Rightarrow> bool" where
  "isdigit c \<longleftrightarrow> 48 \<le> (of_char c :: nat) \<and> (of_char c :: nat) \<le> 57"

definition digit_val :: "char \<Rightarrow> nat" where
  "digit_val c = of_char c - 48"

definition digit_char :: "nat \<Rightarrow> char" where
  "digit_char d = char_of (48 + d)"

text \<open>\<open>fgets(buf, n, f)\<close> on the unread bytes: at most \<open>n - 1\<close> bytes, stopping after a newline;
  \<open>None\<close> at end of file.\<close>

fun fgets_line :: "nat \<Rightarrow> string \<Rightarrow> string \<times> string" where
  "fgets_line 0 s = ([], s)"
| "fgets_line (Suc n) [] = ([], [])"
| "fgets_line (Suc n) (c # s) =
     (if c = LF then ([c], s) else (let (l, r) = fgets_line n s in (c # l, r)))"

definition fgets :: "nat \<Rightarrow> string \<Rightarrow> (string \<times> string) option" where
  "fgets n s = (if s = [] then None else Some (fgets_line (n - 1) s))"

text \<open>\<open>strtok\<close>: skip delimiters, take the maximal delimiter-free run, resume behind the delimiter
  that ended it.\<close>

definition strtok_next :: "string \<Rightarrow> string \<Rightarrow> (string \<times> string) option" where
  "strtok_next delims s = (case dropWhile (\<lambda>c. c \<in> set delims) s of
     [] \<Rightarrow> None
   | t \<Rightarrow> Some (takeWhile (\<lambda>c. c \<notin> set delims) t, tl (dropWhile (\<lambda>c. c \<notin> set delims) t)))"

text \<open>\<open>snprintf(buf, n, \<dots>)\<close> of a formatted text \<open>s\<close> stores at most \<open>n - 1\<close> characters and a NUL,
  and returns the length of \<open>s\<close>.\<close>

definition snprintf_store :: "nat \<Rightarrow> string \<Rightarrow> string" where
  "snprintf_store n s = take (n - 1) s"

section \<open>Decimal numbers\<close>

fun dec_of_nat :: "nat \<Rightarrow> string" where
  "dec_of_nat n =
     (if n < 10 then [digit_char n] else dec_of_nat (n div 10) @ [digit_char (n mod 10)])"

declare dec_of_nat.simps [simp del]

definition dec_of_int :: "int \<Rightarrow> string" where
  "dec_of_int i = (if i < 0 then CHR ''-'' # dec_of_nat (nat (- i)) else dec_of_nat (nat i))"

fun dec_val :: "int \<Rightarrow> string \<Rightarrow> int" where
  "dec_val acc [] = acc"
| "dec_val acc (c # s) = dec_val (10 * acc + int (digit_val c)) s"

text \<open>\<open>strtol(s, &end, 10)\<close>: the value, the number of characters consumed (0: no conversion) and
  whether \<open>errno\<close> is \<open>ERANGE\<close>.\<close>

definition strtol_digits :: "nat \<Rightarrow> bool \<Rightarrow> string \<Rightarrow> int \<times> nat \<times> bool" where
  "strtol_digits skipped neg s =
     (let ds = takeWhile isdigit s;
          v = (if neg then - dec_val 0 ds else dec_val 0 ds)
      in if ds = [] then (0, 0, False)
         else if v > LONG_MAX then (LONG_MAX, skipped + length ds, True)
         else if v < LONG_MIN then (LONG_MIN, skipped + length ds, True)
         else (v, skipped + length ds, False))"

definition strtol :: "string \<Rightarrow> int \<times> nat \<times> bool" where
  "strtol s =
     (let ws = length (takeWhile isspace s)
      in case dropWhile isspace s of
           [] \<Rightarrow> (0, 0, False)
         | c # r \<Rightarrow> if c = CHR ''-'' then strtol_digits (ws + 1) True r
                    else if c = CHR ''+'' then strtol_digits (ws + 1) False r
                    else strtol_digits ws False (c # r))"

section \<open>inet_ntop\<close>

definition ip_byte :: "nat \<Rightarrow> ipv4 \<Rightarrow> nat" where
  "ip_byte i ip = unat ip div 256 ^ i mod 256"

text \<open>The four bytes of the address in memory order, joined by dots.\<close>

definition inet_ntop :: "ipv4 \<Rightarrow> string" where
  "inet_ntop ip = dec_of_nat (ip_byte 0 ip) @ CHR ''.'' # dec_of_nat (ip_byte 1 ip) @
     CHR ''.'' # dec_of_nat (ip_byte 2 ip) @ CHR ''.'' # dec_of_nat (ip_byte 3 ip)"

section \<open>Facts about the string functions\<close>

lemma fgets_line_append: "fst (fgets_line n s) @ snd (fgets_line n s) = s"
  by (induction n s rule: fgets_line.induct) (auto split: prod.splits)

lemma fgets_line_progress:
  "0 < n \<Longrightarrow> s \<noteq> [] \<Longrightarrow> length (snd (fgets_line n s)) < length s"
proof (induction n s rule: fgets_line.induct)
  case (3 n c s)
  show ?case
  proof (cases "c = LF \<or> n = 0 \<or> s = []")
    case True
    then show ?thesis by (cases n; cases s) (auto split: prod.splits)
  next
    case False
    with "3.IH" show ?thesis by (auto split: prod.splits)
  qed
qed auto

lemma fgets_SomeD:
  assumes "fgets n s = Some (l, r)"
  shows "l @ r = s" and "length l \<le> n - 1" and "1 < n \<Longrightarrow> length r < length s"
proof -
  from assms have ne: "s \<noteq> []" and eq: "fgets_line (n - 1) s = (l, r)"
    by (auto simp: fgets_def split: if_splits)
  show "l @ r = s" using fgets_line_append [of "n - 1" s] unfolding eq by simp
  have "length (fst (fgets_line m t)) \<le> m" for m t
    by (induction m t rule: fgets_line.induct) (auto split: prod.splits)
  from this [of "n - 1" s] show "length l \<le> n - 1" unfolding eq by simp
  show "length r < length s" if "1 < n"
    using fgets_line_progress [of "n - 1" s] that ne unfolding eq by simp
qed

lemma strtok_next_progress:
  assumes "strtok_next ds s = Some (t, r)"
  shows "length r < length s" and "t \<noteq> []" and "\<forall>c\<in>set t. c \<notin> set ds"
proof -
  obtain c u where u: "dropWhile (\<lambda>c. c \<in> set ds) s = c # u"
    using assms by (auto simp: strtok_next_def split: list.splits)
  then have c: "c \<notin> set ds"
    by (metis (mono_tags, lifting) dropWhile_eq_Cons_conv)
  from assms u c have t: "t = c # takeWhile (\<lambda>c. c \<notin> set ds) u"
    and r: "r = tl (dropWhile (\<lambda>c. c \<notin> set ds) u)"
    by (auto simp: strtok_next_def)
  have "length (c # u) \<le> length s" by (metis u length_dropWhile_le)
  moreover have "length r \<le> length u"
    using length_dropWhile_le [of "\<lambda>c. c \<notin> set ds" u] by (simp add: r)
  ultimately show "length r < length s" by simp
  show "t \<noteq> []" by (simp add: t)
  show "\<forall>c\<in>set t. c \<notin> set ds" using c by (auto simp: t dest: set_takeWhileD)
qed

lemma strtok_next_word:
  assumes "t \<noteq> []" "\<forall>c\<in>set t. c \<notin> set ds" "\<forall>c\<in>set ws. c \<in> set ds"
  shows "strtok_next ds (ws @ t) = Some (t, [])"
    and "d \<in> set ds \<Longrightarrow> strtok_next ds (ws @ t @ d # r) = Some (t, r)"
proof -
  obtain c u where t: "t = c # u" and c: "c \<notin> set ds" using assms by (cases t) auto
  have drop: "dropWhile (\<lambda>c. c \<in> set ds) (ws @ t @ x) = t @ x" for x
    using assms(3) c by (simp add: t dropWhile_append2)
  show "strtok_next ds (ws @ t) = Some (t, [])"
    using drop [of "[]"] assms(2) by (simp add: strtok_next_def t c takeWhile_eq_all_conv [THEN iffD2]
        dropWhile_eq_Nil_conv [THEN iffD2])
  show "strtok_next ds (ws @ t @ d # r) = Some (t, r)" if "d \<in> set ds"
    using drop [of "d # r"] assms(2) that by (simp add: strtok_next_def t c takeWhile_sep dropWhile_sep)
qed

lemma strtok_next_None: "\<forall>c\<in>set s. c \<in> set ds \<Longrightarrow> strtok_next ds s = None"
  by (simp add: strtok_next_def dropWhile_eq_Nil_conv [THEN iffD2])

lemma strchr_sep:
  assumes "c \<notin> set a"
  shows "strchr (a @ c # b) c = Some (a, b)"
proof -
  have a: "\<forall>x\<in>set a. x \<noteq> c" using assms by blast
  have t: "takeWhile (\<lambda>x. x \<noteq> c) (a @ c # b) = a" by (rule takeWhile_sep [OF a]) simp
  have d: "dropWhile (\<lambda>x. x \<noteq> c) (a @ c # b) = c # b" by (rule dropWhile_sep [OF a]) simp
  show ?thesis by (simp add: strchr_def t d)
qed

lemma strchr_None_iff: "strchr s c = None \<longleftrightarrow> c \<notin> set s"
proof -
  have "strchr s c = None \<longleftrightarrow> dropWhile (\<lambda>x. x \<noteq> c) s = []"
    by (simp add: strchr_def split: list.split del: dropWhile_eq_Nil_conv)
  also have "\<dots> \<longleftrightarrow> c \<notin> set s" unfolding dropWhile_eq_Nil_conv by blast
  finally show ?thesis .
qed

lemma length_snprintf_store: "0 < n \<Longrightarrow> length (snprintf_store n s) < n"
  by (simp add: snprintf_store_def)

lemma snprintf_store_fits: "length s < n \<Longrightarrow> snprintf_store n s = s"
  by (simp add: snprintf_store_def)

section \<open>Decimal printing and reading\<close>

lemma of_char_digit_char [simp]: "d < 10 \<Longrightarrow> (of_char (digit_char d) :: nat) = 48 + d"
  by (simp add: digit_char_def)

lemma isdigit_digit_char [simp]: "d < 10 \<Longrightarrow> isdigit (digit_char d)"
  by (simp add: isdigit_def)

lemma digit_val_digit_char [simp]: "d < 10 \<Longrightarrow> digit_val (digit_char d) = d"
  by (simp add: digit_val_def)

lemma dec_of_nat_nonempty [simp]: "dec_of_nat n \<noteq> []"
  by (subst dec_of_nat.simps) simp

lemma dec_of_nat_digits: "c \<in> set (dec_of_nat n) \<Longrightarrow> isdigit c"
proof (induction n rule: dec_of_nat.induct)
  case (1 n)
  show ?case
  proof (cases "n < 10")
    case True
    with "1.prems" show ?thesis by (simp add: dec_of_nat.simps [of n])
  next
    case False
    with "1" show ?thesis by (auto simp: dec_of_nat.simps [of n])
  qed
qed

lemma dec_val_append: "dec_val a (s @ t) = dec_val (dec_val a s) t"
  by (induction s arbitrary: a) auto

lemma dec_val_nonneg: "0 \<le> a \<Longrightarrow> 0 \<le> dec_val a s"
  by (induction s arbitrary: a) auto

lemma dec_val_dec_of_nat [simp]: "dec_val 0 (dec_of_nat n) = int n"
proof (induction n rule: dec_of_nat.induct)
  case (1 n)
  show ?case
  proof (cases "n < 10")
    case True
    then show ?thesis by (simp add: dec_of_nat.simps [of n])
  next
    case False
    with "1" show ?thesis by (simp add: dec_of_nat.simps [of n] dec_val_append zdiv_int zmod_int)
  qed
qed

lemma dec_of_nat_inject: "dec_of_nat m = dec_of_nat n \<longleftrightarrow> m = n"
  by (metis dec_val_dec_of_nat of_nat_eq_iff)

lemma length_dec_of_nat:
  assumes "n < 10 ^ k" "0 < k"
  shows "length (dec_of_nat n) \<le> k"
  using assms
proof (induction n arbitrary: k rule: dec_of_nat.induct)
  case (1 n)
  show ?case
  proof (cases "n < 10")
    case True
    with "1.prems" show ?thesis by (simp add: dec_of_nat.simps [of n])
  next
    case False
    with "1.prems" obtain j where k: "k = Suc j" and j: "0 < j"
      by (cases k; cases "k - 1") auto
    have "n div 10 < 10 ^ j" using "1.prems"(1) by (simp add: k less_mult_imp_div_less)
    with "1.IH" False j have "length (dec_of_nat (n div 10)) \<le> j" by blast
    with False show ?thesis by (simp add: dec_of_nat.simps [of n] k)
  qed
qed

lemma isdigit_not_space: "isdigit c \<Longrightarrow> \<not> isspace c"
  by (auto simp: isdigit_def isspace_def TAB_def LF_def CR_def)

lemma isdigit_not_sign: "isdigit c \<Longrightarrow> c \<noteq> CHR ''-'' \<and> c \<noteq> CHR ''+'' \<and> c \<noteq> CHR ''.'' \<and> c \<noteq> CHR ''#''
   \<and> c \<noteq> CHR '','' \<and> c \<noteq> CHR '' '' \<and> c \<noteq> NUL \<and> c \<noteq> TAB \<and> c \<noteq> LF \<and> c \<noteq> CR \<and> c \<noteq> CHR ''=''"
  by (auto simp: isdigit_def NUL_def TAB_def LF_def CR_def)

lemma strtol_all_digits:
  assumes "ds \<noteq> []" "\<forall>c\<in>set ds. isdigit c" "dec_val 0 ds \<le> LONG_MAX"
  shows "strtol ds = (dec_val 0 ds, length ds, False)"
proof -
  obtain c r where ds: "ds = c # r" using assms(1) by (cases ds) auto
  have c: "isdigit c" using assms(2) by (simp add: ds)
  have tw: "takeWhile isdigit r = r" using assms(2) by (simp add: ds takeWhile_eq_all_conv)
  have lo: "\<not> dec_val 0 (c # r) < LONG_MIN"
    using dec_val_nonneg [of 0 "c # r"] by (simp add: LONG_MIN_def)
  show ?thesis
    using c isdigit_not_space [OF c] isdigit_not_sign [OF c] lo assms(3)
    by (simp add: strtol_def strtol_digits_def ds Let_def tw)
qed

lemma strtol_dec_of_nat:
  "int n \<le> LONG_MAX \<Longrightarrow> strtol (dec_of_nat n) = (int n, length (dec_of_nat n), False)"
  using strtol_all_digits [of "dec_of_nat n"] by (simp add: dec_of_nat_digits)

lemma strtol_dec_of_int:
  assumes "LONG_MIN \<le> i" "i \<le> LONG_MAX"
  shows "strtol (dec_of_int i) = (i, length (dec_of_int i), False)"
proof (cases "i < 0")
  case False
  with assms strtol_dec_of_nat [of "nat i"] show ?thesis by (simp add: dec_of_int_def)
next
  case True
  have tw: "takeWhile isdigit (dec_of_nat (nat (- i))) = dec_of_nat (nat (- i))"
    unfolding takeWhile_eq_all_conv by (simp add: dec_of_nat_digits)
  have "\<not> isspace (CHR ''-'')" by (simp add: isspace_def TAB_def LF_def CR_def)
  with True assms show ?thesis
    by (simp add: dec_of_int_def strtol_def strtol_digits_def Let_def LONG_MAX_def tw)
qed

lemma strtol_range: "LONG_MIN \<le> fst (strtol s) \<and> fst (strtol s) \<le> LONG_MAX"
  by (auto simp: strtol_def strtol_digits_def Let_def LONG_MIN_def LONG_MAX_def split: list.splits)

section \<open>Dotted quads\<close>

lemma dot_notin_dec: "CHR ''.'' \<notin> set (dec_of_nat n)"
  using dec_of_nat_digits isdigit_not_sign by blast

lemma ip_byte_inject:
  assumes "\<And>i. i < 4 \<Longrightarrow> ip_byte i a = ip_byte i b"
  shows "a = b"
proof -
  have lt: "unat w < 4294967296" for w :: ipv4 using unsigned_less [of w, where 'a = nat] by simp
  have split: "unat w = ip_byte 0 w + 256 * ip_byte 1 w + 65536 * ip_byte 2 w + 16777216 * ip_byte 3 w"
    for w :: ipv4
  proof -
    let ?n = "unat w"
    have d: "?n div 65536 = ?n div 256 div 256" "?n div 16777216 = ?n div 256 div 256 div 256"
      by (simp_all add: div_mult2_eq [symmetric])
    have lt3: "?n div 256 div 256 div 256 < 256" using lt [of w] by (simp add: div_mult2_eq [symmetric])
    have bytes: "ip_byte 0 w = ?n mod 256" "ip_byte 1 w = ?n div 256 mod 256"
      "ip_byte 2 w = ?n div 256 div 256 mod 256" "ip_byte 3 w = ?n div 256 div 256 div 256"
      using d lt3 by (simp_all add: ip_byte_def)
    have "m mod 256 + 256 * (m div 256) = m" for m :: nat by simp
    from this [of ?n] this [of "?n div 256"] this [of "?n div 256 div 256"]
    show ?thesis unfolding bytes by linarith
  qed
  have "unat a = unat b" using assms [of 0] assms [of 1] assms [of 2] assms [of 3] split [of a] split [of b]
    by simp
  then show ?thesis by (simp add: word_unat_eq_iff)
qed

lemma inet_ntop_inject: "inet_ntop a = inet_ntop b \<longleftrightarrow> a = b"
proof
  assume eq: "inet_ntop a = inet_ntop b"
  note inj = append_sep_inject [OF _ dot_notin_dec dot_notin_dec]
  from eq have "dec_of_nat (ip_byte 0 a) = dec_of_nat (ip_byte 0 b) \<and>
    dec_of_nat (ip_byte 1 a) = dec_of_nat (ip_byte 1 b) \<and>
    dec_of_nat (ip_byte 2 a) = dec_of_nat (ip_byte 2 b) \<and>
    dec_of_nat (ip_byte 3 a) = dec_of_nat (ip_byte 3 b)"
    unfolding inet_ntop_def using inj by blast
  then have "ip_byte i a = ip_byte i b" if "i < 4" for i
    using that by (auto simp: dec_of_nat_inject less_Suc_eq numeral_eq_Suc)
  then show "a = b" by (rule ip_byte_inject)
qed simp

lemma ip_byte_le32:
  "ip_byte 0 (le32 a b c d) = unat a" "ip_byte 1 (le32 a b c d) = unat b"
  "ip_byte 2 (le32 a b c d) = unat c" "ip_byte 3 (le32 a b c d) = unat d"
proof -
  let ?n = "unat (le32 a b c d)"
  have n: "?n = unat a + 256 * (unat b + 256 * (unat c + 256 * unat d))"
    by (simp add: unat_le32)
  have d0: "(unat x + 256 * m) div 256 = m" and m0: "(unat x + 256 * m) mod 256 = unat x"
    for x :: byte and m
    using unat_byte_less [of x] by simp_all
  have e1: "?n div 256 = unat b + 256 * (unat c + 256 * unat d)" unfolding n by (rule d0)
  then have e2: "?n div 256 div 256 = unat c + 256 * unat d" by (simp only: d0)
  then have e3: "?n div 256 div 256 div 256 = unat d" by (simp only: d0)
  have p: "?n div 65536 = ?n div 256 div 256" "?n div 16777216 = ?n div 256 div 256 div 256"
    by (simp_all add: div_mult2_eq [symmetric])
  show "ip_byte 0 (le32 a b c d) = unat a" unfolding ip_byte_def power_0 div_by_1 n by (rule m0)
  show "ip_byte 1 (le32 a b c d) = unat b" unfolding ip_byte_def power_one_right e1 by (rule m0)
  show "ip_byte 2 (le32 a b c d) = unat c" using e2 m0 by (simp add: ip_byte_def p(1))
  show "ip_byte 3 (le32 a b c d) = unat d"
    using e3 unat_byte_less [of d] by (simp add: ip_byte_def p(2))
qed

text \<open>An address fits the \<open>INET_ADDRSTRLEN\<close> (16 byte) buffer with its NUL, so \<open>inet_ntop\<close> on
  these buffers never fails.\<close>

definition INET_ADDRSTRLEN :: nat where "INET_ADDRSTRLEN = 16"

lemma length_inet_ntop: "length (inet_ntop ip) < INET_ADDRSTRLEN"
proof -
  have "length (dec_of_nat (ip_byte i ip)) \<le> 3" for i
  proof (rule length_dec_of_nat)
    have "ip_byte i ip < 256" by (simp add: ip_byte_def)
    then show "ip_byte i ip < 10 ^ 3" by simp
  qed simp
  from this [of 0] this [of 1] this [of 2] this [of 3]
  show ?thesis by (simp add: inet_ntop_def INET_ADDRSTRLEN_def)
qed

end
