(* ===== verification/Logger.thy ===== *)
theory Logger
  imports CLib
begin

text \<open>
  \<open>src/logger.c\<close>: the levels, the choice between syslog and stderr, the filter on \<open>LOG_LEVEL\<close>
  and the two bounded buffers a stderr line passes through.  The other components return the
  messages they log as a list of (level, message) pairs in the order of the \<open>log_*\<close> calls;
  \<open>log_msg\<close> turns one formatted message into what reaches the outside.
\<close>

section \<open>Levels\<close>

datatype log_level_t = LEVEL_ERROR | LEVEL_WARN | LEVEL_INFO | LEVEL_DEBUG

text \<open>The enum's values: \<open>(int)level\<close>.\<close>

fun level_int :: "log_level_t \<Rightarrow> int" where
  "level_int LEVEL_ERROR = 0"
| "level_int LEVEL_WARN = 1"
| "level_int LEVEL_INFO = 2"
| "level_int LEVEL_DEBUG = 3"

lemma level_int_inject [simp]: "level_int a = level_int b \<longleftrightarrow> a = b"
  by (cases a; cases b) simp_all

lemma level_int_bounds: "0 \<le> level_int l \<and> level_int l \<le> 3"
  by (cases l) simp_all

instantiation log_level_t :: linorder
begin

definition less_eq_log_level_t :: "log_level_t \<Rightarrow> log_level_t \<Rightarrow> bool" where
  "less_eq_log_level_t a b \<longleftrightarrow> level_int a \<le> level_int b"

definition less_log_level_t :: "log_level_t \<Rightarrow> log_level_t \<Rightarrow> bool" where
  "less_log_level_t a b \<longleftrightarrow> level_int a < level_int b"

instance
  by standard (auto simp: less_eq_log_level_t_def less_log_level_t_def)

end

type_synonym 'm logs = "(log_level_t \<times> 'm) list"

text \<open>Some message was logged as a warning.\<close>

definition warned :: "'m logs \<Rightarrow> bool" where
  "warned ls \<longleftrightarrow> (\<exists>e\<in>set ls. fst e = LEVEL_WARN)"

lemma warned_append [simp]: "warned (a @ b) \<longleftrightarrow> warned a \<or> warned b"
  by (auto simp: warned_def)

lemma warned_Nil [simp]: "\<not> warned []"
  by (simp add: warned_def)

lemma warned_Cons [simp]: "warned (e # ls) \<longleftrightarrow> fst e = LEVEL_WARN \<or> warned ls"
  by (simp add: warned_def)

text \<open>Some message was logged as a warning or an error.\<close>

definition troubled :: "'m logs \<Rightarrow> bool" where
  "troubled ls \<longleftrightarrow> (\<exists>e\<in>set ls. fst e \<le> LEVEL_WARN)"

lemma troubled_append [simp]: "troubled (a @ b) \<longleftrightarrow> troubled a \<or> troubled b"
  by (auto simp: troubled_def)

lemma troubled_Nil [simp]: "\<not> troubled []"
  by (simp add: troubled_def)

lemma troubled_Cons [simp]: "troubled (e # ls) \<longleftrightarrow> fst e \<in> {LEVEL_ERROR, LEVEL_WARN} \<or> troubled ls"
  by (cases "fst e") (simp_all add: troubled_def less_eq_log_level_t_def)

text \<open>syslog priorities (\<open>sys/syslog.h\<close>).\<close>

fun level_to_syslog :: "log_level_t \<Rightarrow> nat" where
  "level_to_syslog LEVEL_ERROR = 3"
| "level_to_syslog LEVEL_WARN = 4"
| "level_to_syslog LEVEL_INFO = 6"
| "level_to_syslog LEVEL_DEBUG = 7"

fun level_tag :: "log_level_t \<Rightarrow> string" where
  "level_tag LEVEL_ERROR = ''ERROR''"
| "level_tag LEVEL_WARN = ''WARN ''"
| "level_tag LEVEL_INFO = ''INFO ''"
| "level_tag LEVEL_DEBUG = ''DEBUG''"

section \<open>The logger\<close>

definition LOG_MSG_MAX :: nat where "LOG_MSG_MAX = 896"
definition LOG_LINE_MAX :: nat where "LOG_LINE_MAX = 1024"

record logger_state =
  g_use_syslog :: bool

text \<open>What the outside sees.\<close>

datatype log_effect =
    Openlog string
  | Closelog
  | Vsyslog nat string
  | Fputs_stderr string

definition logger_init :: "bool \<Rightarrow> logger_state \<times> log_effect list" where
  "logger_init use_syslog =
     (\<lparr>g_use_syslog = use_syslog\<rparr>, if use_syslog then [Openlog ''knockd''] else [])"

definition logger_close :: "logger_state \<Rightarrow> logger_state \<times> log_effect list" where
  "logger_close st =
     (if g_use_syslog st then (st\<lparr>g_use_syslog := False\<rparr>, [Closelog]) else (st, []))"

text \<open>\<open>strftime("%H:%M:%S")\<close> of the broken-down local time; \<open>None\<close> when \<open>localtime_r\<close> failed.\<close>

definition two_digits :: "nat \<Rightarrow> string" where
  "two_digits n = [digit_char (n div 10 mod 10), digit_char (n mod 10)]"

fun timebuf :: "(nat \<times> nat \<times> nat) option \<Rightarrow> string" where
  "timebuf (Some (h, m, s)) = two_digits h @ '':'' @ two_digits m @ '':'' @ two_digits s"
| "timebuf None = ''--:--:--''"

text \<open>\<open>body\<close> is the message after \<open>printf\<close> expansion.\<close>

definition log_msg ::
  "int \<Rightarrow> logger_state \<Rightarrow> (nat \<times> nat \<times> nat) option \<Rightarrow> log_level_t \<Rightarrow> string \<Rightarrow> log_effect list" where
  "log_msg LOG_LEVEL st tm level body =
     (if level_int level > LOG_LEVEL then []
      else if g_use_syslog st then [Vsyslog (level_to_syslog level) body]
      else (let msg = snprintf_store LOG_MSG_MAX body;
                line = snprintf_store LOG_LINE_MAX
                  (''[knockd '' @ timebuf tm @ '' '' @ level_tag level @ ''] '' @ msg @ [LF])
            in [Fputs_stderr line]))"

section \<open>Properties\<close>

lemma length_timebuf [simp]: "length (timebuf tm) = 8"
  by (cases tm rule: timebuf.cases) (simp_all add: two_digits_def)

lemma length_level_tag [simp]: "length (level_tag l) = 5"
  by (cases l) simp_all

text \<open>
  A message that passes the filter reaches stderr as one write: the whole line with its
  prefix, the first 895 characters of the body and the final newline.  The line buffer never
  cuts off the newline, because the body was already truncated to fit.
\<close>

theorem log_msg_complete_line:
  assumes "level_int level \<le> LOG_LEVEL" and "\<not> g_use_syslog st"
  shows "\<exists>line. log_msg LOG_LEVEL st tm level body = [Fputs_stderr line] \<and>
           line = ''[knockd '' @ timebuf tm @ '' '' @ level_tag level @ ''] '' @ take 895 body @ [LF] \<and>
           length line < LOG_LINE_MAX"
proof -
  let ?line = "''[knockd '' @ timebuf tm @ '' '' @ level_tag level @ ''] '' @ take 895 body @ [LF]"
  have len: "length ?line < LOG_LINE_MAX" by (simp add: LOG_LINE_MAX_def)
  have "snprintf_store LOG_MSG_MAX body = take 895 body"
    by (simp add: snprintf_store_def LOG_MSG_MAX_def)
  then have "log_msg LOG_LEVEL st tm level body = [Fputs_stderr ?line]"
    using assms snprintf_store_fits [OF len] by (simp add: log_msg_def Let_def)
  with len show ?thesis by blast
qed

theorem log_msg_complete_line_witness:
  "level_int LEVEL_INFO \<le> 2 \<and>
   (\<exists>line. log_msg 2 \<lparr>g_use_syslog = False\<rparr> (Some (7, 5, 59)) LEVEL_INFO ''Shutting down'' =
             [Fputs_stderr line] \<and> last line = LF)"
  using log_msg_complete_line [of LEVEL_INFO 2 "\<lparr>g_use_syslog = False\<rparr>" "Some (7, 5, 59)" "''Shutting down''"]
  by auto

text \<open>
  Messages above the configured level are dropped without any output, and nothing else is:
  the call produces output exactly when the level is at most \<open>LOG_LEVEL\<close>.
\<close>

theorem log_msg_filter: "log_msg LOG_LEVEL st tm level body \<noteq> [] \<longleftrightarrow> level_int level \<le> LOG_LEVEL"
  by (simp add: log_msg_def Let_def)

end
