(* ===== verification/Config.thy ===== *)
theory Config
  imports Logger
begin

text \<open>
  \<open>src/config.c\<close> and \<open>include/config.h\<close>: the configuration globals as one record, the parsers of
  the \<open>key = value\<close> lines and the validation that \<open>config_load\<close> always ends with.  Every function
  returns the new configuration and the messages it logged.
\<close>

section \<open>The configuration\<close>

definition MAX_KNOCK_SEQ_LEN :: nat where "MAX_KNOCK_SEQ_LEN = 16"
definition IFNAME_MAX :: nat where "IFNAME_MAX = 32"

definition DEFAULT_SEQUENCE :: "port list" where "DEFAULT_SEQUENCE = [7000, 8000, 9000]"
definition DEFAULT_PROTECTED_PORT :: int where "DEFAULT_PROTECTED_PORT = 22"
definition DEFAULT_ACCESS_TIMEOUT :: int where "DEFAULT_ACCESS_TIMEOUT = 30"
definition DEFAULT_KNOCK_WINDOW :: int where "DEFAULT_KNOCK_WINDOW = 15"
definition DEFAULT_MAX_CLIENTS :: int where "DEFAULT_MAX_CLIENTS = 64"
definition DEFAULT_LOG_LEVEL :: int where "DEFAULT_LOG_LEVEL = 2"
definition MAX_SANE_ACCESS_TIMEOUT :: int where "MAX_SANE_ACCESS_TIMEOUT = 3600"
definition MAX_SANE_CLIENTS :: int where "MAX_SANE_CLIENTS = 65536"

lemmas config_limits = MAX_KNOCK_SEQ_LEN_def IFNAME_MAX_def DEFAULT_SEQUENCE_def
  DEFAULT_PROTECTED_PORT_def DEFAULT_ACCESS_TIMEOUT_def DEFAULT_KNOCK_WINDOW_def
  DEFAULT_MAX_CLIENTS_def DEFAULT_LOG_LEVEL_def MAX_SANE_ACCESS_TIMEOUT_def MAX_SANE_CLIENTS_def

text \<open>\<open>KNOCK_SEQUENCE\<close> is the whole array of \<open>MAX_KNOCK_SEQ_LEN\<close> ports; only the first
  \<open>KNOCK_SEQ_LEN\<close> of them are meaningful.\<close>

record config =
  KNOCK_SEQ_LEN :: nat
  KNOCK_SEQUENCE :: "port list"
  PROTECTED_PORT :: int
  ACCESS_TIMEOUT :: int
  KNOCK_WINDOW :: int
  MAX_CLIENTS :: int
  LOG_LEVEL :: int
  KNOCK_INTERFACE :: string

definition initial_config :: config where
  "initial_config = \<lparr>KNOCK_SEQ_LEN = length DEFAULT_SEQUENCE,
     KNOCK_SEQUENCE = DEFAULT_SEQUENCE @ replicate (MAX_KNOCK_SEQ_LEN - length DEFAULT_SEQUENCE) 0,
     PROTECTED_PORT = DEFAULT_PROTECTED_PORT, ACCESS_TIMEOUT = DEFAULT_ACCESS_TIMEOUT,
     KNOCK_WINDOW = DEFAULT_KNOCK_WINDOW, MAX_CLIENTS = DEFAULT_MAX_CLIENTS,
     LOG_LEVEL = DEFAULT_LOG_LEVEL, KNOCK_INTERFACE = []\<rparr>"

abbreviation knock_seq :: "config \<Rightarrow> port list" where
  "knock_seq c \<equiv> take (KNOCK_SEQ_LEN c) (KNOCK_SEQUENCE c)"

datatype config_msg =
    Not_a_number string string
  | Int_out_of_range string string
  | Sequence_too_long
  | Sequence_too_many_ports
  | Sequence_bad_entry string
  | Sequence_empty
  | Interface_too_long string
  | Readable_by_others string nat
  | Sequence_length_bad nat
  | Sequence_zero_port nat
  | Sequence_repeats port nat nat
  | Port_out_of_range int
  | Port_is_knock_port int nat
  | Timeout_not_positive int
  | Timeout_over_an_hour int
  | Window_not_positive int
  | Max_clients_bad int
  | Log_level_bad int
  | Configuration_validated
  | Could_not_open string
  | Line_without_equals string
  | Unknown_key string string
  | Read_error string
  | Configuration_loaded string

section \<open>Parsing helpers\<close>

definition memcpy_prefix :: "'a list \<Rightarrow> 'a list \<Rightarrow> 'a list" where
  "memcpy_prefix dst src = src @ drop (length src) dst"

definition reset_sequence_to_default :: "config \<Rightarrow> config" where
  "reset_sequence_to_default c =
     c\<lparr>KNOCK_SEQUENCE := memcpy_prefix (KNOCK_SEQUENCE c) DEFAULT_SEQUENCE,
       KNOCK_SEQ_LEN := length DEFAULT_SEQUENCE\<rparr>"

text \<open>\<open>None\<close> is the return value -1, with which \<open>*out\<close> is left alone.\<close>

definition parse_int :: "string \<Rightarrow> string \<Rightarrow> int option \<times> config_msg logs" where
  "parse_int key val =
     (let (n, used, erange) = strtol val
      in if used = 0 \<or> used \<noteq> length val then (None, [(LEVEL_WARN, Not_a_number key val)])
         else if erange \<or> n < INT_MIN \<or> n > INT_MAX
              then (None, [(LEVEL_WARN, Int_out_of_range key val)])
         else (Some n, []))"

definition port_delims :: string where "port_delims = [CHR '','', CHR '' '', TAB]"

text \<open>The \<open>strtok\<close> loop of \<open>parse_sequence\<close>: \<open>acc\<close> holds the ports stored in \<open>seq\<close> so far.\<close>

function parse_ports :: "string \<Rightarrow> port list \<Rightarrow> config_msg + port list" where
  "parse_ports s acc =
     (case strtok_next port_delims s of
        None \<Rightarrow> Inr acc
      | Some (tok, rest) \<Rightarrow>
          if MAX_KNOCK_SEQ_LEN \<le> length acc then Inl Sequence_too_many_ports
          else (let (p, used, erange) = strtol tok
                in if used = 0 \<or> used \<noteq> length tok \<or> erange \<or> p < 1 \<or> p > 65535
                   then Inl (Sequence_bad_entry tok)
                   else parse_ports rest (acc @ [word_of_int p])))"
  by pat_completeness auto
termination
  by (relation "measure (\<lambda>(s, acc). length s)") (auto dest: strtok_next_progress)

declare parse_ports.simps [simp del]

text \<open>\<open>True\<close> stands for the return value 0.\<close>

definition parse_sequence :: "config \<Rightarrow> string \<Rightarrow> bool \<times> config \<times> config_msg logs" where
  "parse_sequence c val =
     (if 256 \<le> length val then (False, c, [(LEVEL_WARN, Sequence_too_long)])
      else case parse_ports val [] of
             Inl m \<Rightarrow> (False, c, [(LEVEL_WARN, m)])
           | Inr seq \<Rightarrow>
               if seq = [] then (False, c, [(LEVEL_WARN, Sequence_empty)])
               else (True, c\<lparr>KNOCK_SEQUENCE := memcpy_prefix (KNOCK_SEQUENCE c) seq,
                              KNOCK_SEQ_LEN := length seq\<rparr>, []))"

definition parse_interface :: "config \<Rightarrow> string \<Rightarrow> bool \<times> config \<times> config_msg logs" where
  "parse_interface c val =
     (if val = [] then (True, c\<lparr>KNOCK_INTERFACE := []\<rparr>, [])
      else if IFNAME_MAX \<le> length val then (False, c, [(LEVEL_WARN, Interface_too_long val)])
      else (True, c\<lparr>KNOCK_INTERFACE := val\<rparr>, []))"

text \<open>\<open>S_IRGRP | S_IROTH | S_IWGRP | S_IWOTH\<close> is octal 066; \<open>None\<close>: \<open>fstat\<close> failed.\<close>

definition warn_if_world_readable :: "string \<Rightarrow> nat option \<Rightarrow> config_msg logs" where
  "warn_if_world_readable filepath mode = (case mode of
     None \<Rightarrow> []
   | Some m \<Rightarrow> if and m 54 \<noteq> 0 then [(LEVEL_WARN, Readable_by_others filepath (and m 4095))] else [])"

section \<open>Validation\<close>

text \<open>The inner loop of the duplicate check: the first later position holding the port at \<open>i\<close>.\<close>

definition repeat_of :: "config \<Rightarrow> nat \<Rightarrow> nat option" where
  "repeat_of c i = first_index (\<lambda>j. KNOCK_SEQUENCE c ! i = KNOCK_SEQUENCE c ! j)
     (i + 1) (KNOCK_SEQ_LEN c - (i + 1))"

text \<open>The three checks on the sequence; \<open>Some\<close> is the one warning the code logs when it clears
  \<open>seq_ok\<close> (each later loop is guarded by \<open>seq_ok\<close>).\<close>

definition sequence_problem :: "config \<Rightarrow> config_msg option" where
  "sequence_problem c =
     (if KNOCK_SEQ_LEN c < 2 \<or> MAX_KNOCK_SEQ_LEN < KNOCK_SEQ_LEN c
      then Some (Sequence_length_bad (KNOCK_SEQ_LEN c))
      else case first_index (\<lambda>i. KNOCK_SEQUENCE c ! i = 0) 0 (KNOCK_SEQ_LEN c) of
             Some i \<Rightarrow> Some (Sequence_zero_port (i + 1))
           | None \<Rightarrow>
               (case first_index (\<lambda>i. repeat_of c i \<noteq> None) 0 (KNOCK_SEQ_LEN c) of
                  Some i \<Rightarrow> Some (Sequence_repeats (KNOCK_SEQUENCE c ! i) (i + 1) (the (repeat_of c i) + 1))
                | None \<Rightarrow> None))"

definition validate_sequence :: "config \<Rightarrow> config \<times> config_msg logs" where
  "validate_sequence c = (case sequence_problem c of
     None \<Rightarrow> (c, [])
   | Some m \<Rightarrow> (reset_sequence_to_default c, [(LEVEL_WARN, m)]))"

definition validate_port :: "config \<Rightarrow> config \<times> config_msg logs" where
  "validate_port c =
     (if PROTECTED_PORT c < 1 \<or> PROTECTED_PORT c > 65535
      then (c\<lparr>PROTECTED_PORT := DEFAULT_PROTECTED_PORT\<rparr>,
            [(LEVEL_WARN, Port_out_of_range (PROTECTED_PORT c))])
      else (c, []))"

definition warn_port_in_sequence :: "config \<Rightarrow> config_msg logs" where
  "warn_port_in_sequence c =
     map (\<lambda>i. (LEVEL_WARN, Port_is_knock_port (PROTECTED_PORT c) (i + 1)))
       (filter (\<lambda>i. uint (KNOCK_SEQUENCE c ! i) = PROTECTED_PORT c) [0..<KNOCK_SEQ_LEN c])"

definition validate_timeout :: "config \<Rightarrow> config \<times> config_msg logs" where
  "validate_timeout c =
     (if ACCESS_TIMEOUT c \<le> 0
      then (c\<lparr>ACCESS_TIMEOUT := DEFAULT_ACCESS_TIMEOUT\<rparr>,
            [(LEVEL_WARN, Timeout_not_positive (ACCESS_TIMEOUT c))])
      else if ACCESS_TIMEOUT c > MAX_SANE_ACCESS_TIMEOUT
      then (c, [(LEVEL_WARN, Timeout_over_an_hour (ACCESS_TIMEOUT c))])
      else (c, []))"

definition validate_window :: "config \<Rightarrow> config \<times> config_msg logs" where
  "validate_window c =
     (if KNOCK_WINDOW c \<le> 0
      then (c\<lparr>KNOCK_WINDOW := DEFAULT_KNOCK_WINDOW\<rparr>,
            [(LEVEL_WARN, Window_not_positive (KNOCK_WINDOW c))])
      else (c, []))"

definition validate_max_clients :: "config \<Rightarrow> config \<times> config_msg logs" where
  "validate_max_clients c =
     (if MAX_CLIENTS c \<le> 0 \<or> MAX_CLIENTS c > MAX_SANE_CLIENTS
      then (c\<lparr>MAX_CLIENTS := DEFAULT_MAX_CLIENTS\<rparr>,
            [(LEVEL_WARN, Max_clients_bad (MAX_CLIENTS c))])
      else (c, []))"

definition validate_log_level :: "config \<Rightarrow> config \<times> config_msg logs" where
  "validate_log_level c =
     (if LOG_LEVEL c < 0 \<or> LOG_LEVEL c > 3
      then (c\<lparr>LOG_LEVEL := DEFAULT_LOG_LEVEL\<rparr>, [(LEVEL_WARN, Log_level_bad (LOG_LEVEL c))])
      else (c, []))"

text \<open>The blocks of \<open>config_validate\<close> in their order.  What a block logs is kept together with the
  \<open>LOG_LEVEL\<close> in force while it runs: the last block changes \<open>LOG_LEVEL\<close> itself, after its warning.
  Each warning in the code comes with \<open>warnings++\<close>, so \<open>warnings == 0\<close> means that nothing was logged.\<close>

definition validate_parts :: "config \<Rightarrow> config \<times> (int \<times> config_msg logs) list" where
  "validate_parts c0 =
     (let (c1, l1) = validate_sequence c0;
          (c2, l2) = validate_port c1;
          l3 = warn_port_in_sequence c2;
          (c4, l4) = validate_timeout c2;
          (c5, l5) = validate_window c4;
          (c6, l6) = validate_max_clients c5;
          (c7, l7) = validate_log_level c6;
          warnings = [(LOG_LEVEL c0, l1), (LOG_LEVEL c1, l2), (LOG_LEVEL c2, l3), (LOG_LEVEL c2, l4),
            (LOG_LEVEL c4, l5), (LOG_LEVEL c5, l6), (LOG_LEVEL c6, l7)]
      in (c7, if concat (map snd warnings) = []
              then warnings @ [(LOG_LEVEL c7, [(LEVEL_DEBUG, Configuration_validated)])] else warnings))"

definition config_validate :: "config \<Rightarrow> config \<times> config_msg logs" where
  "config_validate c = (let (c, parts) = validate_parts c in (c, concat (map snd parts)))"

lemma config_validate_blocks:
  "config_validate c =
     (let (c, l1) = validate_sequence c;
          (c, l2) = validate_port c;
          l3 = warn_port_in_sequence c;
          (c, l4) = validate_timeout c;
          (c, l5) = validate_window c;
          (c, l6) = validate_max_clients c;
          (c, l7) = validate_log_level c;
          ls = l1 @ l2 @ l3 @ l4 @ l5 @ l6 @ l7
      in (c, if ls = [] then [(LEVEL_DEBUG, Configuration_validated)] else ls))"
  by (simp add: config_validate_def validate_parts_def Let_def split_def)

section \<open>Loading\<close>

definition is_blank :: "char \<Rightarrow> bool" where
  "is_blank ch \<longleftrightarrow> ch = CHR '' '' \<or> ch = TAB"

definition trim_end :: "string \<Rightarrow> string" where
  "trim_end s = rev (dropWhile is_blank (rev s))"

text \<open>What the loop body of \<open>config_load\<close> makes of the text right of the equals sign.\<close>

definition clean_value :: "string \<Rightarrow> string" where
  "clean_value rest =
     (let val = (case strchr rest (CHR ''#'') of None \<Rightarrow> rest | Some (before, _) \<Rightarrow> before);
          val = takeWhile (\<lambda>ch. ch \<noteq> CR \<and> ch \<noteq> LF) val
      in trim_end (dropWhile is_blank val))"

definition set_int :: "(int \<Rightarrow> config \<Rightarrow> config) \<Rightarrow> config \<Rightarrow> int option \<times> config_msg logs \<Rightarrow> config \<times> config_msg logs" where
  "set_int upd c r = (case r of (None, ls) \<Rightarrow> (c, ls) | (Some n, ls) \<Rightarrow> (upd n c, ls))"

definition apply_setting :: "string \<Rightarrow> config \<Rightarrow> string \<Rightarrow> string \<Rightarrow> config \<times> config_msg logs" where
  "apply_setting filepath c key val =
     (if key = ''sequence'' then snd (parse_sequence c val)
      else if key = ''port'' then set_int (\<lambda>n c. c\<lparr>PROTECTED_PORT := n\<rparr>) c (parse_int key val)
      else if key = ''timeout'' then set_int (\<lambda>n c. c\<lparr>ACCESS_TIMEOUT := n\<rparr>) c (parse_int key val)
      else if key = ''window'' then set_int (\<lambda>n c. c\<lparr>KNOCK_WINDOW := n\<rparr>) c (parse_int key val)
      else if key = ''max_clients'' then set_int (\<lambda>n c. c\<lparr>MAX_CLIENTS := n\<rparr>) c (parse_int key val)
      else if key = ''log_level'' then set_int (\<lambda>n c. c\<lparr>LOG_LEVEL := n\<rparr>) c (parse_int key val)
      else if key = ''interface'' then snd (parse_interface c val)
      else (c, [(LEVEL_WARN, Unknown_key key filepath)]))"

text \<open>One turn of the \<open>while (fgets \<dots>)\<close> loop on the buffer it filled.\<close>

definition config_line :: "string \<Rightarrow> config \<Rightarrow> string \<Rightarrow> config \<times> config_msg logs" where
  "config_line filepath c buf =
     (let ptr = dropWhile is_blank (cstr buf)
      in if ptr = [] \<or> hd ptr = CHR ''#'' \<or> hd ptr = LF \<or> hd ptr = CR then (c, [])
         else case strchr ptr (CHR ''='') of
                None \<Rightarrow> (c, [(LEVEL_WARN, Line_without_equals ptr)])
              | Some (before, after) \<Rightarrow>
                  apply_setting filepath c (trim_end before) (clean_value after))"

definition LINE_SIZE :: nat where "LINE_SIZE = 256"

function read_lines :: "string \<Rightarrow> config \<Rightarrow> string \<Rightarrow> config \<times> config_msg logs" where
  "read_lines filepath c input =
     (case fgets LINE_SIZE input of
        None \<Rightarrow> (c, [])
      | Some (line, rest) \<Rightarrow>
          (let (c, l1) = config_line filepath c line;
               (c, l2) = read_lines filepath c rest
           in (c, l1 @ l2)))"
  by pat_completeness auto
termination
  by (relation "measure (\<lambda>(p, c, s). length s)") (auto simp: LINE_SIZE_def dest: fgets_SomeD(3))

declare read_lines.simps [simp del]

text \<open>What \<open>fopen\<close>, \<open>fstat\<close>, \<open>fgets\<close> and \<open>ferror\<close> deliver for the path.\<close>

record config_file =
  file_mode :: "nat option"
  file_bytes :: string
  file_error :: bool

text \<open>\<open>file = None\<close>: \<open>fopen\<close> failed.  The returned integer is \<open>config_load\<close>'s.\<close>

definition config_load ::
  "string \<Rightarrow> config_file option \<Rightarrow> config \<Rightarrow> int \<times> config \<times> config_msg logs" where
  "config_load filepath file c = (case file of
     None \<Rightarrow>
       (let (c, l) = config_validate c
        in (- 1, c, (LEVEL_WARN, Could_not_open filepath) # l))
   | Some f \<Rightarrow>
       (let l1 = warn_if_world_readable filepath (file_mode f);
            (c, l2) = read_lines filepath c (file_bytes f);
            l3 = (if file_error f then [(LEVEL_WARN, Read_error filepath)] else []);
            (c, l4) = config_validate c
        in (0, c, l1 @ l2 @ l3 @ [(LEVEL_INFO, Configuration_loaded filepath)] @ l4)))"

section \<open>What a configuration must satisfy\<close>

text \<open>The type invariant: the array has its declared size and every \<open>int\<close> global holds an
  \<open>int\<close>.\<close>

definition config_wf :: "config \<Rightarrow> bool" where
  "config_wf c \<longleftrightarrow> length (KNOCK_SEQUENCE c) = MAX_KNOCK_SEQ_LEN \<and> KNOCK_SEQ_LEN c \<le> MAX_KNOCK_SEQ_LEN
     \<and> c_int (PROTECTED_PORT c) \<and> c_int (ACCESS_TIMEOUT c) \<and> c_int (KNOCK_WINDOW c)
     \<and> c_int (MAX_CLIENTS c) \<and> c_int (LOG_LEVEL c) \<and> length (KNOCK_INTERFACE c) < IFNAME_MAX"

text \<open>What the rest of the daemon relies on once \<open>config_load\<close> has returned.\<close>

definition valid_config :: "config \<Rightarrow> bool" where
  "valid_config c \<longleftrightarrow> config_wf c \<and> 2 \<le> KNOCK_SEQ_LEN c
     \<and> 0 \<notin> set (knock_seq c) \<and> distinct (knock_seq c)
     \<and> 1 \<le> PROTECTED_PORT c \<and> PROTECTED_PORT c \<le> 65535
     \<and> 0 < ACCESS_TIMEOUT c \<and> 0 < KNOCK_WINDOW c
     \<and> 0 < MAX_CLIENTS c \<and> MAX_CLIENTS c \<le> MAX_SANE_CLIENTS
     \<and> 0 \<le> LOG_LEVEL c \<and> LOG_LEVEL c \<le> 3"

section \<open>The sequence check\<close>

lemma first_index_upto_None:
  "first_index P 0 n = None \<longleftrightarrow> (\<forall>i<n. \<not> P i)"
  by (simp add: first_index_None_iff)

lemma repeat_of_None_iff:
  "repeat_of c i = None \<longleftrightarrow>
     (\<forall>j. i < j \<and> j < KNOCK_SEQ_LEN c \<longrightarrow> KNOCK_SEQUENCE c ! i \<noteq> KNOCK_SEQUENCE c ! j)"
  by (auto simp: repeat_of_def first_index_None_iff Suc_le_eq)

lemma pairwise_upto:
  "(\<forall>i<n. \<forall>j<n. i \<noteq> j \<longrightarrow> f i \<noteq> f j) \<longleftrightarrow> (\<forall>i<n. \<forall>j. i < j \<and> j < n \<longrightarrow> f i \<noteq> f j)" for n :: nat
proof
  assume R: "\<forall>i<n. \<forall>j. i < j \<and> j < n \<longrightarrow> f i \<noteq> f j"
  show "\<forall>i<n. \<forall>j<n. i \<noteq> j \<longrightarrow> f i \<noteq> f j"
  proof (intro allI impI)
    fix i j assume "i < n" "j < n" "i \<noteq> j"
    then show "f i \<noteq> f j" using R [rule_format, of i j] R [rule_format, of j i]
      by (cases "i < j") force+
  qed
qed force

lemma distinct_knock_seq:
  assumes "KNOCK_SEQ_LEN c \<le> length (KNOCK_SEQUENCE c)"
  shows "distinct (knock_seq c) \<longleftrightarrow> (\<forall>i<KNOCK_SEQ_LEN c. repeat_of c i = None)"
proof -
  have len: "length (knock_seq c) = KNOCK_SEQ_LEN c" using assms by simp
  have "distinct (knock_seq c) \<longleftrightarrow>
    (\<forall>i<KNOCK_SEQ_LEN c. \<forall>j<KNOCK_SEQ_LEN c. i \<noteq> j \<longrightarrow> KNOCK_SEQUENCE c ! i \<noteq> KNOCK_SEQUENCE c ! j)"
    using len by (simp add: distinct_conv_nth)
  also have "\<dots> \<longleftrightarrow> (\<forall>i<KNOCK_SEQ_LEN c. repeat_of c i = None)"
    unfolding repeat_of_None_iff by (rule pairwise_upto)
  finally show ?thesis .
qed

lemma sequence_problem_None_iff:
  assumes "config_wf c"
  shows "sequence_problem c = None \<longleftrightarrow>
           2 \<le> KNOCK_SEQ_LEN c \<and> 0 \<notin> set (knock_seq c) \<and> distinct (knock_seq c)"
proof -
  have len: "KNOCK_SEQ_LEN c \<le> length (KNOCK_SEQUENCE c)" "\<not> MAX_KNOCK_SEQ_LEN < KNOCK_SEQ_LEN c"
    using assms by (auto simp: config_wf_def)
  have zero: "0 \<notin> set (knock_seq c) \<longleftrightarrow> first_index (\<lambda>i. KNOCK_SEQUENCE c ! i = 0) 0 (KNOCK_SEQ_LEN c) = None"
    using len(1) by (auto simp: first_index_upto_None in_set_conv_nth)
  have dup: "distinct (knock_seq c) \<longleftrightarrow> first_index (\<lambda>i. repeat_of c i \<noteq> None) 0 (KNOCK_SEQ_LEN c) = None"
    by (simp add: distinct_knock_seq [OF len(1)] first_index_upto_None)
  show ?thesis
    using len(2) unfolding sequence_problem_def zero dup by (auto split: option.splits)
qed

section \<open>Parsers keep the type invariant\<close>

lemma parse_int_SomeD:
  assumes "parse_int key val = (Some n, ls)"
  shows "c_int n" and "strtol val = (n, length val, False)" and "ls = []"
  using assms by (auto simp: parse_int_def c_int_def Let_def split: prod.splits if_splits)

lemma parse_int_NoneD: "parse_int key val = (None, ls) \<Longrightarrow> warned ls"
  by (auto simp: parse_int_def Let_def split: prod.splits if_splits)

lemma parse_ports_None: "strtok_next port_delims s = None \<Longrightarrow> parse_ports s acc = Inr acc"
  by (simp add: parse_ports.simps [of s acc])

lemma parse_ports_port:
  "strtok_next port_delims s = Some (tok, rest) \<Longrightarrow> length acc < MAX_KNOCK_SEQ_LEN \<Longrightarrow>
   strtol tok = (p, length tok, False) \<Longrightarrow> tok \<noteq> [] \<Longrightarrow> 1 \<le> p \<Longrightarrow> p \<le> 65535 \<Longrightarrow>
   parse_ports s acc = parse_ports rest (acc @ [word_of_int p])"
  by (simp add: parse_ports.simps [of s acc])

lemma parse_ports_InrE:
  assumes "parse_ports s acc = Inr ps"
  obtains (finished) "strtok_next port_delims s = None" "ps = acc"
  | (port) tok rest p where "strtok_next port_delims s = Some (tok, rest)"
      "length acc < MAX_KNOCK_SEQ_LEN" "strtol tok = (p, length tok, False)" "1 \<le> p" "p \<le> 65535"
      "parse_ports rest (acc @ [word_of_int p]) = Inr ps"
proof (cases "strtok_next port_delims s")
  case None
  with assms show ?thesis by (auto simp: parse_ports.simps [of s acc] intro: finished)
next
  case (Some tr)
  obtain tok rest where tr: "tr = (tok, rest)" by fastforce
  obtain p used er where st: "strtol tok = (p, used, er)" by (metis prod_cases3)
  show ?thesis
    using assms Some tr st by (intro port [of tok rest p])
      (auto simp: parse_ports.simps [of s acc] split: if_splits)
qed

lemma parse_ports_length:
  "parse_ports s acc = Inr ps \<Longrightarrow> length acc \<le> MAX_KNOCK_SEQ_LEN \<Longrightarrow> length ps \<le> MAX_KNOCK_SEQ_LEN"
proof (induction s arbitrary: acc rule: length_induct)
  case (1 s)
  from "1.prems"(1) show ?case
  proof (cases rule: parse_ports_InrE)
    case finished
    with "1.prems" show ?thesis by simp
  next
    case (port tok rest p)
    with "1.IH" strtok_next_progress(1) [OF port(1)] show ?thesis by simp
  qed
qed

lemma length_memcpy_prefix [simp]:
  "length src \<le> length dst \<Longrightarrow> length (memcpy_prefix dst src) = length dst"
  by (simp add: memcpy_prefix_def)

lemma take_memcpy_prefix [simp]: "take (length src) (memcpy_prefix dst src) = src"
  by (simp add: memcpy_prefix_def)

lemma config_wf_sequence:
  "config_wf c \<Longrightarrow> length seq \<le> MAX_KNOCK_SEQ_LEN \<Longrightarrow>
   config_wf (c\<lparr>KNOCK_SEQUENCE := memcpy_prefix (KNOCK_SEQUENCE c) seq, KNOCK_SEQ_LEN := length seq\<rparr>)"
  by (simp add: config_wf_def)

lemma reset_sequence_wf [knockd_wf]: "config_wf c \<Longrightarrow> config_wf (reset_sequence_to_default c)"
  unfolding reset_sequence_to_default_def
  by (rule config_wf_sequence) (simp_all add: config_limits)

lemma knock_seq_reset [simp]: "knock_seq (reset_sequence_to_default c) = DEFAULT_SEQUENCE"
  by (simp add: reset_sequence_to_default_def)

lemma parse_sequence_wf [knockd_wf]: "config_wf c \<Longrightarrow> config_wf (fst (snd (parse_sequence c val)))"
  by (auto simp: parse_sequence_def intro: config_wf_sequence dest: parse_ports_length
      split: sum.splits)

lemma parse_interface_wf [knockd_wf]: "config_wf c \<Longrightarrow> config_wf (fst (snd (parse_interface c val)))"
  by (auto simp: parse_interface_def config_wf_def config_limits)

lemma set_int_wf:
  assumes "config_wf c" "\<And>n. c_int n \<Longrightarrow> config_wf (upd n c)"
  shows "config_wf (fst (set_int upd c (parse_int key val)))"
  using assms by (cases "parse_int key val")
    (auto simp: set_int_def split: option.splits dest: parse_int_SomeD(1))

lemma config_wf_update:
  assumes "config_wf c" "c_int n"
  shows "config_wf (c\<lparr>PROTECTED_PORT := n\<rparr>)" "config_wf (c\<lparr>ACCESS_TIMEOUT := n\<rparr>)"
    "config_wf (c\<lparr>KNOCK_WINDOW := n\<rparr>)" "config_wf (c\<lparr>MAX_CLIENTS := n\<rparr>)"
    "config_wf (c\<lparr>LOG_LEVEL := n\<rparr>)"
  using assms by (simp_all add: config_wf_def)

lemma apply_setting_wf [knockd_wf]: "config_wf c \<Longrightarrow> config_wf (fst (apply_setting filepath c key val))"
  unfolding apply_setting_def
  by (simp add: parse_sequence_wf parse_interface_wf set_int_wf config_wf_update)

lemma config_line_wf [knockd_wf]: "config_wf c \<Longrightarrow> config_wf (fst (config_line filepath c buf))"
  by (auto simp: config_line_def Let_def knockd_wf split: option.splits)

lemma read_lines_wf [knockd_wf]: "config_wf c \<Longrightarrow> config_wf (fst (read_lines filepath c input))"
proof (induction filepath c input rule: read_lines.induct)
  case (1 filepath c input)
  show ?case
  proof (cases "fgets LINE_SIZE input")
    case None
    with "1.prems" show ?thesis by (simp add: read_lines.simps [of filepath c input])
  next
    case (Some p)
    obtain line rest where p: "p = (line, rest)" by fastforce
    obtain c1 l1 where cl: "config_line filepath c line = (c1, l1)" by fastforce
    have "config_wf c1" using config_line_wf [OF "1.prems", of filepath line] by (simp add: cl)
    with "1.IH" Some p cl have "config_wf (fst (read_lines filepath c1 rest))" by simp
    with Some p cl show ?thesis
      by (cases "read_lines filepath c1 rest") (simp add: read_lines.simps [of filepath c input])
  qed
qed

lemma initial_config_wf [simp]: "config_wf initial_config"
  by (simp add: config_wf_def initial_config_def config_limits c_int_def c_int_limits)

section \<open>Validation, field by field\<close>

lemma fst_validate_sequence:
  "fst (validate_sequence c) = (if sequence_problem c = None then c else reset_sequence_to_default c)"
  by (simp add: validate_sequence_def split: option.splits)

lemma fst_validate_fields:
  "fst (validate_port c) = c\<lparr>PROTECTED_PORT :=
     (if 1 \<le> PROTECTED_PORT c \<and> PROTECTED_PORT c \<le> 65535 then PROTECTED_PORT c else DEFAULT_PROTECTED_PORT)\<rparr>"
  "fst (validate_timeout c) = c\<lparr>ACCESS_TIMEOUT :=
     (if 0 < ACCESS_TIMEOUT c then ACCESS_TIMEOUT c else DEFAULT_ACCESS_TIMEOUT)\<rparr>"
  "fst (validate_window c) = c\<lparr>KNOCK_WINDOW :=
     (if 0 < KNOCK_WINDOW c then KNOCK_WINDOW c else DEFAULT_KNOCK_WINDOW)\<rparr>"
  "fst (validate_max_clients c) = c\<lparr>MAX_CLIENTS :=
     (if 0 < MAX_CLIENTS c \<and> MAX_CLIENTS c \<le> MAX_SANE_CLIENTS then MAX_CLIENTS c else DEFAULT_MAX_CLIENTS)\<rparr>"
  "fst (validate_log_level c) = c\<lparr>LOG_LEVEL :=
     (if 0 \<le> LOG_LEVEL c \<and> LOG_LEVEL c \<le> 3 then LOG_LEVEL c else DEFAULT_LOG_LEVEL)\<rparr>"
  by (simp_all add: validate_port_def validate_timeout_def validate_window_def
      validate_max_clients_def validate_log_level_def)

lemma fst_config_validate:
  "fst (config_validate c) =
     fst (validate_log_level (fst (validate_max_clients (fst (validate_window (fst (validate_timeout
       (fst (validate_port (fst (validate_sequence c)))))))))))"
  by (simp add: config_validate_blocks Let_def split_def)

lemma reset_sequence_fields [simp]:
  "PROTECTED_PORT (reset_sequence_to_default c) = PROTECTED_PORT c"
  "ACCESS_TIMEOUT (reset_sequence_to_default c) = ACCESS_TIMEOUT c"
  "KNOCK_WINDOW (reset_sequence_to_default c) = KNOCK_WINDOW c"
  "MAX_CLIENTS (reset_sequence_to_default c) = MAX_CLIENTS c"
  "LOG_LEVEL (reset_sequence_to_default c) = LOG_LEVEL c"
  "KNOCK_INTERFACE (reset_sequence_to_default c) = KNOCK_INTERFACE c"
  by (simp_all add: reset_sequence_to_default_def)

lemma config_validate_fields:
  assumes "config_wf c" and "c' = fst (config_validate c)"
  shows "knock_seq c' = (if 2 \<le> KNOCK_SEQ_LEN c \<and> 0 \<notin> set (knock_seq c) \<and> distinct (knock_seq c)
                         then knock_seq c else DEFAULT_SEQUENCE)"
    and "PROTECTED_PORT c' = (if 1 \<le> PROTECTED_PORT c \<and> PROTECTED_PORT c \<le> 65535
                              then PROTECTED_PORT c else DEFAULT_PROTECTED_PORT)"
    and "ACCESS_TIMEOUT c' = (if 0 < ACCESS_TIMEOUT c then ACCESS_TIMEOUT c else DEFAULT_ACCESS_TIMEOUT)"
    and "KNOCK_WINDOW c' = (if 0 < KNOCK_WINDOW c then KNOCK_WINDOW c else DEFAULT_KNOCK_WINDOW)"
    and "MAX_CLIENTS c' = (if 0 < MAX_CLIENTS c \<and> MAX_CLIENTS c \<le> MAX_SANE_CLIENTS
                           then MAX_CLIENTS c else DEFAULT_MAX_CLIENTS)"
    and "LOG_LEVEL c' = (if 0 \<le> LOG_LEVEL c \<and> LOG_LEVEL c \<le> 3 then LOG_LEVEL c else DEFAULT_LOG_LEVEL)"
    and "KNOCK_INTERFACE c' = KNOCK_INTERFACE c"
    and "KNOCK_SEQ_LEN c' = (if 2 \<le> KNOCK_SEQ_LEN c \<and> 0 \<notin> set (knock_seq c) \<and> distinct (knock_seq c)
                             then KNOCK_SEQ_LEN c else length DEFAULT_SEQUENCE)"
    and "length (KNOCK_SEQUENCE c') = MAX_KNOCK_SEQ_LEN"
proof -
  let ?s = "fst (validate_sequence c)"
  note steps = assms(2) [unfolded fst_config_validate fst_validate_fields]
  have same: "KNOCK_SEQUENCE c' = KNOCK_SEQUENCE ?s" "KNOCK_SEQ_LEN c' = KNOCK_SEQ_LEN ?s"
    by (simp_all add: steps)
  have s: "?s = (if 2 \<le> KNOCK_SEQ_LEN c \<and> 0 \<notin> set (knock_seq c) \<and> distinct (knock_seq c)
                 then c else reset_sequence_to_default c)"
    unfolding fst_validate_sequence sequence_problem_None_iff [OF assms(1)] ..
  show "knock_seq c' = (if 2 \<le> KNOCK_SEQ_LEN c \<and> 0 \<notin> set (knock_seq c) \<and> distinct (knock_seq c)
                         then knock_seq c else DEFAULT_SEQUENCE)"
    unfolding same s by simp
  show "KNOCK_SEQ_LEN c' = (if 2 \<le> KNOCK_SEQ_LEN c \<and> 0 \<notin> set (knock_seq c) \<and> distinct (knock_seq c)
                             then KNOCK_SEQ_LEN c else length DEFAULT_SEQUENCE)"
    unfolding same s by (simp add: reset_sequence_to_default_def)
  show "length (KNOCK_SEQUENCE c') = MAX_KNOCK_SEQ_LEN"
    using reset_sequence_wf [OF assms(1)] assms(1) unfolding same s by (simp add: config_wf_def)
  have keep: "PROTECTED_PORT ?s = PROTECTED_PORT c" "ACCESS_TIMEOUT ?s = ACCESS_TIMEOUT c"
    "KNOCK_WINDOW ?s = KNOCK_WINDOW c" "MAX_CLIENTS ?s = MAX_CLIENTS c" "LOG_LEVEL ?s = LOG_LEVEL c"
    "KNOCK_INTERFACE ?s = KNOCK_INTERFACE c"
    by (simp_all add: s)
  show "PROTECTED_PORT c' = (if 1 \<le> PROTECTED_PORT c \<and> PROTECTED_PORT c \<le> 65535
                              then PROTECTED_PORT c else DEFAULT_PROTECTED_PORT)"
    "ACCESS_TIMEOUT c' = (if 0 < ACCESS_TIMEOUT c then ACCESS_TIMEOUT c else DEFAULT_ACCESS_TIMEOUT)"
    "KNOCK_WINDOW c' = (if 0 < KNOCK_WINDOW c then KNOCK_WINDOW c else DEFAULT_KNOCK_WINDOW)"
    "MAX_CLIENTS c' = (if 0 < MAX_CLIENTS c \<and> MAX_CLIENTS c \<le> MAX_SANE_CLIENTS
                           then MAX_CLIENTS c else DEFAULT_MAX_CLIENTS)"
    "LOG_LEVEL c' = (if 0 \<le> LOG_LEVEL c \<and> LOG_LEVEL c \<le> 3 then LOG_LEVEL c else DEFAULT_LOG_LEVEL)"
    "KNOCK_INTERFACE c' = KNOCK_INTERFACE c"
    by (simp_all add: steps keep)
qed

lemma config_validate_valid: "config_wf c \<Longrightarrow> valid_config (fst (config_validate c))"
proof -
  assume wf: "config_wf c"
  note f = config_validate_fields [OF wf refl]
  have default: "2 \<le> length DEFAULT_SEQUENCE" "0 \<notin> set DEFAULT_SEQUENCE" "distinct DEFAULT_SEQUENCE"
    by (simp_all add: DEFAULT_SEQUENCE_def)
  have "config_wf (fst (config_validate c))"
    using wf by (simp add: config_wf_def f c_int_def c_int_limits config_limits)
  moreover have "2 \<le> KNOCK_SEQ_LEN (fst (config_validate c))" using default(1) by (simp add: f(8))
  moreover have "0 \<notin> set (knock_seq (fst (config_validate c)))" "distinct (knock_seq (fst (config_validate c)))"
    using default by (simp_all add: f(1))
  ultimately show ?thesis by (simp add: valid_config_def f(2-6) config_limits)
qed

lemma config_validate_id:
  assumes "valid_config c"
  shows "fst (config_validate c) = c"
proof -
  have wf: "config_wf c" using assms by (simp add: valid_config_def)
  have "fst (validate_sequence c) = c"
    using assms unfolding fst_validate_sequence sequence_problem_None_iff [OF wf]
    by (simp add: valid_config_def)
  with assms show ?thesis
    by (simp add: fst_config_validate fst_validate_fields valid_config_def)
qed

lemma warned_steps:
  "fst (validate_sequence c) \<noteq> c \<Longrightarrow> warned (snd (validate_sequence c))"
  "fst (validate_port c) \<noteq> c \<Longrightarrow> warned (snd (validate_port c))"
  "fst (validate_timeout c) \<noteq> c \<Longrightarrow> warned (snd (validate_timeout c))"
  "fst (validate_window c) \<noteq> c \<Longrightarrow> warned (snd (validate_window c))"
  "fst (validate_max_clients c) \<noteq> c \<Longrightarrow> warned (snd (validate_max_clients c))"
  "fst (validate_log_level c) \<noteq> c \<Longrightarrow> warned (snd (validate_log_level c))"
  by (auto simp: validate_sequence_def validate_port_def validate_timeout_def validate_window_def
      validate_max_clients_def validate_log_level_def split: option.splits if_splits)

lemma config_validate_warns:
  assumes "fst (config_validate c) \<noteq> c"
  shows "warned (snd (config_validate c))"
proof -
  define c1 where "c1 = fst (validate_sequence c)"
  define c2 where "c2 = fst (validate_port c1)"
  define c4 where "c4 = fst (validate_timeout c2)"
  define c5 where "c5 = fst (validate_window c4)"
  define c6 where "c6 = fst (validate_max_clients c5)"
  have changed: "c1 \<noteq> c \<or> c2 \<noteq> c1 \<or> c4 \<noteq> c2 \<or> c5 \<noteq> c4 \<or> c6 \<noteq> c5 \<or> fst (validate_log_level c6) \<noteq> c6"
    using assms unfolding fst_config_validate c1_def c2_def c4_def c5_def c6_def by metis
  let ?ls = "snd (validate_sequence c) @ snd (validate_port c1) @ warn_port_in_sequence c2 @
    snd (validate_timeout c2) @ snd (validate_window c4) @ snd (validate_max_clients c5) @
    snd (validate_log_level c6)"
  have w: "warned ?ls" using changed warned_steps unfolding warned_append
    by (metis c1_def c2_def c4_def c5_def c6_def)
  then have "?ls \<noteq> []" by (metis warned_Nil)
  then have "snd (config_validate c) = ?ls"
    by (simp add: config_validate_blocks Let_def split_def c1_def c2_def c4_def c5_def c6_def)
  with w show ?thesis by simp
qed

text \<open>Every block but the last one runs at the level that was loaded, and so does the warning of the
  last one.\<close>

lemma validate_blocks_keep_level:
  "LOG_LEVEL (fst (validate_sequence c)) = LOG_LEVEL c" "LOG_LEVEL (fst (validate_port c)) = LOG_LEVEL c"
  "LOG_LEVEL (fst (validate_timeout c)) = LOG_LEVEL c" "LOG_LEVEL (fst (validate_window c)) = LOG_LEVEL c"
  "LOG_LEVEL (fst (validate_max_clients c)) = LOG_LEVEL c"
  by (simp_all add: fst_validate_sequence fst_validate_fields)

lemma validate_parts_level:
  assumes "validate_parts c = (c', parts)" and "warned (concat (map snd parts))"
  shows "\<forall>part\<in>set parts. fst part = LOG_LEVEL c"
  using assms
  by (auto simp: validate_parts_def Let_def split_def validate_blocks_keep_level split: if_splits)

section \<open>Accepted sequences are the ports that were written\<close>

text \<open>The tokens of a port list, as \<open>strtok\<close> delivers them.\<close>

function port_tokens :: "string \<Rightarrow> string list" where
  "port_tokens s = (case strtok_next port_delims s of
     None \<Rightarrow> [] | Some (tok, rest) \<Rightarrow> tok # port_tokens rest)"
  by pat_completeness auto
termination
  by (relation "measure length") (auto dest: strtok_next_progress)

declare port_tokens.simps [simp del]

text \<open>\<open>tok\<close> spells the port \<open>p\<close>: all of it is one decimal number, in the range 1--65535.\<close>

definition spells_port :: "string \<Rightarrow> port \<Rightarrow> bool" where
  "spells_port tok p \<longleftrightarrow> strtol tok = (uint p, length tok, False) \<and> p \<noteq> 0"

lemma uint_word_of_int_port: "1 \<le> p \<Longrightarrow> p \<le> 65535 \<Longrightarrow> uint (word_of_int p :: port) = p"
  by (simp add: uint_word_of_int)

lemma parse_ports_tokens:
  "parse_ports s acc = Inr ps \<Longrightarrow>
     \<exists>qs. ps = acc @ qs \<and> list_all2 spells_port (port_tokens s) qs"
proof (induction s arbitrary: acc rule: length_induct)
  case (1 s)
  from "1.prems" show ?case
  proof (cases rule: parse_ports_InrE)
    case finished
    then show ?thesis by (simp add: port_tokens.simps [of s])
  next
    case (port tok rest p)
    with "1.IH" strtok_next_progress(1) [OF port(1)] obtain qs where
      qs: "ps = (acc @ [word_of_int p]) @ qs" "list_all2 spells_port (port_tokens rest) qs" by blast
    have u: "uint (word_of_int p :: port) = p" by (rule uint_word_of_int_port) (use port in auto)
    then have "word_of_int p \<noteq> (0 :: port)" using port(4) by (metis uint_0_eq not_one_le_zero)
    with u port have "spells_port tok (word_of_int p)" by (simp add: spells_port_def)
    with qs port show ?thesis by (simp add: port_tokens.simps [of s])
  qed
qed

lemma uint_port_less: "uint (p :: port) < 65536"
  using unsigned_less [of p, where 'a = int] by simp

lemma port_range: "p \<noteq> 0 \<Longrightarrow> 1 \<le> uint (p :: port) \<and> uint p \<le> 65535"
  using uint_port_less [of p] unsigned_greater_eq [of p, where 'a = int] uint_0_iff [of p] by linarith

lemma parse_ports_complete:
  "list_all2 spells_port (port_tokens s) qs \<Longrightarrow> length acc + length qs \<le> MAX_KNOCK_SEQ_LEN \<Longrightarrow>
     parse_ports s acc = Inr (acc @ qs)"
proof (induction s arbitrary: acc qs rule: length_induct)
  case (1 s)
  show ?case
  proof (cases "strtok_next port_delims s")
    case None
    with "1.prems"(1) show ?thesis by (simp add: port_tokens.simps [of s] parse_ports_None)
  next
    case (Some tr)
    obtain tok rest where tr: "tr = (tok, rest)" by fastforce
    note t = Some [unfolded tr]
    from "1.prems"(1) t obtain q qs' where qs: "qs = q # qs'" "spells_port tok q"
      "list_all2 spells_port (port_tokens rest) qs'"
      by (auto simp: port_tokens.simps [of s] list_all2_Cons1)
    from qs(2) have q: "strtol tok = (uint q, length tok, False)" "q \<noteq> 0" by (simp_all add: spells_port_def)
    have "parse_ports s acc = parse_ports rest (acc @ [word_of_int (uint q)])"
      using "1.prems"(2) qs(1) strtok_next_progress [OF t] port_range [OF q(2)]
      by (intro parse_ports_port [OF t _ q(1)]) auto
    also have "\<dots> = Inr ((acc @ [q]) @ qs')"
      using "1.IH" strtok_next_progress(1) [OF t] qs "1.prems"(2) by simp
    finally show ?thesis by (simp add: qs(1))
  qed
qed

text \<open>\<open>val\<close> is the text of the port list \<open>ps\<close>: short enough for the scratch buffer, 1 to 16 tokens,
  and token by token the ports.\<close>

definition port_list :: "string \<Rightarrow> port list \<Rightarrow> bool" where
  "port_list val ps \<longleftrightarrow> length val < 256 \<and> 1 \<le> length ps \<and> length ps \<le> 16 \<and>
     list_all2 spells_port (port_tokens val) ps"

lemma parse_sequence_rejects:
  "parse_sequence c val = (False, c', ls) \<Longrightarrow> c' = c \<and> (\<exists>m. ls = [(LEVEL_WARN, m)])"
  by (auto simp: parse_sequence_def split: if_splits sum.splits)

lemma parse_sequence_accepts:
  assumes "parse_sequence c val = (True, c', ls)"
  shows "\<exists>ps. port_list val ps \<and> ls = [] \<and>
    c' = c\<lparr>KNOCK_SEQUENCE := memcpy_prefix (KNOCK_SEQUENCE c) ps, KNOCK_SEQ_LEN := length ps\<rparr>"
proof -
  from assms obtain seq where seq: "parse_ports val [] = Inr seq" "seq \<noteq> []" "length val < 256"
    and c': "c' = c\<lparr>KNOCK_SEQUENCE := memcpy_prefix (KNOCK_SEQUENCE c) seq, KNOCK_SEQ_LEN := length seq\<rparr>"
    and ls: "ls = []"
    by (auto simp: parse_sequence_def split: if_splits sum.splits)
  have "list_all2 spells_port (port_tokens val) seq" using parse_ports_tokens [OF seq(1)] by simp
  moreover have "length seq \<le> 16" using parse_ports_length [OF seq(1)] by (simp add: MAX_KNOCK_SEQ_LEN_def)
  moreover have "1 \<le> length seq" using seq(2) by (cases seq) auto
  ultimately show ?thesis using seq(3) c' ls by (auto simp: port_list_def)
qed

lemma parse_sequence_complete:
  assumes "port_list val ps"
  shows "parse_sequence c val =
    (True, c\<lparr>KNOCK_SEQUENCE := memcpy_prefix (KNOCK_SEQUENCE c) ps, KNOCK_SEQ_LEN := length ps\<rparr>, [])"
proof -
  have "parse_ports val [] = Inr ps"
    using parse_ports_complete [of val ps "[]"] assms by (simp add: port_list_def MAX_KNOCK_SEQ_LEN_def)
  moreover have "ps \<noteq> []" using assms by (auto simp: port_list_def)
  ultimately show ?thesis using assms by (simp add: parse_sequence_def port_list_def)
qed

section \<open>Settings are applied whole or not at all\<close>

text \<open>\<open>val\<close> is, in full, one decimal number that fits an \<open>int\<close>.\<close>

definition spells_int :: "string \<Rightarrow> int \<Rightarrow> bool" where
  "spells_int val n \<longleftrightarrow> strtol val = (n, length val, False) \<and> val \<noteq> [] \<and> c_int n"

text \<open>What a key and its value mean: \<open>sets key val c d\<close> if the setting turns \<open>c\<close> into \<open>d\<close>.  An unknown
  key or a value that is not of the key's form sets nothing.\<close>

inductive sets :: "string \<Rightarrow> string \<Rightarrow> config \<Rightarrow> config \<Rightarrow> bool" where
  sets_sequence: "port_list val ps \<Longrightarrow> sets ''sequence'' val c
     (c\<lparr>KNOCK_SEQUENCE := memcpy_prefix (KNOCK_SEQUENCE c) ps, KNOCK_SEQ_LEN := length ps\<rparr>)"
| sets_port: "spells_int val n \<Longrightarrow> sets ''port'' val c (c\<lparr>PROTECTED_PORT := n\<rparr>)"
| sets_timeout: "spells_int val n \<Longrightarrow> sets ''timeout'' val c (c\<lparr>ACCESS_TIMEOUT := n\<rparr>)"
| sets_window: "spells_int val n \<Longrightarrow> sets ''window'' val c (c\<lparr>KNOCK_WINDOW := n\<rparr>)"
| sets_max_clients: "spells_int val n \<Longrightarrow> sets ''max_clients'' val c (c\<lparr>MAX_CLIENTS := n\<rparr>)"
| sets_log_level: "spells_int val n \<Longrightarrow> sets ''log_level'' val c (c\<lparr>LOG_LEVEL := n\<rparr>)"
| sets_interface: "length val < IFNAME_MAX \<Longrightarrow> sets ''interface'' val c (c\<lparr>KNOCK_INTERFACE := val\<rparr>)"

text \<open>The setting took effect in full and quietly, or it means nothing and one warning says so.\<close>

definition exactly_sets :: "string \<Rightarrow> string \<Rightarrow> config \<Rightarrow> config \<times> config_msg logs \<Rightarrow> bool" where
  "exactly_sets key val c r \<longleftrightarrow>
     (\<forall>d. sets key val c d \<longrightarrow> r = (d, [])) \<and>
     ((\<nexists>d. sets key val c d) \<longrightarrow> (\<exists>m. r = (c, [(LEVEL_WARN, m)])))"

inductive_cases sets_keyE:
  "sets ''sequence'' val c d" "sets ''port'' val c d" "sets ''timeout'' val c d" "sets ''window'' val c d"
  "sets ''max_clients'' val c d" "sets ''log_level'' val c d" "sets ''interface'' val c d"

lemma set_int_cases:
  obtains (number) n where "spells_int val n" "set_int upd c (parse_int key val) = (upd n c, [])"
  | (refused) m where "\<nexists>n. spells_int val n" "set_int upd c (parse_int key val) = (c, [(LEVEL_WARN, m)])"
proof -
  have iff: "(parse_int key val = (Some n, [])) \<longleftrightarrow> spells_int val n" for n
    by (auto simp: parse_int_def spells_int_def c_int_def split: prod.splits if_splits)
  have "(\<exists>n. parse_int key val = (Some n, [])) \<or> (\<exists>m. parse_int key val = (None, [(LEVEL_WARN, m)]))"
    by (auto simp: parse_int_def split: prod.splits)
  then show ?thesis
    by (elim disjE exE) (use iff number refused in \<open>force simp: set_int_def\<close>)+
qed

lemma spells_int_unique: "spells_int val n \<Longrightarrow> spells_int val m \<Longrightarrow> m = n"
  by (simp add: spells_int_def)

lemma exactly_sets_int:
  assumes "\<And>d. sets key val c d \<longleftrightarrow> (\<exists>n. spells_int val n \<and> d = upd n c)"
  shows "exactly_sets key val c (set_int upd c (parse_int key val))"
proof (cases rule: set_int_cases [of val upd c key])
  case (number n)
  then show ?thesis by (auto simp: exactly_sets_def assms dest: spells_int_unique)
next
  case (refused m)
  then show ?thesis by (auto simp: exactly_sets_def assms)
qed

lemma exactly_sets_sequence: "exactly_sets ''sequence'' val c (snd (parse_sequence c val))"
proof -
  have iff: "sets ''sequence'' val c d \<longleftrightarrow> (\<exists>ps. port_list val ps \<and>
      d = c\<lparr>KNOCK_SEQUENCE := memcpy_prefix (KNOCK_SEQUENCE c) ps, KNOCK_SEQ_LEN := length ps\<rparr>)" for d
    by (blast elim: sets_keyE intro: sets_sequence)
  have quiet: "snd (parse_sequence c val) = (d, [])" if "sets ''sequence'' val c d" for d
    using that parse_sequence_complete [of val _ c] unfolding iff by auto
  moreover have "\<exists>m. snd (parse_sequence c val) = (c, [(LEVEL_WARN, m)])" if no: "\<nexists>d. sets ''sequence'' val c d"
  proof -
    obtain ok c' ls where r: "parse_sequence c val = (ok, c', ls)" by (metis prod_cases3)
    have "\<not> ok" using no parse_sequence_accepts [of c val c' ls] r unfolding iff by auto
    then show ?thesis using parse_sequence_rejects [of c val c' ls] r by auto
  qed
  ultimately show ?thesis unfolding exactly_sets_def by blast
qed

lemma exactly_sets_interface: "exactly_sets ''interface'' val c (snd (parse_interface c val))"
proof -
  have "sets ''interface'' val c d \<longleftrightarrow> length val < IFNAME_MAX \<and> d = c\<lparr>KNOCK_INTERFACE := val\<rparr>" for d
    by (auto elim: sets_keyE intro: sets_interface)
  then show ?thesis by (auto simp: exactly_sets_def parse_interface_def IFNAME_MAX_def)
qed

lemma exactly_sets_unknown:
  assumes "key \<notin> {''sequence'', ''port'', ''timeout'', ''window'', ''max_clients'', ''log_level'', ''interface''}"
  shows "exactly_sets key val c (c, [(LEVEL_WARN, m)])"
  using assms by (auto simp: exactly_sets_def elim!: sets.cases)

lemma apply_setting_exact: "exactly_sets key val c (apply_setting filepath c key val)"
proof -
  have "exactly_sets ''port'' val c (set_int (\<lambda>n c. c\<lparr>PROTECTED_PORT := n\<rparr>) c (parse_int ''port'' val))"
    "exactly_sets ''timeout'' val c (set_int (\<lambda>n c. c\<lparr>ACCESS_TIMEOUT := n\<rparr>) c (parse_int ''timeout'' val))"
    "exactly_sets ''window'' val c (set_int (\<lambda>n c. c\<lparr>KNOCK_WINDOW := n\<rparr>) c (parse_int ''window'' val))"
    "exactly_sets ''max_clients'' val c (set_int (\<lambda>n c. c\<lparr>MAX_CLIENTS := n\<rparr>) c (parse_int ''max_clients'' val))"
    "exactly_sets ''log_level'' val c (set_int (\<lambda>n c. c\<lparr>LOG_LEVEL := n\<rparr>) c (parse_int ''log_level'' val))"
    by (rule exactly_sets_int; auto elim: sets_keyE intro: sets.intros)+
  then show ?thesis
    unfolding apply_setting_def
    by (simp add: exactly_sets_sequence exactly_sets_interface exactly_sets_unknown)
qed

section \<open>Printing ports\<close>

fun print_ports :: "port list \<Rightarrow> string" where
  "print_ports [] = []"
| "print_ports [p] = dec_of_nat (unat p)"
| "print_ports (p # q # ps) = dec_of_nat (unat p) @ CHR '','' # CHR '' '' # print_ports (q # ps)"

lemma dec_not_delim: "c \<in> set (dec_of_nat n) \<Longrightarrow> c \<notin> set port_delims"
  using dec_of_nat_digits isdigit_not_sign by (auto simp: port_delims_def)

lemma strtol_port:
  "strtol (dec_of_nat (unat (p :: port))) = (uint p, length (dec_of_nat (unat p)), False)"
  using strtol_dec_of_nat [of "unat p"] uint_port_less [of p] by (simp add: LONG_MAX_def)

lemma parse_ports_print:
  assumes "0 \<notin> set ps" "length acc + length ps \<le> MAX_KNOCK_SEQ_LEN" "\<forall>c\<in>set ws. c \<in> set port_delims"
  shows "parse_ports (ws @ print_ports ps) acc = Inr (acc @ ps)"
  using assms
proof (induction ps arbitrary: acc ws rule: print_ports.induct)
  case 1
  then show ?case by (simp add: parse_ports_None strtok_next_None)
next
  case (2 p)
  then have "parse_ports (ws @ dec_of_nat (unat p)) acc = parse_ports [] (acc @ [word_of_int (uint p)])"
    using strtok_next_word(1) [of "dec_of_nat (unat p)" port_delims ws] dec_not_delim port_range [of p]
    by (intro parse_ports_port [OF _ _ strtol_port]) auto
  then show ?case by (simp add: parse_ports_None strtok_next_None)
next
  case (3 p q ps)
  let ?rest = "CHR '' '' # print_ports (q # ps)"
  have "strtok_next port_delims (ws @ dec_of_nat (unat p) @ CHR '','' # ?rest) = Some (dec_of_nat (unat p), ?rest)"
    by (rule strtok_next_word(2)) (use 3 dec_not_delim in \<open>auto simp: port_delims_def\<close>)
  then have "parse_ports (ws @ dec_of_nat (unat p) @ CHR '','' # ?rest) acc
     = parse_ports ?rest (acc @ [word_of_int (uint p)])"
    using "3.prems" port_range [of p] by (intro parse_ports_port [OF _ _ strtol_port]) auto
  also have "\<dots> = parse_ports ([CHR '' ''] @ print_ports (q # ps)) (acc @ [p])" by simp
  also have "\<dots> = Inr ((acc @ [p]) @ q # ps)"
    by (rule "3.IH") (use "3.prems" in \<open>auto simp: port_delims_def\<close>)
  finally show ?case by simp
qed

lemma length_print_ports: "length (print_ports ps) \<le> 7 * length ps"
proof (induction ps rule: print_ports.induct)
  case (2 p)
  have "length (dec_of_nat (unat p)) \<le> 5"
    by (rule length_dec_of_nat) (use unsigned_less [of p, where 'a = nat] in auto)
  then show ?case by simp
next
  case (3 p q ps)
  have "length (dec_of_nat (unat p)) \<le> 5"
    by (rule length_dec_of_nat) (use unsigned_less [of p, where 'a = nat] in auto)
  with 3 show ?case by simp
qed simp

section \<open>Lines\<close>

lemma strchr_before: "(case strchr s c of None \<Rightarrow> s | Some (before, _) \<Rightarrow> before) = takeWhile (\<lambda>x. x \<noteq> c) s"
proof (cases "c \<in> set s")
  case True
  then obtain a b where s: "s = a @ c # b" and a: "c \<notin> set a" by (meson split_list_first)
  from a have "\<forall>x\<in>set a. x \<noteq> c" by blast
  then have "takeWhile (\<lambda>x. x \<noteq> c) s = a" unfolding s by (rule takeWhile_sep) simp
  then show ?thesis using strchr_sep [OF a, of b] by (simp add: s)
next
  case False
  then have tw: "takeWhile (\<lambda>x. x \<noteq> c) s = s" by (auto simp: takeWhile_eq_all_conv)
  have "strchr s c = None" using False strchr_None_iff by blast
  then show ?thesis by (simp only: tw option.case)
qed

lemma trim_end_blank:
  assumes "\<forall>ch\<in>set w. is_blank ch" "k = [] \<or> \<not> is_blank (last k)"
  shows "trim_end (k @ w) = k"
proof -
  have "dropWhile is_blank (rev w @ rev k) = dropWhile is_blank (rev k)"
    using assms(1) by (intro dropWhile_append2) simp
  also have "\<dots> = rev k" using assms(2) by (cases k rule: rev_cases) auto
  finally show ?thesis by (simp add: trim_end_def)
qed

text \<open>Characters that may occur in a key, and in a value.\<close>

definition key_char :: "char \<Rightarrow> bool" where
  "key_char ch \<longleftrightarrow> \<not> is_blank ch \<and> ch \<notin> {CHR ''#'', CHR ''='', CR, LF, NUL}"

definition plain_value :: "string \<Rightarrow> bool" where
  "plain_value v \<longleftrightarrow> (\<forall>ch\<in>set v. ch \<notin> {CHR ''#'', CR, LF, NUL}) \<and>
     (v = [] \<or> \<not> is_blank (hd v) \<and> \<not> is_blank (last v))"

text \<open>What may follow a value: nothing, a comment, or a line end.\<close>

definition line_tail :: "string \<Rightarrow> bool" where
  "line_tail t \<longleftrightarrow> t = [] \<or> hd t \<in> {CHR ''#'', CR, LF, NUL}"

lemma blank_not_special: "is_blank ch \<Longrightarrow> ch \<notin> {CHR ''#'', CHR ''='', CR, LF, NUL}"
  by (auto simp: is_blank_def TAB_def CR_def LF_def NUL_def)

lemma special_chars_distinct:
  "CHR ''='' \<noteq> CR" "CHR ''='' \<noteq> LF" "CHR ''='' \<noteq> NUL" "CHR ''#'' \<noteq> NUL" "CR \<noteq> NUL" "LF \<noteq> NUL"
  "\<not> is_blank (CHR ''='')"
  by (simp_all add: CR_def LF_def NUL_def is_blank_def TAB_def)

lemma clean_value_plain:
  assumes "\<forall>ch\<in>set w3. is_blank ch" "plain_value v" "\<forall>ch\<in>set w4. is_blank ch"
    and tail: "t = [] \<or> hd t \<in> {CHR ''#'', CR, LF}"
  shows "clean_value (w3 @ v @ w4 @ t) = v"
proof -
  let ?x = "w3 @ v @ w4" and ?t = "takeWhile (\<lambda>ch. ch \<noteq> CHR ''#'') t"
  have x: "ch \<in> set ?x \<Longrightarrow> ch \<notin> {CHR ''#'', CR, LF}" for ch
    using assms(1-3) blank_not_special by (auto simp: plain_value_def)
  have "takeWhile (\<lambda>ch. ch \<noteq> CHR ''#'') (?x @ t) = ?x @ ?t"
    using x by (intro takeWhile_append2) blast
  moreover have "takeWhile (\<lambda>ch. ch \<noteq> CR \<and> ch \<noteq> LF) (?x @ ?t) = ?x @ takeWhile (\<lambda>ch. ch \<noteq> CR \<and> ch \<noteq> LF) ?t"
    using x by (intro takeWhile_append2) blast
  moreover have "takeWhile (\<lambda>ch. ch \<noteq> CR \<and> ch \<noteq> LF) ?t = []"
    using tail by (cases t) auto
  ultimately have cut: "clean_value (?x @ t) = trim_end (dropWhile is_blank ?x)"
    by (simp add: clean_value_def Let_def strchr_before)
  have "dropWhile is_blank ?x = v @ (if v = [] then [] else w4)"
    using assms(1-3) by (cases v) (auto simp: plain_value_def dropWhile_append2 dropWhile_eq_Nil_conv)
  moreover have "trim_end (v @ (if v = [] then [] else w4)) = v"
    by (rule trim_end_blank) (use assms(2,3) in \<open>auto simp: plain_value_def\<close>)
  ultimately show ?thesis using cut by simp
qed

lemma config_line_plain:
  assumes blanks: "\<forall>ch\<in>set (w1 @ w2 @ w3 @ w4). is_blank ch"
    and key: "key \<noteq> []" "\<forall>ch\<in>set key. key_char ch" and val: "plain_value v" and tail: "line_tail t"
  shows "config_line filepath c (w1 @ key @ w2 @ CHR ''='' # w3 @ v @ w4 @ t)
       = apply_setting filepath c key v"
proof -
  let ?pre = "w1 @ key @ w2 @ CHR ''='' # w3 @ v @ w4"
  have "cstr (?pre @ t) = ?pre @ cstr t"
  proof -
    have b: "NUL \<notin> set w" if "\<forall>ch\<in>set w. is_blank ch" for w
      using blank_not_special that by blast
    have "NUL \<notin> set w1" "NUL \<notin> set w2" "NUL \<notin> set w3" "NUL \<notin> set w4"
      using blanks by (auto intro!: b)
    moreover have "NUL \<notin> set key" "NUL \<notin> set v"
      using key(2) val by (auto simp: key_char_def plain_value_def)
    ultimately have "NUL \<notin> set ?pre" using special_chars_distinct(3) by simp
    then show ?thesis unfolding cstr_def by (intro takeWhile_append2) blast
  qed
  moreover have "dropWhile is_blank (w1 @ key @ x) = key @ x" for x
    using blanks key by (cases key) (auto simp: dropWhile_append2 key_char_def)
  ultimately have ptr: "dropWhile is_blank (cstr (?pre @ t)) = (key @ w2) @ CHR ''='' # w3 @ v @ w4 @ cstr t"
    by simp
  have "CHR ''='' \<notin> set w2" using blanks special_chars_distinct(7) by auto
  moreover have "CHR ''='' \<notin> set key" using key(2) by (auto simp: key_char_def)
  ultimately have eq: "CHR ''='' \<notin> set (key @ w2)" by simp
  have hd: "hd (key @ y) \<notin> {CHR ''#'', LF, CR}" for y
    using key by (cases key) (auto simp: key_char_def)
  have tk: "trim_end (key @ w2) = key"
    by (rule trim_end_blank) (use blanks key in \<open>auto simp: key_char_def\<close>)
  have "cstr t = [] \<or> hd (cstr t) \<in> {CHR ''#'', CR, LF}"
    using tail by (cases t) (auto simp: line_tail_def cstr_def)
  then have cv: "clean_value (w3 @ v @ w4 @ cstr t) = v"
    by (intro clean_value_plain) (use blanks val in auto)
  define p where "p = (key @ w2) @ CHR ''='' # w3 @ v @ w4 @ cstr t"
  have p: "p \<noteq> []" "hd p \<noteq> CHR ''#''" "hd p \<noteq> LF" "hd p \<noteq> CR"
    using hd [of "w2 @ CHR ''='' # w3 @ v @ w4 @ cstr t"] by (simp_all add: p_def)
  have "strchr p (CHR ''='') = Some (key @ w2, w3 @ v @ w4 @ cstr t)"
    unfolding p_def by (rule strchr_sep [OF eq])
  with p have "config_line filepath c (?pre @ t) = apply_setting filepath c key v"
    unfolding config_line_def Let_def ptr p_def [symmetric] by (simp add: tk cv)
  then show ?thesis by simp
qed

lemma fgets_line_full:
  "length cm = n \<Longrightarrow> LF \<notin> set cm \<Longrightarrow> fgets_line n (cm @ rest) = (cm, rest)"
  by (induction cm arbitrary: n) auto

lemma config_load_ok:
  assumes "config_wf c" and "config_load filepath opened c = (rc, c', ls)"
  shows "valid_config c' \<and> rc = (if opened = None then - 1 else 0)"
proof (cases opened)
  case None
  then show ?thesis
    using assms config_validate_valid [OF assms(1)] by (auto simp: config_load_def split: prod.splits)
next
  case (Some f)
  obtain c1 l1 where r: "read_lines filepath c (file_bytes f) = (c1, l1)" by fastforce
  have "config_wf c1" using read_lines_wf [OF assms(1), of filepath "file_bytes f"] by (simp add: r)
  from config_validate_valid [OF this] assms(2) Some r show ?thesis
    by (auto simp: config_load_def Let_def split: prod.splits)
qed

text \<open>A small concrete configuration for the witnesses: the shipped defaults with two slots.\<close>

definition demo_config :: config where
  "demo_config = initial_config\<lparr>MAX_CLIENTS := 2\<rparr>"

lemma demo_config_valid: "valid_config demo_config"
proof -
  have "knock_seq demo_config = [7000, 8000, 9000]"
    by (simp add: demo_config_def initial_config_def config_limits)
  then show ?thesis
    by (simp add: valid_config_def config_wf_def)
       (simp add: demo_config_def initial_config_def config_limits c_int_def c_int_limits)
qed

section \<open>Properties\<close>

text \<open>
  C19.  \<open>config_load\<close> always leaves a usable configuration: whatever the file holds, or if it
  cannot be opened at all, every field is in range afterwards, the knock sequence has 2 to 16
  distinct non-zero ports, and the return value says whether the file was opened.
\<close>

theorem config_load_valid:
  assumes "config_wf c" and "config_load filepath opened c = (rc, c', ls)"
  shows "valid_config c' \<and> rc = (if opened = None then - 1 else 0)"
  by (rule config_load_ok [OF assms])

theorem config_load_valid_witness:
  "\<exists>c' ls. config_load ''knockd.conf''
       (Some \<lparr>file_mode = Some 384, file_bytes = ''port = 70000'' @ [LF] @ ''window = 0'', file_error = False\<rparr>)
       initial_config = (0, c', ls) \<and> valid_config c'"
proof -
  let ?f = "Some \<lparr>file_mode = Some 384, file_bytes = ''port = 70000'' @ [LF] @ ''window = 0'', file_error = False\<rparr>"
  obtain rc c' ls where r: "config_load ''knockd.conf'' ?f initial_config = (rc, c', ls)"
    by (metis prod_cases3)
  from config_load_valid [OF initial_config_wf r] have "valid_config c' \<and> rc = 0" by simp
  with r show ?thesis by blast
qed

text \<open>
  C31.  Validation in full: a field that is in range keeps its value, any other becomes its
  documented default, the sequence as a whole is kept or replaced, and the interface name is
  never touched.
\<close>

theorem config_validate_spec:
  assumes "config_wf c" and "config_validate c = (c', ls)"
  shows "knock_seq c' = (if 2 \<le> KNOCK_SEQ_LEN c \<and> 0 \<notin> set (knock_seq c) \<and> distinct (knock_seq c)
                         then knock_seq c else [7000, 8000, 9000]) \<and>
    PROTECTED_PORT c' = (if 1 \<le> PROTECTED_PORT c \<and> PROTECTED_PORT c \<le> 65535 then PROTECTED_PORT c else 22) \<and>
    ACCESS_TIMEOUT c' = (if 0 < ACCESS_TIMEOUT c then ACCESS_TIMEOUT c else 30) \<and>
    KNOCK_WINDOW c' = (if 0 < KNOCK_WINDOW c then KNOCK_WINDOW c else 15) \<and>
    MAX_CLIENTS c' = (if 0 < MAX_CLIENTS c \<and> MAX_CLIENTS c \<le> 65536 then MAX_CLIENTS c else 64) \<and>
    LOG_LEVEL c' = (if 0 \<le> LOG_LEVEL c \<and> LOG_LEVEL c \<le> 3 then LOG_LEVEL c else 2) \<and>
    KNOCK_INTERFACE c' = KNOCK_INTERFACE c"
proof -
  have c': "c' = fst (config_validate c)" by (simp add: assms(2))
  note f = config_validate_fields [OF assms(1) c', unfolded config_limits]
  show ?thesis using f(1-7) by blast
qed

theorem config_validate_spec_witness:
  "config_wf (initial_config\<lparr>PROTECTED_PORT := 70000\<rparr>) \<and>
   PROTECTED_PORT (fst (config_validate (initial_config\<lparr>PROTECTED_PORT := 70000\<rparr>))) = 22"
proof -
  let ?c = "initial_config\<lparr>PROTECTED_PORT := 70000\<rparr>"
  have wf: "config_wf ?c"
    by (rule config_wf_update(1)) (simp_all add: c_int_def c_int_limits)
  obtain c' ls where r: "config_validate ?c = (c', ls)" by fastforce
  from config_validate_spec [OF wf r] have "PROTECTED_PORT c' = 22" by simp
  with wf r show ?thesis by simp
qed

text \<open>
  A configuration is left alone by validation exactly when it is valid, and a value is never
  replaced quietly: whenever validation changes anything it logs a warning.
\<close>

theorem config_validate_never_quiet:
  assumes "config_wf c"
  shows "(fst (config_validate c) = c \<longleftrightarrow> valid_config c) \<and>
         (fst (config_validate c) = c \<or> warned (snd (config_validate c)))"
proof -
  have "valid_config c" if "fst (config_validate c) = c"
    using config_validate_valid [OF assms] that by simp
  then show ?thesis using config_validate_id [of c] config_validate_warns [of c] by blast
qed

theorem config_validate_never_quiet_witness:
  "config_wf initial_config \<and> valid_config initial_config"
proof -
  have "fst (config_validate initial_config) = initial_config" by code_simp
  with config_validate_never_quiet [OF initial_config_wf] show ?thesis by simp
qed

text \<open>
  C30.  The effect of every line of the file, in full.  A blank line or a comment does nothing.  A
  line without an equals sign changes nothing and is reported.  Otherwise the text left of the
  sign is the key and the cleaned text right of it the value: if the key is known and the value
  has its form - a list of 1 to 16 ports, a decimal number that fits an \<open>int\<close>, an interface name of
  less than 32 bytes - the one setting changes to that value and nothing is logged; in every other
  case nothing changes and exactly one warning is logged.  So a value that does not parse is never
  half applied and never dropped in silence.
\<close>

theorem config_line_whole_or_refused:
  assumes "config_line filepath c buf = (c', ls)" and "ptr = dropWhile is_blank (cstr buf)"
  shows "if ptr = [] \<or> hd ptr \<in> {CHR ''#'', LF, CR} then c' = c \<and> ls = []
    else case strchr ptr (CHR ''='') of
      None \<Rightarrow> c' = c \<and> ls = [(LEVEL_WARN, Line_without_equals ptr)]
    | Some (key, val) \<Rightarrow>
        (\<forall>d. sets (trim_end key) (clean_value val) c d \<longrightarrow> c' = d \<and> ls = []) \<and>
        ((\<nexists>d. sets (trim_end key) (clean_value val) c d) \<longrightarrow> c' = c \<and> (\<exists>m. ls = [(LEVEL_WARN, m)]))"
  using assms(1) apply_setting_exact [of _ _ c filepath]
  unfolding config_line_def Let_def assms(2) [symmetric] exactly_sets_def
  by (auto split: option.splits if_splits) (metis prod.inject)+

theorem config_line_whole_or_refused_witness:
  "config_line ''knockd.conf'' initial_config ''timeout = 30s'' =
     (initial_config, [(LEVEL_WARN, Not_a_number ''timeout'' ''30s'')]) \<and>
   (\<nexists>d. sets ''timeout'' ''30s'' initial_config d) \<and>
   sets ''timeout'' ''45'' initial_config (initial_config\<lparr>ACCESS_TIMEOUT := 45\<rparr>) \<and>
   config_line ''knockd.conf'' initial_config ''timeout = 45'' = (initial_config\<lparr>ACCESS_TIMEOUT := 45\<rparr>, [])"
proof -
  have r: "config_line ''knockd.conf'' initial_config ''timeout = 30s'' =
     (initial_config, [(LEVEL_WARN, Not_a_number ''timeout'' ''30s'')])" by code_simp
  obtain c' ls where t: "config_line ''knockd.conf'' initial_config ''timeout = 45'' = (c', ls)" by fastforce
  have "strtol ''45'' = (45, length ''45'', False)" by code_simp
  then have "spells_int ''45'' 45" by (simp add: spells_int_def c_int_def c_int_limits)
  then have set: "sets ''timeout'' ''45'' initial_config (initial_config\<lparr>ACCESS_TIMEOUT := 45\<rparr>)" by (rule sets_timeout)
  have p: "strchr (dropWhile is_blank (cstr ''timeout = 30s'')) (CHR ''='') = Some (''timeout '', '' 30s'')"
    "strchr (dropWhile is_blank (cstr ''timeout = 45'')) (CHR ''='') = Some (''timeout '', '' 45'')"
    "\<not> (dropWhile is_blank (cstr ''timeout = 30s'') = [] \<or>
        hd (dropWhile is_blank (cstr ''timeout = 30s'')) \<in> {CHR ''#'', LF, CR})"
    "\<not> (dropWhile is_blank (cstr ''timeout = 45'') = [] \<or>
        hd (dropWhile is_blank (cstr ''timeout = 45'')) \<in> {CHR ''#'', LF, CR})"
    "trim_end ''timeout '' = ''timeout''" "clean_value '' 30s'' = ''30s''" "clean_value '' 45'' = ''45''"
    by code_simp+
  have "\<forall>d. sets ''timeout'' ''45'' initial_config d \<longrightarrow> c' = d \<and> ls = []"
    using config_line_whole_or_refused [OF t refl] by (auto simp only: p if_False option.case prod.case)
  with set have "c' = initial_config\<lparr>ACCESS_TIMEOUT := 45\<rparr>" "ls = []" by blast+
  moreover have "\<nexists>d. sets ''timeout'' ''30s'' initial_config d"
    using config_line_whole_or_refused [OF r refl] by (auto simp only: p if_False option.case prod.case)
  ultimately show ?thesis using r t set by simp
qed

text \<open>
  C32.  \<open>parse_sequence\<close> accepts exactly the lists of 1 to 16 ports: it returns 0 if and only if the
  text is shorter than the scratch buffer and every token is a whole decimal number in 1--65535 (so
  70000 is not truncated to 4464), 1 to 16 of them.  Then the sequence becomes those ports, in order,
  no other setting changes and nothing is logged; a rejected list changes nothing and is reported
  by one warning.
\<close>

theorem parse_sequence_exact:
  assumes "parse_sequence c val = (ok, c', ls)"
  shows "(ok \<longleftrightarrow> (\<exists>ps. port_list val ps)) \<and>
    (if ok then port_list val (knock_seq c') \<and> ls = [] \<and>
       c' = c\<lparr>KNOCK_SEQUENCE := knock_seq c' @ drop (length (knock_seq c')) (KNOCK_SEQUENCE c),
              KNOCK_SEQ_LEN := length (knock_seq c')\<rparr>
     else c' = c \<and> (\<exists>m. ls = [(LEVEL_WARN, m)]))"
proof (cases ok)
  case False
  with assms parse_sequence_rejects [of c val c' ls] parse_sequence_complete [of val _ c]
  show ?thesis by auto
next
  case True
  then have "parse_sequence c val = (True, c', ls)" using assms by simp
  from parse_sequence_accepts [OF this] obtain ps where ps: "port_list val ps" "ls = []"
    and c': "c' = c\<lparr>KNOCK_SEQUENCE := memcpy_prefix (KNOCK_SEQUENCE c) ps, KNOCK_SEQ_LEN := length ps\<rparr>"
    by blast
  have ks: "knock_seq c' = ps" by (simp add: c')
  show ?thesis using True ps unfolding ks by (auto simp: c' memcpy_prefix_def)
qed

theorem parse_sequence_exact_witness:
  "(\<exists>c'. parse_sequence initial_config ''7000, 8000'' = (True, c', []) \<and> port_list ''7000, 8000'' [7000, 8000] \<and>
      knock_seq c' = [7000, 8000]) \<and>
   (\<nexists>ps. port_list ''7000, 70000'' ps)"
proof -
  have r: "parse_sequence initial_config ''7000, 70000'' =
     (False, initial_config, [(LEVEL_WARN, Sequence_bad_entry ''70000'')])" by code_simp
  obtain c' where t: "parse_sequence initial_config ''7000, 8000'' = (True, c', [])" "knock_seq c' = [7000, 8000]"
  proof -
    have "fst (parse_sequence initial_config ''7000, 8000'') \<and> snd (snd (parse_sequence initial_config ''7000, 8000'')) = []
      \<and> knock_seq (fst (snd (parse_sequence initial_config ''7000, 8000''))) = [7000, 8000]" by code_simp
    then show ?thesis by (intro that [of "fst (snd (parse_sequence initial_config ''7000, 8000''))"]) (auto simp: prod_eq_iff)
  qed
  from parse_sequence_exact [OF r] parse_sequence_exact [OF t(1)] t show ?thesis by auto
qed

text \<open>
  C33.  Round trip: a list of 1 to 16 non-zero ports written in decimal and separated by a comma
  and a space is read back as exactly that list.
\<close>

theorem parse_sequence_print_ports:
  assumes "ps \<noteq> []" and "length ps \<le> 16" and "0 \<notin> set ps"
  shows "\<exists>c'. parse_sequence c (print_ports ps) = (True, c', []) \<and> knock_seq c' = ps"
proof -
  have "parse_ports ([] @ print_ports ps) [] = Inr ([] @ ps)"
    by (rule parse_ports_print) (use assms in \<open>simp_all add: MAX_KNOCK_SEQ_LEN_def\<close>)
  moreover have "length (print_ports ps) < 256"
    using length_print_ports [of ps] assms(2) by simp
  ultimately show ?thesis using assms(1) by (simp add: parse_sequence_def)
qed

theorem parse_sequence_print_ports_witness:
  "\<exists>c'. parse_sequence initial_config (print_ports [1234, 2345, 65535]) = (True, c', []) \<and>
        knock_seq c' = [1234, 2345, 65535]"
  using parse_sequence_print_ports [of "[1234, 2345, 65535]" initial_config] by simp

text \<open>
  \<open>parse_int\<close> accepts exactly the texts that are one complete decimal number within the
  range of \<open>int\<close>, and returns its value; every other text is reported.
\<close>

theorem parse_int_accepts_iff:
  "(parse_int key val = (Some n, [])) \<longleftrightarrow>
     (strtol val = (n, length val, False) \<and> val \<noteq> [] \<and> c_int n)"
  by (auto simp: parse_int_def c_int_def split: prod.splits if_splits)

text \<open>
  Blanks around the key and the value, an end-of-line comment and either line ending are
  all tolerated: the line has the effect of the bare key and value.
\<close>

theorem config_line_tolerant:
  assumes "\<forall>ch\<in>set (w1 @ w2 @ w3 @ w4). is_blank ch"
    and "key \<noteq> []" and "\<forall>ch\<in>set key. key_char ch" and "plain_value v" and "line_tail t"
  shows "config_line filepath c (w1 @ key @ w2 @ CHR ''='' # w3 @ v @ w4 @ t)
       = apply_setting filepath c key v"
  by (rule config_line_plain [OF assms])

theorem config_line_tolerant_witness:
  "PROTECTED_PORT (fst (config_line ''f'' initial_config (''port  = 2244   # the real ssh port'' @ [LF]))) = 2244"
proof -
  have "config_line ''f'' initial_config ([] @ ''port'' @ ''  '' @ CHR ''='' # '' '' @ ''2244'' @ ''   '' @
      (''# the real ssh port'' @ [LF])) = apply_setting ''f'' initial_config ''port'' ''2244''"
    by (rule config_line_tolerant)
       (simp_all add: is_blank_def key_char_def plain_value_def line_tail_def TAB_def CR_def LF_def NUL_def)
  moreover have "PROTECTED_PORT (fst (apply_setting ''f'' initial_config ''port'' ''2244'')) = 2244"
    by code_simp
  ultimately show ?thesis by simp
qed

text \<open>
  C34.  A comment line of more than 255 bytes is not skipped as a whole: \<open>fgets\<close> hands it over in
  pieces of 255 bytes, and whatever follows the first piece is read as a line of its own, so the
  tail of a long comment can set a value.
\<close>

theorem long_comment_tail_is_read:
  assumes "length cm = 255" and "hd cm = CHR ''#''" and "LF \<notin> set cm" and "NUL \<notin> set cm"
  shows "read_lines filepath c (cm @ rest) = read_lines filepath c rest"
proof -
  have ne: "cm \<noteq> []" using assms(1) by auto
  then obtain r where cm: "cm = CHR ''#'' # r" using assms(2) by (cases cm) auto
  have "fgets LINE_SIZE (cm @ rest) = Some (cm, rest)"
    using ne fgets_line_full [OF assms(1,3), of rest] by (simp add: fgets_def LINE_SIZE_def)
  moreover have "config_line filepath c cm = (c, [])"
    by (simp add: config_line_def cm cstr_def is_blank_def TAB_def NUL_def)
  ultimately show ?thesis
    by (subst read_lines.simps) (simp split: prod.split)
qed

theorem long_comment_tail_is_read_witness:
  "PROTECTED_PORT (fst (read_lines ''f'' initial_config
     ((CHR ''#'' # replicate 254 (CHR ''x'')) @ ''port = 80''))) = 80"
proof -
  have "read_lines ''f'' initial_config ((CHR ''#'' # replicate 254 (CHR ''x'')) @ ''port = 80'')
      = read_lines ''f'' initial_config ''port = 80''"
    by (rule long_comment_tail_is_read) (simp_all add: LF_def NUL_def)
  moreover have "PROTECTED_PORT (fst (read_lines ''f'' initial_config ''port = 80'')) = 80"
    by code_simp
  ultimately show ?thesis by (simp only:)
qed

end
