(* ===== verification/Packet_Queue.thy ===== *)
theory Packet_Queue
  imports Logger "HOL-Library.Signed_Division"
begin

unbundle bit_operations_syntax

text \<open>
  \<open>src/packet_queue.c\<close>: the ring buffer between the capture and the processor thread.  Each
  function is the critical section it runs under \<open>lock\<close>, so one call is one atomic step.  The
  locale \<open>bounded_fifo\<close> is the contract the two threads rely on; the ring is an interpretation
  of it.
\<close>

section \<open>The queue\<close>

record knock_event_t =
  src_ip :: ipv4
  dst_port :: port

definition QUEUE_CAPACITY :: nat where "QUEUE_CAPACITY = 256"
definition DROP_REPORT_INTERVAL :: int where "DROP_REPORT_INTERVAL = 10"

record pktqueue =
  ring :: "knock_event_t list"
  head :: nat
  tail :: nat
  count :: nat
  shutting_down :: bool
  dropped :: "64 word"
  last_drop_report :: seconds

datatype queue_msg =
    Queue_initialized nat
  | Queue_destroyed
  | Queue_full_dropped "64 word"

text \<open>\<open>(i + 1) & (QUEUE_CAPACITY - 1)\<close>\<close>

definition next_slot :: "nat \<Rightarrow> nat" where
  "next_slot i = (i + 1) AND (QUEUE_CAPACITY - 1)"

definition zero_event :: knock_event_t where
  "zero_event = \<lparr>src_ip = 0, dst_port = 0\<rparr>"

definition pktqueue_init :: "pktqueue \<times> queue_msg logs" where
  "pktqueue_init =
     (\<lparr>ring = replicate QUEUE_CAPACITY zero_event, head = 0, tail = 0, count = 0,
       shutting_down = False, dropped = 0, last_drop_report = 0\<rparr>,
      [(LEVEL_DEBUG, Queue_initialized QUEUE_CAPACITY)])"

definition pktqueue_destroy :: "queue_msg logs" where
  "pktqueue_destroy = [(LEVEL_DEBUG, Queue_destroyed)]"

text \<open>\<open>now\<close> is the value \<open>time(NULL)\<close> returns in the drop branch; the integer is the C return
  value.\<close>

definition pktqueue_push ::
  "seconds \<Rightarrow> knock_event_t \<Rightarrow> pktqueue \<Rightarrow> int \<times> pktqueue \<times> queue_msg logs" where
  "pktqueue_push now event q =
     (if count q < QUEUE_CAPACITY
      then (0, q\<lparr>ring := (ring q)[head q := event], head := next_slot (head q), count := count q + 1\<rparr>, [])
      else (let q = q\<lparr>dropped := dropped q + 1\<rparr>
            in if now - last_drop_report q \<ge> DROP_REPORT_INTERVAL
               then (let to_report = dropped q;
                         q = q\<lparr>dropped := 0, last_drop_report := now\<rparr>
                     in (- 1, q, if to_report > 0 then [(LEVEL_WARN, Queue_full_dropped to_report)] else []))
               else (- 1, q, [])))"

text \<open>The dequeue that \<open>pktqueue_pop\<close> and \<open>pktqueue_wait\<close> share; \<open>None\<close> is the return value -1,
  with which \<open>*event\<close> is left alone.\<close>

definition pktqueue_pop :: "pktqueue \<Rightarrow> (knock_event_t \<times> pktqueue) option" where
  "pktqueue_pop q =
     (if count q > 0
      then Some (ring q ! tail q, q\<lparr>tail := next_slot (tail q), count := count q - 1\<rparr>)
      else None)"

text \<open>
  The wait loop.  Every element of \<open>wakes\<close> is one return of \<open>pthread_cond_timedwait\<close>: whether it
  returned \<open>ETIMEDOUT\<close>, and the queue as found when the lock was reacquired.  \<open>None\<close>: the thread
  is still blocked after those wake-ups.
\<close>

fun wait_loop :: "pktqueue \<Rightarrow> (bool \<times> pktqueue) list \<Rightarrow> pktqueue option" where
  "wait_loop q [] = (if count q = 0 \<and> \<not> shutting_down q then None else Some q)"
| "wait_loop q ((timedout, q') # wakes) =
     (if count q = 0 \<and> \<not> shutting_down q
      then (if timedout then Some q' else wait_loop q' wakes)
      else Some q)"

definition pktqueue_wait ::
  "pktqueue \<Rightarrow> (bool \<times> pktqueue) list \<Rightarrow> (knock_event_t option \<times> pktqueue) option" where
  "pktqueue_wait q wakes = (case wait_loop q wakes of
     None \<Rightarrow> None
   | Some q \<Rightarrow> Some (case pktqueue_pop q of None \<Rightarrow> (None, q) | Some (e, q') \<Rightarrow> (Some e, q')))"

definition pktqueue_shutdown :: "pktqueue \<Rightarrow> pktqueue" where
  "pktqueue_shutdown q = q\<lparr>shutting_down := True\<rparr>"

text \<open>\<open>clock = None\<close>: \<open>clock_gettime\<close> failed and \<open>time(NULL)\<close> stands in.  C division truncates.\<close>

definition deadline_from_now :: "(int \<times> int) option \<Rightarrow> seconds \<Rightarrow> int \<Rightarrow> int \<times> int" where
  "deadline_from_now clock now timeout_ms =
     (let (tv_sec, tv_nsec) = (case clock of Some t \<Rightarrow> t | None \<Rightarrow> (now, 0));
          tv_sec = tv_sec + timeout_ms sdiv 1000;
          tv_nsec = tv_nsec + (timeout_ms smod 1000) * 1000000
      in if tv_nsec \<ge> 1000000000 then (tv_sec + 1, tv_nsec - 1000000000) else (tv_sec, tv_nsec))"

section \<open>Invariant and contents\<close>

definition queue_inv :: "pktqueue \<Rightarrow> bool" where
  "queue_inv q \<longleftrightarrow> length (ring q) = QUEUE_CAPACITY \<and> tail q < QUEUE_CAPACITY \<and>
     count q \<le> QUEUE_CAPACITY \<and> head q = (tail q + count q) mod QUEUE_CAPACITY"

text \<open>The queued events, oldest first.\<close>

definition contents :: "pktqueue \<Rightarrow> knock_event_t list" where
  "contents q = map (\<lambda>i. ring q ! ((tail q + i) mod QUEUE_CAPACITY)) [0..<count q]"

section \<open>A bounded FIFO\<close>

datatype ('c, 'a) fifo_op = Push 'c 'a | Pop

datatype 'a fifo_answer = Pushed bool | Popped "'a option"

text \<open>Running a history of calls: what every call answered, and the final queue.\<close>

fun run_fifo ::
  "('c \<Rightarrow> 'a \<Rightarrow> 'q \<Rightarrow> bool \<times> 'q) \<Rightarrow> ('q \<Rightarrow> ('a \<times> 'q) option) \<Rightarrow>
   ('c, 'a) fifo_op list \<Rightarrow> 'q \<Rightarrow> 'a fifo_answer list \<times> 'q" where
  "run_fifo push pop [] q = ([], q)"
| "run_fifo push pop (Push t e # ops) q =
     (let (ok, q) = push t e q; (answers, q) = run_fifo push pop ops q in (Pushed ok # answers, q))"
| "run_fifo push pop (Pop # ops) q = (case pop q of
     None \<Rightarrow> (let (answers, q) = run_fifo push pop ops q in (Popped None # answers, q))
   | Some (e, q) \<Rightarrow> (let (answers, q) = run_fifo push pop ops q in (Popped (Some e) # answers, q)))"

text \<open>The events a history had accepted and delivered, read off its answers.\<close>

fun events_accepted :: "('c, 'a) fifo_op list \<Rightarrow> 'a fifo_answer list \<Rightarrow> 'a list" where
  "events_accepted (Push t e # ops) (Pushed ok # answers) = (if ok then e # events_accepted ops answers else events_accepted ops answers)"
| "events_accepted (_ # ops) (_ # answers) = events_accepted ops answers"
| "events_accepted _ _ = []"

fun events_delivered :: "'a fifo_answer list \<Rightarrow> 'a list" where
  "events_delivered (Popped (Some e) # answers) = e # events_delivered answers"
| "events_delivered (_ # answers) = events_delivered answers"
| "events_delivered [] = []"

text \<open>The reference: a list of at most \<open>cap\<close> events, the oldest first.\<close>

definition list_push :: "nat \<Rightarrow> 'c \<Rightarrow> 'a \<Rightarrow> 'a list \<Rightarrow> bool \<times> 'a list" where
  "list_push cap t e xs = (if length xs < cap then (True, xs @ [e]) else (False, xs))"

definition list_pop :: "'a list \<Rightarrow> ('a \<times> 'a list) option" where
  "list_pop xs = (case xs of [] \<Rightarrow> None | x # xs \<Rightarrow> Some (x, xs))"

locale bounded_fifo =
  fixes cap :: nat
    and empty :: 'q
    and push :: "'c \<Rightarrow> 'a \<Rightarrow> 'q \<Rightarrow> bool \<times> 'q"
    and pop :: "'q \<Rightarrow> ('a \<times> 'q) option"
    and items :: "'q \<Rightarrow> 'a list"
    and invar :: "'q \<Rightarrow> bool"
  assumes invar_empty: "invar empty"
    and items_empty: "items empty = []"
    and push_ok: "invar q \<Longrightarrow> length (items q) < cap \<Longrightarrow>
      \<exists>q'. push t e q = (True, q') \<and> invar q' \<and> items q' = items q @ [e]"
    and push_full: "invar q \<Longrightarrow> length (items q) = cap \<Longrightarrow>
      \<exists>q'. push t e q = (False, q') \<and> invar q' \<and> items q' = items q"
    and pop_none: "invar q \<Longrightarrow> items q = [] \<Longrightarrow> pop q = None"
    and pop_some: "invar q \<Longrightarrow> items q = x # xs \<Longrightarrow>
      \<exists>q'. pop q = Some (x, q') \<and> invar q' \<and> items q' = xs"
    and capacity: "invar q \<Longrightarrow> length (items q) \<le> cap"
begin

lemma push_cases:
  assumes "invar q"
  obtains (room) q' where "length (items q) < cap" "push t e q = (True, q')" "invar q'" "items q' = items q @ [e]"
  | (full) q' where "length (items q) = cap" "push t e q = (False, q')" "invar q'" "items q' = items q"
  using capacity [OF assms] push_ok [OF assms] push_full [OF assms]
  by (metis le_neq_implies_less)

lemma pop_cases:
  assumes "invar q"
  obtains (none) "items q = []" "pop q = None"
  | (some) x q' where "pop q = Some (x, q')" "invar q'" "items q = x # items q'"
  using pop_none [OF assms] pop_some [OF assms] by (metis neq_Nil_conv)

text \<open>Call by call the answers are those of the list, and the list is what the queue holds.\<close>

lemma run_fifo_list:
  "invar q \<Longrightarrow> run_fifo push pop ops q = (answers, q') \<Longrightarrow>
     run_fifo (list_push cap) list_pop ops (items q) = (answers, items q') \<and> invar q'"
proof (induction ops arbitrary: q answers)
  case Nil
  then show ?case by simp
next
  case (Cons op ops)
  show ?case
  proof (cases op)
    case (Push t e)
    show ?thesis
      using Cons.prems(1)
    proof (cases rule: push_cases [of q t e])
      case (room q1)
      with Cons.IH [of q1 "tl answers"] Cons.prems(2) Push show ?thesis
        by (auto simp: list_push_def split: prod.splits)
    next
      case (full q1)
      with Cons.IH [of q1 "tl answers"] Cons.prems(2) Push show ?thesis
        by (auto simp: list_push_def split: prod.splits)
    qed
  next
    case Pop
    show ?thesis
      using Cons.prems(1)
    proof (cases rule: pop_cases)
      case none
      with Cons.IH [OF Cons.prems(1), of "tl answers"] Cons.prems(2) Pop show ?thesis
        by (auto simp: list_pop_def split: prod.splits)
    next
      case (some x q1)
      with Cons.IH [of q1 "tl answers"] Cons.prems(2) Pop show ?thesis
        by (auto simp: list_pop_def split: prod.splits)
    qed
  qed
qed

lemma run_fifo_order:
  "invar q \<Longrightarrow> run_fifo push pop ops q = (answers, q') \<Longrightarrow>
     items q @ events_accepted ops answers = events_delivered answers @ items q'"
proof (induction ops arbitrary: q answers)
  case Nil
  then show ?case by simp
next
  case (Cons op ops)
  show ?case
  proof (cases op)
    case (Push t e)
    show ?thesis
      using Cons.prems(1)
    proof (cases rule: push_cases [of q t e])
      case (room q1)
      with Cons.IH [of q1 "tl answers"] Cons.prems(2) Push show ?thesis by (auto split: prod.splits)
    next
      case (full q1)
      with Cons.IH [of q1 "tl answers"] Cons.prems(2) Push show ?thesis by (auto split: prod.splits)
    qed
  next
    case Pop
    show ?thesis
      using Cons.prems(1)
    proof (cases rule: pop_cases)
      case none
      with Cons.IH [OF Cons.prems(1), of "tl answers"] Cons.prems(2) Pop show ?thesis
        by (auto split: prod.splits)
    next
      case (some x q1)
      with Cons.IH [of q1 "tl answers"] Cons.prems(2) Pop show ?thesis by (auto split: prod.splits)
    qed
  qed
qed

lemma run_fifo_from_empty:
  assumes "run_fifo push pop ops empty = (answers, q')"
  shows "run_fifo (list_push cap) list_pop ops [] = (answers, items q')"
    and "events_accepted ops answers = events_delivered answers @ items q'"
    and "length (items q') \<le> cap"
  using run_fifo_list [OF invar_empty assms] run_fifo_order [OF invar_empty assms] capacity
  by (simp_all add: items_empty)

end

section \<open>The ring is a bounded FIFO\<close>

lemma next_slot_mod: "next_slot i = (i + 1) mod QUEUE_CAPACITY"
proof -
  have "(i + 1) AND (2 ^ 8 - 1) = take_bit 8 (i + 1)"
    by (simp only: take_bit_eq_mask mask_eq_exp_minus_1)
  then show ?thesis by (simp add: next_slot_def QUEUE_CAPACITY_def take_bit_eq_mod)
qed

lemma mod_add_neq:
  assumes "i < c" "c < n"
  shows "(t + c) mod n \<noteq> (t + i) mod (n :: nat)"
proof
  assume "(t + c) mod n = (t + i) mod n"
  then have "n dvd (t + c) - (t + i)" using assms mod_eq_dvd_iff_nat [of "t + i" "t + c" n] by simp
  with assms show False using dvd_imp_le [of n "c - i"] by simp
qed

lemma pktqueue_init_inv: "queue_inv (fst pktqueue_init)" "contents (fst pktqueue_init) = []"
  by (simp_all add: pktqueue_init_def queue_inv_def contents_def QUEUE_CAPACITY_def)

lemma length_contents [simp]: "length (contents q) = count q"
  by (simp add: contents_def)

lemma pktqueue_push_room:
  assumes inv: "queue_inv q" and room: "count q < QUEUE_CAPACITY"
  shows "\<exists>q'. pktqueue_push now e q = (0, q', []) \<and> queue_inv q' \<and> contents q' = contents q @ [e]
           \<and> shutting_down q' = shutting_down q \<and> dropped q' = dropped q"
proof -
  let ?q = "q\<lparr>ring := (ring q)[head q := e], head := next_slot (head q), count := count q + 1\<rparr>"
  have h: "head q = (tail q + count q) mod QUEUE_CAPACITY" and len: "length (ring q) = QUEUE_CAPACITY"
    using inv by (auto simp: queue_inv_def)
  have "queue_inv ?q"
    using inv room by (simp add: queue_inv_def next_slot_mod h mod_simps ac_simps)
  moreover have "contents ?q = contents q @ [e]"
  proof -
    have "head q \<noteq> (tail q + i) mod QUEUE_CAPACITY" if "i < count q" for i
      unfolding h by (rule mod_add_neq [OF that room])
    then have "map (\<lambda>i. (ring q)[head q := e] ! ((tail q + i) mod QUEUE_CAPACITY)) [0..<count q]
        = map (\<lambda>i. ring q ! ((tail q + i) mod QUEUE_CAPACITY)) [0..<count q]"
      by auto
    moreover have "(ring q)[head q := e] ! ((tail q + count q) mod QUEUE_CAPACITY) = e"
      using len by (simp add: h QUEUE_CAPACITY_def)
    ultimately show ?thesis by (simp add: contents_def)
  qed
  ultimately show ?thesis using room by (simp add: pktqueue_push_def)
qed

lemma pktqueue_push_full:
  assumes "count q = QUEUE_CAPACITY"
  shows "\<exists>q' ls. pktqueue_push now e q = (- 1, q', ls) \<and>
     q' = q\<lparr>dropped := dropped q', last_drop_report := last_drop_report q'\<rparr>"
  using assms by (simp add: pktqueue_push_def Let_def)

lemma queue_inv_frame [simp]:
  "queue_inv (q\<lparr>dropped := d, last_drop_report := t\<rparr>) = queue_inv q"
  "contents (q\<lparr>dropped := d, last_drop_report := t\<rparr>) = contents q"
  "queue_inv (q\<lparr>shutting_down := b\<rparr>) = queue_inv q"
  "contents (q\<lparr>shutting_down := b\<rparr>) = contents q"
  by (simp_all add: queue_inv_def contents_def)

lemma pktqueue_pop_some:
  assumes inv: "queue_inv q" and ne: "0 < count q"
  shows "\<exists>q'. pktqueue_pop q = Some (hd (contents q), q') \<and> queue_inv q' \<and> contents q' = tl (contents q)
           \<and> shutting_down q' = shutting_down q"
proof -
  let ?q = "q\<lparr>tail := next_slot (tail q), count := count q - 1\<rparr>"
  have t: "tail q < QUEUE_CAPACITY" using inv by (simp add: queue_inv_def)
  obtain n where n: "count q = Suc n" using ne by (cases "count q") auto
  have "queue_inv ?q"
    using inv by (auto simp: queue_inv_def next_slot_mod n mod_simps ac_simps)
  moreover have "contents q = ring q ! tail q # contents ?q"
  proof -
    have "[0..<Suc n] = 0 # map Suc [0..<n]" by (simp add: map_Suc_upt upt_conv_Cons)
    then show ?thesis
      using t by (simp add: contents_def n next_slot_mod mod_simps del: upt_Suc)
  qed
  ultimately show ?thesis using ne by (simp add: pktqueue_pop_def)
qed

lemma contents_Nil_iff: "contents q = [] \<longleftrightarrow> count q = 0"
  by (simp add: contents_def)

text \<open>\<open>pktqueue_push\<close> as the contract sees it: the time is the calling context, the answer is
  whether the return value was 0.\<close>

definition push_call :: "seconds \<Rightarrow> knock_event_t \<Rightarrow> pktqueue \<Rightarrow> bool \<times> pktqueue" where
  "push_call now e q = (case pktqueue_push now e q of (r, q', _) \<Rightarrow> (r = 0, q'))"

interpretation knock_queue: bounded_fifo QUEUE_CAPACITY "fst pktqueue_init" push_call pktqueue_pop contents queue_inv
proof unfold_locales
  fix q now e
  assume inv: "queue_inv q" and "length (contents q) < QUEUE_CAPACITY"
  then show "\<exists>q'. push_call now e q = (True, q') \<and> queue_inv q' \<and> contents q' = contents q @ [e]"
    using pktqueue_push_room [of q now e] by (auto simp: push_call_def)
next
  fix q now e
  assume inv: "queue_inv q" and "length (contents q) = QUEUE_CAPACITY"
  then obtain q' ls where "pktqueue_push now e q = (- 1, q', ls)"
    and q': "q' = q\<lparr>dropped := dropped q', last_drop_report := last_drop_report q'\<rparr>"
    using pktqueue_push_full [of q now e] by auto
  moreover have "queue_inv q'" "contents q' = contents q" using inv by (subst q', simp)+
  ultimately show "\<exists>q'. push_call now e q = (False, q') \<and> queue_inv q' \<and> contents q' = contents q"
    by (simp add: push_call_def)
next
  fix q assume "queue_inv q" "contents q = []"
  then show "pktqueue_pop q = None" by (simp add: contents_Nil_iff pktqueue_pop_def)
next
  fix q x xs assume inv: "queue_inv q" and c: "contents q = x # xs"
  then have "0 < count q" using length_contents [of q] by simp
  from pktqueue_pop_some [OF inv this] show "\<exists>q'. pktqueue_pop q = Some (x, q') \<and> queue_inv q' \<and> contents q' = xs"
    by (auto simp: c)
qed (use pktqueue_init_inv in \<open>auto simp: queue_inv_def\<close>)

lemma pop_result:
  assumes "queue_inv q" "pktqueue_pop q = Some (e, q')"
  shows "queue_inv q' \<and> contents q = e # contents q'"
  using knock_queue.pop_cases [OF assms(1)] assms(2) by auto

lemma push_result:
  assumes "queue_inv q" "pktqueue_push now e q = (r, q', ls)"
  shows "queue_inv q' \<and> contents q' = contents q @ (if r = 0 then [e] else [])"
  using knock_queue.push_cases [OF assms(1), of now e] assms(2) by (auto simp: push_call_def)

lemma wait_result:
  assumes "pktqueue_wait q (if timedout then [(True, q)] else []) = Some (eo, q')"
  shows "eo = None \<and> q' = q \<and> pktqueue_pop q = None \<or> (\<exists>e. eo = Some e \<and> pktqueue_pop q = Some (e, q'))"
  using assms by (auto simp: pktqueue_wait_def split: option.splits if_splits)

section \<open>Waiting\<close>

lemma pktqueue_pop_None_iff: "pktqueue_pop q = None \<longleftrightarrow> count q = 0"
  by (simp add: pktqueue_pop_def)

lemma wait_loop_SomeD:
  "wait_loop q wakes = Some q' \<Longrightarrow>
     count q' \<noteq> 0 \<or> shutting_down q' \<or> (True, q') \<in> set wakes"
  by (induction q wakes rule: wait_loop.induct) (auto split: if_splits)

lemma wait_loop_ready: "count q \<noteq> 0 \<or> shutting_down q \<Longrightarrow> wait_loop q wakes = Some q"
  by (cases wakes rule: list.exhaust) (auto split: if_splits)

section \<open>Dropped events\<close>

text \<open>Pushing a burst of events at given times: how many were refused, and the reports logged
  (time and number).\<close>

fun push_burst ::
  "(seconds \<times> knock_event_t) list \<Rightarrow> pktqueue \<Rightarrow> nat \<times> (seconds \<times> 64 word) list \<times> pktqueue" where
  "push_burst [] q = (0, [], q)"
| "push_burst ((now, e) # es) q =
     (let (r, q, ls) = pktqueue_push now e q; (n, rs, q) = push_burst es q
      in ((if r = 0 then 0 else 1) + n, [(now, k). (_, Queue_full_dropped k) \<leftarrow> ls] @ rs, q))"

lemma push_drop_accounting:
  assumes "pktqueue_push now e q = (r, q', ls)" and "r \<noteq> 0"
  shows "ls = [] \<and> dropped q' = dropped q + 1 \<and> last_drop_report q' = last_drop_report q \<or>
         (ls = [(LEVEL_WARN, Queue_full_dropped (dropped q + 1))] \<or> ls = [] \<and> dropped q + 1 = 0) \<and>
         dropped q' = 0 \<and> last_drop_report q' = now \<and>
         now - last_drop_report q \<ge> DROP_REPORT_INTERVAL"
  using assms by (auto simp: pktqueue_push_def Let_def word_neq_0_conv split: if_splits)

lemma push_room_quiet:
  assumes "pktqueue_push now e q = (0, q', ls)"
  shows "ls = [] \<and> dropped q' = dropped q \<and> last_drop_report q' = last_drop_report q"
  using assms by (auto simp: pktqueue_push_def Let_def split: if_splits)

lemma push_burst_accounting:
  "push_burst es q = (n, rs, q') \<Longrightarrow> sum_list (map snd rs) + dropped q' = dropped q + of_nat n"
proof (induction es arbitrary: q n rs q')
  case Nil
  then show ?case by simp
next
  case (Cons te es)
  obtain now e where te: "te = (now, e)" by fastforce
  obtain r q1 ls where p: "pktqueue_push now e q = (r, q1, ls)" by (metis prod_cases3)
  obtain m rs1 q2 where b: "push_burst es q1 = (m, rs1, q2)" by (metis prod_cases3)
  from Cons.prems te p b have eq: "n = (if r = 0 then 0 else 1) + m"
    "rs = [(now, k). (_, Queue_full_dropped k) \<leftarrow> ls] @ rs1" "q' = q2" by auto
  have IH: "sum_list (map snd rs1) + dropped q2 = dropped q1 + of_nat m" by (rule Cons.IH [OF b])
  show ?case
  proof (cases "r = 0")
    case True
    with push_room_quiet p have "ls = []" "dropped q1 = dropped q" by blast+
    with True IH eq show ?thesis by simp
  next
    case False
    from push_drop_accounting [OF p False] IH show ?thesis
      using False eq by (auto simp: algebra_simps)
  qed
qed

text \<open>Two reports are at least the interval apart.\<close>

definition spaced :: "seconds list \<Rightarrow> bool" where
  "spaced ts \<longleftrightarrow> successively (\<lambda>a b. b - a \<ge> DROP_REPORT_INTERVAL) ts"

lemma spaced_simps [simp]:
  "spaced []" "spaced [t]"
  "spaced (t # u # ts) \<longleftrightarrow> u - t \<ge> DROP_REPORT_INTERVAL \<and> spaced (u # ts)"
  by (simp_all add: spaced_def)

lemma spaced_skip: "spaced (u # ts) \<Longrightarrow> u - t \<ge> DROP_REPORT_INTERVAL \<Longrightarrow> spaced (t # ts)"
  by (cases ts) (auto simp: DROP_REPORT_INTERVAL_def)

lemma push_burst_spaced:
  "push_burst es q = (n, rs, q') \<Longrightarrow> spaced (last_drop_report q # map fst rs)"
proof (induction es arbitrary: q n rs q')
  case Nil
  then show ?case by simp
next
  case (Cons te es)
  obtain now e where te: "te = (now, e)" by fastforce
  obtain r q1 ls where p: "pktqueue_push now e q = (r, q1, ls)" by (metis prod_cases3)
  obtain m rs1 q2 where b: "push_burst es q1 = (m, rs1, q2)" by (metis prod_cases3)
  from Cons.prems te p b have rs: "rs = [(now, k). (_, Queue_full_dropped k) \<leftarrow> ls] @ rs1" by auto
  have IH: "spaced (last_drop_report q1 # map fst rs1)" by (rule Cons.IH [OF b])
  show ?case
  proof (cases "r = 0")
    case True
    with push_room_quiet p have "ls = []" "last_drop_report q1 = last_drop_report q" by blast+
    with IH rs show ?thesis by simp
  next
    case False
    from push_drop_accounting [OF p False] IH spaced_skip show ?thesis
      by (auto simp: rs)
  qed
qed

section \<open>Properties\<close>

text \<open>
  C23.  The queue is a bounded FIFO.  Take any history of pushes and pops, starting from
  \<open>pktqueue_init\<close>.  Every call answers what the same call on a list of at most 256 events
  answers - a push is accepted exactly when fewer than 256 are waiting, a pop delivers the oldest
  event and fails exactly when none is waiting - and the ring ends up holding that list.  So the
  events delivered followed by those still queued are exactly the events accepted, in order.
\<close>

theorem queue_fifo:
  "case run_fifo push_call pktqueue_pop ops (fst pktqueue_init) of (answers, q) \<Rightarrow>
     run_fifo (list_push 256) list_pop ops [] = (answers, contents q) \<and>
     events_accepted ops answers = events_delivered answers @ contents q \<and> length (contents q) \<le> 256"
proof -
  obtain answers q where r: "run_fifo push_call pktqueue_pop ops (fst pktqueue_init) = (answers, q)"
    by fastforce
  from knock_queue.run_fifo_from_empty [OF r] show ?thesis unfolding r by (simp add: QUEUE_CAPACITY_def)
qed

text \<open>
  What one push does: with room it appends the event and returns 0 without logging; on a
  full queue it returns -1 and leaves the queued events alone.
\<close>

theorem pktqueue_push_refines:
  assumes "queue_inv q" and "pktqueue_push now e q = (r, q', ls)"
  shows "queue_inv q' \<and> shutting_down q' = shutting_down q \<and>
         (if length (contents q) < 256 then r = 0 \<and> contents q' = contents q @ [e] \<and> ls = []
          else r = - 1 \<and> contents q' = contents q)"
proof (cases "count q < QUEUE_CAPACITY")
  case True
  with pktqueue_push_room [OF assms(1) True, of now e] assms(2) show ?thesis
    by (auto simp: QUEUE_CAPACITY_def)
next
  case False
  with assms(1) have full: "count q = QUEUE_CAPACITY" by (simp add: queue_inv_def)
  from pktqueue_push_full [OF full, of now e] assms(2) have r: "r = - 1"
    and q': "q' = q\<lparr>dropped := dropped q', last_drop_report := last_drop_report q'\<rparr>" by auto
  have "queue_inv q'" "contents q' = contents q" "shutting_down q' = shutting_down q"
    using assms(1) by (subst q', simp)+
  with r full show ?thesis by (simp add: QUEUE_CAPACITY_def)
qed

theorem pktqueue_push_refines_witness:
  "contents (fst (snd (pktqueue_push 0 \<lparr>src_ip = 1, dst_port = 7000\<rparr> (fst pktqueue_init))))
     = [\<lparr>src_ip = 1, dst_port = 7000\<rparr>]"
proof -
  let ?e = "\<lparr>src_ip = 1, dst_port = 7000\<rparr>"
  obtain r q' ls where p: "pktqueue_push 0 ?e (fst pktqueue_init) = (r, q', ls)" by (metis prod_cases3)
  from pktqueue_push_refines [OF pktqueue_init_inv(1) p] p show ?thesis
    using pktqueue_init_inv(2) length_contents [of "fst pktqueue_init"] by simp
qed

text \<open>
  After \<open>pktqueue_shutdown\<close> no waiter blocks any more: \<open>pktqueue_wait\<close> returns at once,
  with the oldest event while there is one and with -1 once the queue is drained.
\<close>

theorem wait_after_shutdown:
  assumes "queue_inv q"
  shows "\<exists>q'. pktqueue_wait (pktqueue_shutdown q) wakes =
           Some (if contents q = [] then None else Some (hd (contents q)), q') \<and>
         queue_inv q' \<and> contents q' = tl (contents q) \<and> shutting_down q'"
proof -
  let ?s = "pktqueue_shutdown q"
  have s: "queue_inv ?s" "contents ?s = contents q" "shutting_down ?s"
    using assms by (simp_all add: pktqueue_shutdown_def)
  have w: "wait_loop ?s wakes = Some ?s" by (rule wait_loop_ready) (simp add: s)
  show ?thesis
  proof (cases "contents q = []")
    case True
    then have "pktqueue_pop ?s = None" using s by (metis contents_Nil_iff pktqueue_pop_None_iff)
    with True s w show ?thesis by (simp add: pktqueue_wait_def)
  next
    case False
    then have "0 < count ?s" using s by (metis contents_Nil_iff gr0I)
    from pktqueue_pop_some [OF s(1) this] False s w show ?thesis by (auto simp: pktqueue_wait_def)
  qed
qed

theorem wait_after_shutdown_witness:
  "\<exists>q'. pktqueue_wait (pktqueue_shutdown (fst pktqueue_init)) [] = Some (None, q')"
  using wait_after_shutdown [OF pktqueue_init_inv(1), of "[]"] pktqueue_init_inv(2) by auto

text \<open>
  \<open>pktqueue_wait\<close> returns -1 only for the reasons the header gives: the queue is empty and
  either it is shutting down or a wait timed out.
\<close>

theorem wait_gives_up_only_when_empty:
  assumes "pktqueue_wait q wakes = Some (None, q')"
  shows "contents q' = [] \<and> (shutting_down q' \<or> (True, q') \<in> set wakes)"
proof -
  from assms obtain q1 where w: "wait_loop q wakes = Some q1"
    by (auto simp: pktqueue_wait_def split: option.splits)
  with assms have "pktqueue_pop q1 = None" and [simp]: "q1 = q'"
    by (auto simp: pktqueue_wait_def split: option.splits)
  then have "count q' = 0" by (simp add: pktqueue_pop_None_iff)
  with wait_loop_SomeD [OF w] show ?thesis by (simp add: contents_Nil_iff)
qed

theorem wait_gives_up_only_when_empty_witness:
  "pktqueue_wait (fst pktqueue_init) [(True, fst pktqueue_init)] = Some (None, fst pktqueue_init) \<and>
   contents (fst pktqueue_init) = []"
proof -
  have r: "pktqueue_wait (fst pktqueue_init) [(True, fst pktqueue_init)] = Some (None, fst pktqueue_init)"
    by (simp add: pktqueue_wait_def pktqueue_init_def pktqueue_pop_def)
  from wait_gives_up_only_when_empty [OF r] r show ?thesis by simp
qed

text \<open>
  C36.  Flood accounting: over any burst of pushes the numbers in the reports plus the events
  not yet reported account for every refused push (modulo \<open>2\<^sup>6\<^sup>4\<close>), and two reports are never
  less than 10 seconds apart, so a flood cannot turn the log into an amplifier.
\<close>

theorem drop_reports_rate_limited:
  "case push_burst es q of (refused, reports, q') \<Rightarrow>
     sum_list (map snd reports) + dropped q' = dropped q + of_nat refused \<and>
     spaced (last_drop_report q # map fst reports)"
proof -
  obtain n rs q' where b: "push_burst es q = (n, rs, q')" by (metis prod_cases3)
  from push_burst_accounting [OF b] push_burst_spaced [OF b] show ?thesis by (simp add: b)
qed

text \<open>
  The absolute deadline handed to \<open>pthread_cond_timedwait\<close> is normalised
  (\<open>0 \<le> tv_nsec < 10\<^sup>9\<close>) and lies exactly \<open>timeout_ms\<close> milliseconds after the clock reading.
\<close>

theorem deadline_exact:
  assumes "0 \<le> timeout_ms" and "0 \<le> ns" and "ns < 1000000000"
    and "deadline_from_now (Some (s, ns)) now timeout_ms = (ds, dns)"
  shows "0 \<le> dns \<and> dns < 1000000000 \<and>
         ds * 1000000000 + dns = s * 1000000000 + ns + timeout_ms * 1000000"
proof -
  have d: "timeout_ms sdiv 1000 = timeout_ms div 1000" "timeout_ms smod 1000 = timeout_ms mod 1000"
    using assms(1) by (simp_all add: signed_divide_int_def signed_modulo_int_def sgn_if mod_mult_div_eq
        minus_div_mult_eq_mod minus_mult_div_eq_mod [symmetric])
  have "timeout_ms div 1000 * 1000000000 + timeout_ms mod 1000 * 1000000 = timeout_ms * 1000000"
    using mult_div_mod_eq [of 1000 timeout_ms] by linarith
  moreover have "0 \<le> timeout_ms mod 1000" "timeout_ms mod 1000 < 1000" by simp_all
  ultimately show ?thesis
    using assms by (auto simp: deadline_from_now_def d Let_def split: if_splits)
qed

theorem deadline_exact_witness:
  "deadline_from_now (Some (5, 900000000)) 0 200 = (6, 100000000) \<and>
   (6 :: int) * 1000000000 + 100000000 = 5 * 1000000000 + 900000000 + 200 * 1000000"
proof -
  have r: "deadline_from_now (Some (5, 900000000)) 0 200 = (6, 100000000)" by code_simp
  from deadline_exact [OF _ _ _ r] r show ?thesis by simp
qed

end
