(* ===== verification/Queue_Monitor.thy ===== *)
theory Queue_Monitor
  imports Packet_Queue
begin

text \<open>
  \<open>src/packet_queue.c\<close> statement by statement, with its mutex and condition variable.  The theory
  \<open>Packet_Queue\<close> takes each function as one atomic operation; here every statement of a critical
  section is a step of its own that the other thread may follow with one of its steps, and
  \<open>pthread_cond_timedwait\<close> releases the mutex, sleeps and takes it again.  The theorems justify the
  atomic view: the statement-level machine is simulated by the atomic one, and a sleeping thread
  is never left behind with something in the queue.
\<close>

section \<open>Calls and program counters\<close>

text \<open>The capture thread pushes and shuts down; the main thread waits, pops and shuts down.\<close>

datatype thread = Capture_thread | Main_thread

datatype queue_call = Call_push knock_event_t | Call_pop | Call_wait | Call_shutdown

datatype queue_ret = Ret_push int "queue_msg logs" | Ret_event "knock_event_t option" | Ret_void

fun may_call :: "thread \<Rightarrow> queue_call \<Rightarrow> bool" where
  "may_call Capture_thread (Call_push e) \<longleftrightarrow> True"
| "may_call Main_thread Call_wait \<longleftrightarrow> True"
| "may_call Main_thread Call_pop \<longleftrightarrow> True"
| "may_call t Call_shutdown \<longleftrightarrow> True"
| "may_call _ _ \<longleftrightarrow> False"

text \<open>The statement a thread is about to execute, with the values of its local variables.  \<open>Sleeping\<close>
  is inside \<open>pthread_cond_timedwait\<close>, \<open>Relock\<close> is there too, woken and about to take the mutex
  again; the flag says that the wait timed out.\<close>

datatype pc =
    Outside
  | Lock queue_call
  | Push_test knock_event_t
  | Push_store knock_event_t
  | Push_head knock_event_t
  | Push_count knock_event_t
  | Push_signal knock_event_t
  | Drop_time knock_event_t
  | Drop_count knock_event_t seconds
  | Drop_check knock_event_t seconds
  | Drop_report knock_event_t seconds
  | Drop_zero knock_event_t seconds "64 word"
  | Drop_stamp knock_event_t seconds "64 word"
  | Wait_test
  | Sleeping
  | Relock bool
  | Take_test queue_call bool
  | Take_load queue_call bool
  | Take_tail queue_call bool knock_event_t
  | Take_count queue_call bool knock_event_t
  | Shut_set
  | Shut_broadcast
  | Unlock_push knock_event_t seconds int "64 word"
  | Unlock_take queue_call bool "knock_event_t option"
  | Unlock_shutdown
  | Return queue_ret

text \<open>\<open>snapshot\<close> is not in the program: the queue as it was when the mutex was last taken.\<close>

record monitor =
  mem :: pktqueue
  owner :: "thread option"
  pcs :: "thread \<Rightarrow> pc"
  snapshot :: pktqueue

datatype env_input = No_input | Invoke queue_call | Clock seconds | Timeout | Spurious_wake

section \<open>The steps\<close>

fun first_statement :: "queue_call \<Rightarrow> pc" where
  "first_statement (Call_push e) = Push_test e"
| "first_statement Call_pop = Take_test Call_pop False"
| "first_statement Call_wait = Wait_test"
| "first_statement Call_shutdown = Shut_set"

definition goto :: "thread \<Rightarrow> pc \<Rightarrow> monitor \<Rightarrow> monitor" where
  "goto t p m = m\<lparr>pcs := (pcs m)(t := p)\<rparr>"

definition lock_mutex :: "thread \<Rightarrow> pc \<Rightarrow> monitor \<Rightarrow> monitor option" where
  "lock_mutex t p m =
     (if owner m = None then Some (goto t p (m\<lparr>owner := Some t, snapshot := mem m\<rparr>)) else None)"

definition unlock_mutex :: "monitor \<Rightarrow> monitor" where
  "unlock_mutex m = m\<lparr>owner := None\<rparr>"

text \<open>\<open>pthread_cond_signal\<close> unblocks at least one sleeping thread, \<open>pthread_cond_broadcast\<close> all of
  them.  Only one thread ever sleeps, so both unblock whoever does.\<close>

definition wake_sleepers :: "monitor \<Rightarrow> monitor" where
  "wake_sleepers m = m\<lparr>pcs := (\<lambda>t. if pcs m t = Sleeping then Relock False else pcs m t)\<rparr>"

definition write_mem :: "(pktqueue \<Rightarrow> pktqueue) \<Rightarrow> monitor \<Rightarrow> monitor" where
  "write_mem f m = m\<lparr>mem := f (mem m)\<rparr>"

definition mon_step :: "env_input \<Rightarrow> thread \<Rightarrow> monitor \<Rightarrow> monitor option" where
  "mon_step inp t m = (case pcs m t of
     Outside \<Rightarrow> (case inp of
       Invoke c \<Rightarrow> if may_call t c then Some (goto t (Lock c) m) else None
     | _ \<Rightarrow> None)
   | Lock c \<Rightarrow> lock_mutex t (first_statement c) m
   | Push_test e \<Rightarrow> Some (goto t (if count (mem m) < QUEUE_CAPACITY then Push_store e else Drop_time e) m)
   | Push_store e \<Rightarrow> Some (goto t (Push_head e) (write_mem (\<lambda>q. q\<lparr>ring := (ring q)[head q := e]\<rparr>) m))
   | Push_head e \<Rightarrow> Some (goto t (Push_count e) (write_mem (\<lambda>q. q\<lparr>head := next_slot (head q)\<rparr>) m))
   | Push_count e \<Rightarrow> Some (goto t (Push_signal e) (write_mem (\<lambda>q. q\<lparr>count := count q + 1\<rparr>) m))
   | Push_signal e \<Rightarrow> Some (goto t (Unlock_push e 0 0 0) (wake_sleepers m))
   | Drop_time e \<Rightarrow> (case inp of Clock now \<Rightarrow> Some (goto t (Drop_count e now) m) | _ \<Rightarrow> None)
   | Drop_count e now \<Rightarrow> Some (goto t (Drop_check e now) (write_mem (\<lambda>q. q\<lparr>dropped := dropped q + 1\<rparr>) m))
   | Drop_check e now \<Rightarrow>
       Some (goto t (if now - last_drop_report (mem m) \<ge> DROP_REPORT_INTERVAL
                     then Drop_report e now else Unlock_push e now (- 1) 0) m)
   | Drop_report e now \<Rightarrow> Some (goto t (Drop_zero e now (dropped (mem m))) m)
   | Drop_zero e now n \<Rightarrow> Some (goto t (Drop_stamp e now n) (write_mem (\<lambda>q. q\<lparr>dropped := 0\<rparr>) m))
   | Drop_stamp e now n \<Rightarrow>
       Some (goto t (Unlock_push e now (- 1) n) (write_mem (\<lambda>q. q\<lparr>last_drop_report := now\<rparr>) m))
   | Wait_test \<Rightarrow>
       Some (if count (mem m) = 0 \<and> \<not> shutting_down (mem m)
             then goto t Sleeping (unlock_mutex m) else goto t (Take_test Call_wait False) m)
   | Sleeping \<Rightarrow> (case inp of
       Timeout \<Rightarrow> Some (goto t (Relock True) m)
     | Spurious_wake \<Rightarrow> Some (goto t (Relock False) m)
     | _ \<Rightarrow> None)
   | Relock timedout \<Rightarrow> lock_mutex t (if timedout then Take_test Call_wait True else Wait_test) m
   | Take_test c b \<Rightarrow> Some (goto t (if count (mem m) > 0 then Take_load c b else Unlock_take c b None) m)
   | Take_load c b \<Rightarrow> Some (goto t (Take_tail c b (ring (mem m) ! tail (mem m))) m)
   | Take_tail c b e \<Rightarrow> Some (goto t (Take_count c b e) (write_mem (\<lambda>q. q\<lparr>tail := next_slot (tail q)\<rparr>) m))
   | Take_count c b e \<Rightarrow> Some (goto t (Unlock_take c b (Some e)) (write_mem (\<lambda>q. q\<lparr>count := count q - 1\<rparr>) m))
   | Shut_set \<Rightarrow> Some (goto t Shut_broadcast (write_mem (\<lambda>q. q\<lparr>shutting_down := True\<rparr>) m))
   | Shut_broadcast \<Rightarrow> Some (goto t Unlock_shutdown (wake_sleepers m))
   | Unlock_push e now r n \<Rightarrow>
       Some (goto t (Return (Ret_push r (if n > 0 then [(LEVEL_WARN, Queue_full_dropped n)] else []))) (unlock_mutex m))
   | Unlock_take c b r \<Rightarrow> Some (goto t (Return (Ret_event r)) (unlock_mutex m))
   | Unlock_shutdown \<Rightarrow> Some (goto t (Return Ret_void) (unlock_mutex m))
   | Return r \<Rightarrow> Some (goto t Outside m))"

definition monitor_init :: monitor where
  "monitor_init = \<lparr>mem = fst pktqueue_init, owner = None, pcs = (\<lambda>_. Outside), snapshot = fst pktqueue_init\<rparr>"

inductive mon_move :: "monitor \<Rightarrow> monitor \<Rightarrow> bool" where
  move: "mon_step inp t m = Some m' \<Longrightarrow> mon_move m m'"

text \<open>A schedule: who steps next, with which input.\<close>

fun mon_exec :: "(env_input \<times> thread) list \<Rightarrow> monitor \<Rightarrow> monitor option" where
  "mon_exec [] m = Some m"
| "mon_exec ((inp, t) # sch) m = (case mon_step inp t m of None \<Rightarrow> None | Some m' \<Rightarrow> mon_exec sch m')"

section \<open>The atomic machine\<close>

text \<open>A thread is outside, in a call, or back with a result; the effect of a call is one step.\<close>

datatype apc = A_out | A_in queue_call | A_back queue_ret

record atomic =
  aqueue :: pktqueue
  apcs :: "thread \<Rightarrow> apc"

fun queue_effect :: "queue_call \<Rightarrow> seconds \<Rightarrow> bool \<Rightarrow> pktqueue \<Rightarrow> (queue_ret \<times> pktqueue) option" where
  "queue_effect (Call_push e) now timedout q = (case pktqueue_push now e q of (r, q', ls) \<Rightarrow> Some (Ret_push r ls, q'))"
| "queue_effect Call_pop now timedout q = Some (case pktqueue_pop q of
     None \<Rightarrow> (Ret_event None, q) | Some (e, q') \<Rightarrow> (Ret_event (Some e), q'))"
| "queue_effect Call_wait now timedout q =
     map_option (\<lambda>(eo, q'). (Ret_event eo, q')) (pktqueue_wait q (if timedout then [(True, q)] else []))"
| "queue_effect Call_shutdown now timedout q = Some (Ret_void, pktqueue_shutdown q)"

inductive atomic_step :: "atomic \<Rightarrow> atomic \<Rightarrow> bool" where
  invoke: "apcs a t = A_out \<Longrightarrow> may_call t c \<Longrightarrow> atomic_step a (a\<lparr>apcs := (apcs a)(t := A_in c)\<rparr>)"
| effect: "apcs a t = A_in c \<Longrightarrow> queue_effect c now timedout (aqueue a) = Some (r, q) \<Longrightarrow>
    atomic_step a (a\<lparr>aqueue := q, apcs := (apcs a)(t := A_back r)\<rparr>)"
| return: "apcs a t = A_back r \<Longrightarrow> atomic_step a (a\<lparr>apcs := (apcs a)(t := A_out)\<rparr>)"

definition atomic_init :: atomic where
  "atomic_init = \<lparr>aqueue = fst pktqueue_init, apcs = (\<lambda>_. A_out)\<rparr>"

fun pc_call :: "pc \<Rightarrow> apc" where
  "pc_call Outside = A_out"
| "pc_call (Lock c) = A_in c"
| "pc_call (Push_test e) = A_in (Call_push e)"
| "pc_call (Push_store e) = A_in (Call_push e)"
| "pc_call (Push_head e) = A_in (Call_push e)"
| "pc_call (Push_count e) = A_in (Call_push e)"
| "pc_call (Push_signal e) = A_in (Call_push e)"
| "pc_call (Drop_time e) = A_in (Call_push e)"
| "pc_call (Drop_count e now) = A_in (Call_push e)"
| "pc_call (Drop_check e now) = A_in (Call_push e)"
| "pc_call (Drop_report e now) = A_in (Call_push e)"
| "pc_call (Drop_zero e now n) = A_in (Call_push e)"
| "pc_call (Drop_stamp e now n) = A_in (Call_push e)"
| "pc_call (Unlock_push e now r n) = A_in (Call_push e)"
| "pc_call Wait_test = A_in Call_wait"
| "pc_call Sleeping = A_in Call_wait"
| "pc_call (Relock b) = A_in Call_wait"
| "pc_call (Take_test c b) = A_in c"
| "pc_call (Take_load c b) = A_in c"
| "pc_call (Take_tail c b e) = A_in c"
| "pc_call (Take_count c b e) = A_in c"
| "pc_call (Unlock_take c b r) = A_in c"
| "pc_call Shut_set = A_in Call_shutdown"
| "pc_call Shut_broadcast = A_in Call_shutdown"
| "pc_call Unlock_shutdown = A_in Call_shutdown"
| "pc_call (Return r) = A_back r"

text \<open>While the mutex is held the atomic queue is still the one its owner found.\<close>

definition mon_abs :: "monitor \<Rightarrow> atomic" where
  "mon_abs m = \<lparr>aqueue = if owner m = None then mem m else snapshot m, apcs = pc_call \<circ> pcs m\<rparr>"

section \<open>Simulation in general\<close>

locale stuttering_simulation =
  fixes step :: "'s \<Rightarrow> 's \<Rightarrow> bool"
    and astep :: "'a \<Rightarrow> 'a \<Rightarrow> bool"
    and abs :: "'s \<Rightarrow> 'a"
    and invar :: "'s \<Rightarrow> bool"
  assumes invar_step: "invar s \<Longrightarrow> step s s' \<Longrightarrow> invar s'"
    and simulates: "invar s \<Longrightarrow> step s s' \<Longrightarrow> abs s' = abs s \<or> astep (abs s) (abs s')"
begin

lemma run_simulated: "step\<^sup>*\<^sup>* s s' \<Longrightarrow> invar s \<Longrightarrow> invar s' \<and> astep\<^sup>*\<^sup>* (abs s) (abs s')"
proof (induction rule: rtranclp_induct)
  case (step s1 s2)
  then have "invar s1" and run: "astep\<^sup>*\<^sup>* (abs s) (abs s1)" by simp_all
  from simulates [OF this(1) step.hyps(2)] run have "astep\<^sup>*\<^sup>* (abs s) (abs s2)"
    by (auto intro: rtranclp.rtrancl_into_rtrancl)
  with invar_step [OF \<open>invar s1\<close> step.hyps(2)] show ?case by simp
qed simp

end

section \<open>The invariant\<close>

text \<open>The statements executed with the mutex held.\<close>

fun in_section :: "pc \<Rightarrow> bool" where
  "in_section Outside \<longleftrightarrow> False"
| "in_section (Lock c) \<longleftrightarrow> False"
| "in_section Sleeping \<longleftrightarrow> False"
| "in_section (Relock b) \<longleftrightarrow> False"
| "in_section (Return r) \<longleftrightarrow> False"
| "in_section _ \<longleftrightarrow> True"

definition take_ok :: "queue_call \<Rightarrow> bool \<Rightarrow> pktqueue \<Rightarrow> bool" where
  "take_ok c timedout s \<longleftrightarrow>
     c = Call_pop \<or> c = Call_wait \<and> (timedout \<or> count s \<noteq> 0 \<or> shutting_down s)"

text \<open>How far the owner of the mutex has come: the queue \<open>q\<close> in memory against the queue \<open>s\<close> it found.\<close>

fun progress :: "pc \<Rightarrow> pktqueue \<Rightarrow> pktqueue \<Rightarrow> bool" where
  "progress (Push_test e) s q \<longleftrightarrow> q = s"
| "progress (Push_store e) s q \<longleftrightarrow> count s < QUEUE_CAPACITY \<and> q = s"
| "progress (Push_head e) s q \<longleftrightarrow> count s < QUEUE_CAPACITY \<and> q = s\<lparr>ring := (ring s)[head s := e]\<rparr>"
| "progress (Push_count e) s q \<longleftrightarrow>
     count s < QUEUE_CAPACITY \<and> q = s\<lparr>ring := (ring s)[head s := e], head := next_slot (head s)\<rparr>"
| "progress (Push_signal e) s q \<longleftrightarrow>
     count s < QUEUE_CAPACITY \<and>
     q = s\<lparr>ring := (ring s)[head s := e], head := next_slot (head s), count := count s + 1\<rparr>"
| "progress (Drop_time e) s q \<longleftrightarrow> \<not> count s < QUEUE_CAPACITY \<and> q = s"
| "progress (Drop_count e now) s q \<longleftrightarrow> \<not> count s < QUEUE_CAPACITY \<and> q = s"
| "progress (Drop_check e now) s q \<longleftrightarrow> \<not> count s < QUEUE_CAPACITY \<and> q = s\<lparr>dropped := dropped s + 1\<rparr>"
| "progress (Drop_report e now) s q \<longleftrightarrow>
     \<not> count s < QUEUE_CAPACITY \<and> now - last_drop_report s \<ge> DROP_REPORT_INTERVAL \<and> q = s\<lparr>dropped := dropped s + 1\<rparr>"
| "progress (Drop_zero e now n) s q \<longleftrightarrow>
     \<not> count s < QUEUE_CAPACITY \<and> now - last_drop_report s \<ge> DROP_REPORT_INTERVAL \<and> n = dropped s + 1 \<and>
     q = s\<lparr>dropped := dropped s + 1\<rparr>"
| "progress (Drop_stamp e now n) s q \<longleftrightarrow>
     \<not> count s < QUEUE_CAPACITY \<and> now - last_drop_report s \<ge> DROP_REPORT_INTERVAL \<and> n = dropped s + 1 \<and>
     q = s\<lparr>dropped := 0\<rparr>"
| "progress (Unlock_push e now r n) s q \<longleftrightarrow>
     pktqueue_push now e s = (r, q, if n > 0 then [(LEVEL_WARN, Queue_full_dropped n)] else [])"
| "progress Wait_test s q \<longleftrightarrow> q = s"
| "progress (Take_test c b) s q \<longleftrightarrow> take_ok c b s \<and> q = s"
| "progress (Take_load c b) s q \<longleftrightarrow> take_ok c b s \<and> 0 < count s \<and> q = s"
| "progress (Take_tail c b e) s q \<longleftrightarrow> take_ok c b s \<and> 0 < count s \<and> e = ring s ! tail s \<and> q = s"
| "progress (Take_count c b e) s q \<longleftrightarrow>
     take_ok c b s \<and> 0 < count s \<and> e = ring s ! tail s \<and> q = s\<lparr>tail := next_slot (tail s)\<rparr>"
| "progress (Unlock_take c b r) s q \<longleftrightarrow> take_ok c b s \<and>
     (case pktqueue_pop s of None \<Rightarrow> r = None \<and> q = s | Some (e, q') \<Rightarrow> r = Some e \<and> q = q')"
| "progress Shut_set s q \<longleftrightarrow> q = s"
| "progress Shut_broadcast s q \<longleftrightarrow> q = pktqueue_shutdown s"
| "progress Unlock_shutdown s q \<longleftrightarrow> q = pktqueue_shutdown s"
| "progress _ s q \<longleftrightarrow> True"

fun signalling :: "pc \<Rightarrow> bool" where
  "signalling (Push_signal e) \<longleftrightarrow> True"
| "signalling Shut_broadcast \<longleftrightarrow> True"
| "signalling _ \<longleftrightarrow> False"

definition role_ok :: "thread \<Rightarrow> pc \<Rightarrow> bool" where
  "role_ok t p \<longleftrightarrow> (\<forall>c. pc_call p = A_in c \<longrightarrow> may_call t c)"

text \<open>One thread at a time is in a critical section, and what it has done so far is known; a thread
  that sleeps has nothing to wait for unless the other is just about to wake it.\<close>

definition mon_inv :: "monitor \<Rightarrow> bool" where
  "mon_inv m \<longleftrightarrow>
     (\<forall>t. in_section (pcs m t) \<longleftrightarrow> owner m = Some t) \<and>
     (\<forall>t. owner m = Some t \<longrightarrow> progress (pcs m t) (snapshot m) (mem m)) \<and>
     (\<forall>t. role_ok t (pcs m t)) \<and>
     queue_inv (aqueue (mon_abs m)) \<and>
     (pcs m Main_thread = Sleeping \<longrightarrow>
        count (mem m) = 0 \<and> \<not> shutting_down (mem m) \<or> signalling (pcs m Capture_thread))"

lemmas step_defs = mon_step_def goto_def lock_mutex_def unlock_mutex_def wake_sleepers_def write_mem_def

lemma all_threads: "(\<forall>t. P t) \<longleftrightarrow> P Capture_thread \<and> P Main_thread"
  by (metis thread.exhaust)

lemma mon_inv_init: "mon_inv monitor_init"
  using pktqueue_init_inv(1) by (simp add: mon_inv_def monitor_init_def mon_abs_def role_ok_def)

section \<open>One step\<close>

lemma pc_call_first [simp]: "pc_call (first_statement c) = A_in c" and in_section_first [simp]: "in_section (first_statement c)"
  and progress_first [simp]: "progress (first_statement c) q q"
  by (cases c; simp add: take_ok_def)+

lemma step_role:
  assumes "mon_step inp t m = Some m'" "\<forall>t. role_ok t (pcs m t)"
  shows "\<forall>t. role_ok t (pcs m' t)"
  using assms
  by (cases "pcs m t"; force simp: step_defs role_ok_def split: if_splits env_input.splits)

lemma step_other:
  assumes "mon_step inp t m = Some m'" "u \<noteq> t"
  shows "pcs m' u = (if signalling (pcs m t) \<and> pcs m u = Sleeping then Relock False else pcs m u)"
  using assms by (cases "pcs m t") (auto simp: step_defs split: if_splits env_input.splits)

lemma step_self:
  assumes "mon_step inp t m = Some m'" "in_section (pcs m t) \<longleftrightarrow> owner m = Some t"
  shows "owner m' = (if in_section (pcs m' t) then Some t else if owner m = Some t then None else owner m)"
    and "in_section (pcs m' t) \<Longrightarrow> owner m = Some t \<or> owner m = None"
  using assms by (cases "pcs m t"; auto simp: step_defs split: if_splits env_input.splits)+

lemma step_progress:
  assumes "mon_step inp t m = Some m'" "in_section (pcs m t) \<Longrightarrow> progress (pcs m t) (snapshot m) (mem m)"
    and "in_section (pcs m' t)"
  shows "progress (pcs m' t) (snapshot m') (mem m')"
  using assms
  by (cases "pcs m t") (auto simp: step_defs take_ok_def pktqueue_push_def pktqueue_pop_def pktqueue_shutdown_def split: if_splits env_input.splits)

text \<open>The statement that gives the mutex back at the end of a call: it carries the call's effect.\<close>

fun releases :: "pc \<Rightarrow> bool" where
  "releases (Unlock_push e now r n) \<longleftrightarrow> True"
| "releases (Unlock_take c b r) \<longleftrightarrow> True"
| "releases Unlock_shutdown \<longleftrightarrow> True"
| "releases _ \<longleftrightarrow> False"

lemma step_releases:
  assumes "mon_step inp t m = Some m'" "releases (pcs m t)" "progress (pcs m t) (snapshot m) (mem m)"
  shows "\<exists>c now timedout r. pc_call (pcs m t) = A_in c \<and> pcs m' t = Return r \<and> mem m' = mem m \<and> owner m' = None \<and>
    queue_effect c now timedout (snapshot m) = Some (r, mem m)"
proof (cases "pcs m t")
  case (Unlock_push e now r n)
  with assms show ?thesis by (intro exI [of _ "Call_push e"] exI [of _ now]) (auto simp: step_defs)
next
  case (Unlock_take c b r)
  then have "queue_effect c 0 b (snapshot m) = Some (Ret_event r, mem m)"
    using assms(3) by (auto simp: take_ok_def pktqueue_wait_def split: option.splits)
  with assms Unlock_take show ?thesis by (intro exI [of _ c] exI [of _ 0] exI [of _ b]) (auto simp: step_defs)
next
  case Unlock_shutdown
  with assms show ?thesis by (intro exI [of _ Call_shutdown]) (auto simp: step_defs)
qed (use assms in simp_all)

lemma step_stutters:
  assumes "mon_step inp t m = Some m'" "in_section (pcs m t) \<longleftrightarrow> owner m = Some t"
    and "in_section (pcs m t) \<Longrightarrow> progress (pcs m t) (snapshot m) (mem m)"
    and "pcs m t \<noteq> Outside" "\<not> releases (pcs m t)" "\<forall>r. pcs m t \<noteq> Return r"
  shows "pc_call (pcs m' t) = pc_call (pcs m t) \<and> aqueue (mon_abs m') = aqueue (mon_abs m)"
  using assms
  by (cases "pcs m t") (auto simp: step_defs mon_abs_def take_ok_def split: if_splits env_input.splits)

lemma mon_abs_step:
  assumes "mon_step inp t m = Some m'"
  shows "mon_abs m' = (mon_abs m)\<lparr>aqueue := aqueue (mon_abs m'), apcs := (apcs (mon_abs m))(t := pc_call (pcs m' t))\<rparr>"
proof -
  have "pc_call (pcs m' u) = pc_call (pcs m u)" if "u \<noteq> t" for u
    using step_other [OF assms that] by simp
  then show ?thesis by (auto simp: mon_abs_def)
qed

lemma mon_step_simulated:
  assumes inv: "mon_inv m" and st: "mon_step inp t m = Some m'"
  shows "mon_abs m' = mon_abs m \<or> atomic_step (mon_abs m) (mon_abs m')"
proof -
  have own: "in_section (pcs m t) \<longleftrightarrow> owner m = Some t" and prog: "in_section (pcs m t) \<Longrightarrow> progress (pcs m t) (snapshot m) (mem m)"
    using inv by (auto simp: mon_inv_def)
  note abs = mon_abs_step [OF st]
  have q: "aqueue (mon_abs m) = (if owner m = None then mem m else snapshot m)" "aqueue (mon_abs m') = (if owner m' = None then mem m' else snapshot m')"
    and p: "apcs (mon_abs m) u = pc_call (pcs m u)" for u by (simp_all add: mon_abs_def)
  consider (out) "pcs m t = Outside" | (ret) r where "pcs m t = Return r" | (rel) "releases (pcs m t)"
    | (other) "pcs m t \<noteq> Outside" "\<not> releases (pcs m t)" "\<forall>r. pcs m t \<noteq> Return r" by blast
  then show ?thesis
  proof cases
    case out
    then obtain c where c: "may_call t c" "m' = goto t (Lock c) m"
      using st by (auto simp: mon_step_def split: env_input.splits if_splits)
    have "mon_abs m' = (mon_abs m)\<lparr>apcs := (apcs (mon_abs m))(t := A_in c)\<rparr>" using c by (auto simp: mon_abs_def goto_def)
    moreover have "apcs (mon_abs m) t = A_out" using out p by simp
    ultimately show ?thesis using c(1) by (metis atomic_step.invoke)
  next
    case (ret r)
    then have "mon_abs m' = (mon_abs m)\<lparr>apcs := (apcs (mon_abs m))(t := A_out)\<rparr>" "apcs (mon_abs m) t = A_back r"
      using st by (auto simp: mon_abs_def step_defs)
    then show ?thesis by (metis atomic_step.return)
  next
    case rel
    then have s: "in_section (pcs m t)" by (cases "pcs m t") auto
    obtain c now b r where c: "pc_call (pcs m t) = A_in c" "pcs m' t = Return r" "mem m' = mem m" "owner m' = None"
      and e: "queue_effect c now b (snapshot m) = Some (r, mem m)"
      using step_releases [OF st rel prog [OF s]] by blast
    have "owner m = Some t" using own s by blast
    then have "queue_effect c now b (aqueue (mon_abs m)) = Some (r, mem m)" "apcs (mon_abs m) t = A_in c"
      "mon_abs m' = (mon_abs m)\<lparr>aqueue := mem m, apcs := (apcs (mon_abs m))(t := A_back r)\<rparr>"
      using e c p abs by (simp_all add: q)
    then show ?thesis by (metis atomic_step.effect)
  next
    case other
    from step_stutters [OF st own prog other] abs show ?thesis by (simp add: p fun_upd_idem)
  qed
qed

lemma queue_effect_inv:
  assumes "queue_effect c now b q = Some (r, q')" "queue_inv q"
  shows "queue_inv q'"
proof (cases c)
  case (Call_push e)
  with assms push_result [OF assms(2), of now e] show ?thesis by (auto split: prod.splits)
next
  case Call_pop
  with assms pop_result [OF assms(2)] show ?thesis by (auto split: option.splits)
next
  case Call_wait
  with assms wait_result [of q b] pop_result [OF assms(2)] show ?thesis by fastforce
qed (use assms in \<open>auto simp: pktqueue_shutdown_def\<close>)

lemma atomic_step_inv: "atomic_step a a' \<Longrightarrow> queue_inv (aqueue a) \<Longrightarrow> queue_inv (aqueue a')"
  by (induction rule: atomic_step.induct) (auto intro: queue_effect_inv)

lemma capture_mem:
  assumes "mon_step inp Capture_thread m = Some m'" "role_ok Capture_thread (pcs m Capture_thread)"
    and "in_section (pcs m Capture_thread) \<Longrightarrow> progress (pcs m Capture_thread) (snapshot m) (mem m)"
  shows "signalling (pcs m' Capture_thread) \<or>
    count (mem m') = count (mem m) \<and> shutting_down (mem m') = shutting_down (mem m)"
proof -
  have r: "pc_call (pcs m Capture_thread) \<noteq> A_in Call_pop" "pc_call (pcs m Capture_thread) \<noteq> A_in Call_wait"
    using assms(2) by (auto simp: role_ok_def)
  show ?thesis
    using assms(1,3) r
    by (cases "pcs m Capture_thread") (auto simp: step_defs take_ok_def split: if_splits env_input.splits)
qed

lemma step_outside:
  assumes "mon_step inp t m = Some m'" "\<not> in_section (pcs m t)" "\<not> in_section (pcs m' t)"
  shows "mem m' = mem m \<and> snapshot m' = snapshot m \<and> owner m' = owner m"
  using assms by (cases "pcs m t") (auto simp: step_defs split: if_splits env_input.splits)

lemma main_sleeps:
  assumes "mon_step inp Main_thread m = Some m'" "pcs m' Main_thread = Sleeping"
  shows "count (mem m') = 0 \<and> \<not> shutting_down (mem m')"
proof -
  have f: "first_statement c \<noteq> Sleeping" for c by (cases c) simp_all
  show ?thesis
    using assms by (cases "pcs m Main_thread") (auto simp: step_defs f split: if_splits env_input.splits)
qed

lemma mon_step_inv:
  assumes inv: "mon_inv m" and st: "mon_step inp t m = Some m'"
  shows "mon_inv m'"
proof -
  have sec: "in_section (pcs m u) \<longleftrightarrow> owner m = Some u" for u using inv by (simp add: mon_inv_def)
  have prog: "in_section (pcs m u) \<Longrightarrow> progress (pcs m u) (snapshot m) (mem m)" for u using inv by (auto simp: mon_inv_def)
  have role: "\<forall>t. role_ok t (pcs m t)" using inv by (simp add: mon_inv_def)
  note self = step_self [OF st sec]
  have other: "in_section (pcs m' u) = in_section (pcs m u)" if "u \<noteq> t" for u
    using step_other [OF st that] by simp
  have sec': "in_section (pcs m' u) \<longleftrightarrow> owner m' = Some u" for u
  proof (cases "u = t")
    case False
    show ?thesis unfolding other [OF False] sec self(1) using False sec [of t] self(2) by auto
  qed (simp add: self(1) sec)
  have prog': "progress (pcs m' u) (snapshot m') (mem m')" if u: "owner m' = Some u" for u
  proof (cases "u = t")
    case True
    with u sec' have "in_section (pcs m' t)" by blast
    from step_progress [OF st prog this] True show ?thesis by simp
  next
    case False
    have u': "in_section (pcs m u)" using other [OF False] sec' u by blast
    then have t: "\<not> in_section (pcs m t)" "\<not> in_section (pcs m' t)" using sec sec' u False by (metis option.inject)+
    have "pcs m' u = pcs m u" using step_other [OF st False] u' by auto
    with step_outside [OF st t] prog [OF u'] show ?thesis by simp
  qed
  have q: "queue_inv (aqueue (mon_abs m'))"
    using mon_step_simulated [OF inv st] atomic_step_inv inv by (auto simp: mon_inv_def)
  have "count (mem m') = 0 \<and> \<not> shutting_down (mem m') \<or> signalling (pcs m' Capture_thread)"
    if sl: "pcs m' Main_thread = Sleeping"
  proof (cases t)
    case Main_thread
    with main_sleeps st sl show ?thesis by blast
  next
    case Capture_thread
    have st': "mon_step inp Capture_thread m = Some m'" using st Capture_thread by simp
    have "pcs m Main_thread = Sleeping" "\<not> signalling (pcs m Capture_thread)"
      using step_other [OF st', of Main_thread] sl by (auto split: if_splits)
    moreover then have "count (mem m) = 0 \<and> \<not> shutting_down (mem m)" using inv by (simp add: mon_inv_def)
    ultimately show ?thesis using capture_mem [OF st' _ prog] role by auto
  qed
  with sec' prog' step_role [OF st role] q show ?thesis unfolding mon_inv_def by blast
qed

interpretation queue_sim: stuttering_simulation mon_move atomic_step mon_abs mon_inv
  by unfold_locales (auto elim!: mon_move.cases intro: mon_step_inv dest: mon_step_simulated)

lemma mon_abs_init: "mon_abs monitor_init = atomic_init"
  by (auto simp: mon_abs_def monitor_init_def atomic_init_def)

lemma mon_exec_moves: "mon_exec sch m = Some m' \<Longrightarrow> mon_move\<^sup>*\<^sup>* m m'"
proof (induction sch arbitrary: m)
  case (Cons x sch)
  obtain inp t where x: "x = (inp, t)" by fastforce
  with Cons.prems obtain m1 where "mon_step inp t m = Some m1" "mon_exec sch m1 = Some m'"
    by (auto split: option.splits)
  with Cons.IH show ?case by (meson converse_rtranclp_into_rtranclp mon_move.move)
qed simp

section \<open>Leaving the critical section\<close>

text \<open>The statements left before the mutex is given back.\<close>

fun statements_left :: "pc \<Rightarrow> nat" where
  "statements_left (Push_test e) = 8"
| "statements_left (Drop_time e) = 7"
| "statements_left (Drop_count e now) = 6"
| "statements_left (Drop_check e now) = 5"
| "statements_left (Drop_report e now) = 4"
| "statements_left (Drop_zero e now n) = 3"
| "statements_left (Drop_stamp e now n) = 2"
| "statements_left (Push_store e) = 5"
| "statements_left (Push_head e) = 4"
| "statements_left (Push_count e) = 3"
| "statements_left (Push_signal e) = 2"
| "statements_left Wait_test = 6"
| "statements_left (Take_test c b) = 5"
| "statements_left (Take_load c b) = 4"
| "statements_left (Take_tail c b e) = 3"
| "statements_left (Take_count c b e) = 2"
| "statements_left Shut_set = 3"
| "statements_left Shut_broadcast = 2"
| "statements_left _ = 1"

lemma statements_left_le: "statements_left p \<le> 8"
  by (cases p) simp_all

lemma owner_step:
  assumes "in_section (pcs m t)"
  shows "\<exists>m'. mon_step (Clock now) t m = Some m' \<and>
    (in_section (pcs m' t) \<and> statements_left (pcs m' t) < statements_left (pcs m t) \<or> owner m' = None)"
  using assms by (cases "pcs m t") (auto simp: step_defs)

lemma owner_leaves:
  "mon_inv m \<Longrightarrow> in_section (pcs m t) \<Longrightarrow>
   \<exists>n m'. n \<le> statements_left (pcs m t) \<and> mon_exec (replicate n (Clock now, t)) m = Some m' \<and> owner m' = None"
proof (induction "statements_left (pcs m t)" arbitrary: m rule: less_induct)
  case less
  obtain m1 where st: "mon_step (Clock now) t m = Some m1"
    and m1: "in_section (pcs m1 t) \<and> statements_left (pcs m1 t) < statements_left (pcs m t) \<or> owner m1 = None"
    using owner_step [OF less.prems(2)] by blast
  show ?case
  proof (cases "owner m1 = None")
    case True
    have "1 \<le> statements_left (pcs m t)" by (cases "pcs m t") simp_all
    with st True show ?thesis by (intro exI [of _ 1]) simp
  next
    case False
    with m1 have s: "in_section (pcs m1 t)" "statements_left (pcs m1 t) < statements_left (pcs m t)" by simp_all
    from less.hyps [OF s(2) mon_step_inv [OF less.prems(1) st] s(1)] obtain n m'
      where n: "n \<le> statements_left (pcs m1 t)" "mon_exec (replicate n (Clock now, t)) m1 = Some m'" "owner m' = None" by blast
    with s(2) st show ?thesis by (intro exI [of _ "Suc n"]) simp
  qed
qed

section \<open>Properties\<close>

text \<open>
  C9.  The queue functions are atomic.  In every run of the two threads, interleaved statement by
  statement, at most one thread is in a critical section, and the run is one of the atomic
  machine, in which each call takes effect in a single step as \<open>pktqueue_push\<close>, \<open>pktqueue_pop\<close>,
  \<open>pktqueue_wait\<close> and \<open>pktqueue_shutdown\<close> say, some time between its invocation and its return.
\<close>

theorem monitor_refines_atomic:
  assumes "mon_move\<^sup>*\<^sup>* monitor_init m"
  shows "atomic_step\<^sup>*\<^sup>* atomic_init (mon_abs m) \<and>
    (\<forall>t u. in_section (pcs m t) \<longrightarrow> in_section (pcs m u) \<longrightarrow> t = u)"
  using queue_sim.run_simulated [OF assms mon_inv_init] by (auto simp: mon_abs_init mon_inv_def)

text \<open>The main thread goes to sleep on the empty queue; the capture thread pushes and wakes it.\<close>

definition demo_schedule :: "knock_event_t \<Rightarrow> (env_input \<times> thread) list" where
  "demo_schedule e =
     (Invoke Call_wait, Main_thread) # replicate 2 (No_input, Main_thread) @
     (Invoke (Call_push e), Capture_thread) # replicate 6 (No_input, Capture_thread)"

lemma demo_schedule_run:
  "\<exists>m. mon_exec (demo_schedule e) monitor_init = Some m \<and> pcs m Main_thread = Relock False \<and>
     owner m = Some Capture_thread \<and> count (mem m) = 1"
  by (simp add: demo_schedule_def numeral_eq_Suc step_defs monitor_init_def pktqueue_init_def QUEUE_CAPACITY_def)

theorem monitor_refines_atomic_witness:
  "\<exists>m. mon_exec (demo_schedule zero_event) monitor_init = Some m \<and> pcs m Main_thread = Relock False \<and>
     atomic_step\<^sup>*\<^sup>* atomic_init (mon_abs m)"
proof -
  obtain m where m: "mon_exec (demo_schedule zero_event) monitor_init = Some m" "pcs m Main_thread = Relock False"
    using demo_schedule_run by blast
  from monitor_refines_atomic [OF mon_exec_moves [OF m(1)]] m show ?thesis by blast
qed

text \<open>
  C10.  No wake-up is lost.  Whenever the mutex is free and the main thread sleeps on the condition
  variable, the queue is empty and not shutting down: it never sleeps through an event or a stop.
\<close>

theorem no_lost_wakeup:
  assumes "mon_move\<^sup>*\<^sup>* monitor_init m" and "owner m = None" and "pcs m t = Sleeping"
  shows "t = Main_thread \<and> count (mem m) = 0 \<and> \<not> shutting_down (mem m)"
proof -
  have inv: "mon_inv m" using queue_sim.run_simulated [OF assms(1) mon_inv_init] by simp
  then have "may_call t Call_wait" using assms(3) by (auto simp: mon_inv_def role_ok_def)
  then have t: "t = Main_thread" by (cases t) simp_all
  have "\<not> in_section (pcs m Capture_thread)" using inv assms(2) by (simp add: mon_inv_def)
  then have "\<not> signalling (pcs m Capture_thread)" by (cases "pcs m Capture_thread") simp_all
  with inv assms(3) t show ?thesis by (auto simp: mon_inv_def)
qed

theorem no_lost_wakeup_witness:
  "\<exists>m. mon_exec ((Invoke Call_wait, Main_thread) # replicate 2 (No_input, Main_thread)) monitor_init = Some m \<and>
     pcs m Main_thread = Sleeping \<and> count (mem m) = 0"
proof -
  obtain m where m: "mon_exec ((Invoke Call_wait, Main_thread) # replicate 2 (No_input, Main_thread)) monitor_init = Some m"
    "owner m = None" "pcs m Main_thread = Sleeping"
    by (simp add: numeral_eq_Suc step_defs monitor_init_def pktqueue_init_def)
  from no_lost_wakeup [OF mon_exec_moves [OF m(1)] m(2,3)] m show ?thesis by blast
qed

text \<open>
  C11.  The mutex is held for a few statements only.  Whoever holds it gives it back within eight
  steps of its own, none of which can block; and while it is free every thread inside a call can
  take its next step, unless it sleeps on the condition variable.  So neither thread can be held
  up by the other for long, and the two cannot deadlock.
\<close>

theorem mutex_is_released:
  assumes "mon_move\<^sup>*\<^sup>* monitor_init m"
  shows "(owner m = Some t \<longrightarrow>
      (\<exists>n\<le>8. \<exists>m'. mon_exec (replicate n (Clock now, t)) m = Some m' \<and> owner m' = None)) \<and>
    (owner m = None \<longrightarrow> pcs m t \<noteq> Outside \<longrightarrow> pcs m t \<noteq> Sleeping \<longrightarrow> (\<exists>m'. mon_step (Clock now) t m = Some m'))"
proof -
  have inv: "mon_inv m" using queue_sim.run_simulated [OF assms mon_inv_init] by simp
  have "\<exists>n\<le>8. \<exists>m'. mon_exec (replicate n (Clock now, t)) m = Some m' \<and> owner m' = None" if "owner m = Some t"
  proof -
    have "in_section (pcs m t)" using inv that by (simp add: mon_inv_def)
    from owner_leaves [OF inv this, of now] statements_left_le [of "pcs m t"] show ?thesis by (meson order_trans)
  qed
  moreover have "\<exists>m'. mon_step (Clock now) t m = Some m'" if "owner m = None" "pcs m t \<noteq> Outside" "pcs m t \<noteq> Sleeping"
    using that by (cases "pcs m t") (auto simp: step_defs)
  ultimately show ?thesis by blast
qed

theorem mutex_is_released_witness:
  "\<exists>m n m'. mon_exec (demo_schedule zero_event) monitor_init = Some m \<and> owner m = Some Capture_thread \<and> n \<le> 8 \<and>
     mon_exec (replicate n (Clock 5, Capture_thread)) m = Some m' \<and> owner m' = None"
proof -
  obtain m where m: "mon_exec (demo_schedule zero_event) monitor_init = Some m" "owner m = Some Capture_thread"
    using demo_schedule_run by blast
  from mutex_is_released [OF mon_exec_moves [OF m(1)], of Capture_thread 5] m show ?thesis by blast
qed

end
