(* ===== verification/Slot_Table.thy ===== *)
theory Slot_Table
  imports Prelude
begin

text \<open>
  The client table of \<open>knocker.c\<close> and the grant table of \<open>firewall.c\<close> are the same structure: a
  fixed array of slots, each free or in use for one address, searched linearly.  This theory
  reads such an array as a map from keys to entries, and proves once, in the locale
  \<open>slot_table\<close>, what the operations on one slot do to that map.
\<close>

section \<open>Arrays of slots as maps\<close>

definition slot_map :: "('e \<Rightarrow> bool) \<Rightarrow> ('e \<Rightarrow> 'k) \<Rightarrow> 'e list \<Rightarrow> ('k \<rightharpoonup> 'e)" where
  "slot_map act key xs k =
     map_option (\<lambda>i. xs ! i) (first_index (\<lambda>i. act (xs ! i) \<and> key (xs ! i) = k) 0 (length xs))"

definition slots_unique :: "('e \<Rightarrow> bool) \<Rightarrow> ('e \<Rightarrow> 'k) \<Rightarrow> 'e list \<Rightarrow> bool" where
  "slots_unique act key xs \<longleftrightarrow>
     (\<forall>i<length xs. \<forall>j<length xs. act (xs ! i) \<and> act (xs ! j) \<and> key (xs ! i) = key (xs ! j) \<longrightarrow> i = j)"

lemma slot_map_None_iff:
  "slot_map act key xs k = None \<longleftrightarrow> (\<forall>e\<in>set xs. act e \<longrightarrow> key e \<noteq> k)"
proof -
  have "slot_map act key xs k = None \<longleftrightarrow> (\<forall>i<length xs. act (xs ! i) \<longrightarrow> key (xs ! i) \<noteq> k)"
    by (simp add: slot_map_def first_index_None_iff)
  then show ?thesis by (simp add: all_set_conv_all_nth)
qed

lemma slot_map_SomeD:
  assumes "slot_map act key xs k = Some e"
  shows "\<exists>i<length xs. xs ! i = e \<and> act e \<and> key e = k"
  using assms by (auto simp: slot_map_def dest!: first_index_SomeD)

lemma slot_map_Some_iff:
  assumes "slots_unique act key xs"
  shows "slot_map act key xs k = Some e \<longleftrightarrow> (\<exists>i<length xs. xs ! i = e \<and> act e \<and> key e = k)"
proof
  assume "\<exists>i<length xs. xs ! i = e \<and> act e \<and> key e = k"
  then obtain i where i: "i < length xs" "xs ! i = e" "act e" "key e = k" by blast
  then have "slot_map act key xs k \<noteq> None" 
    unfolding slot_map_None_iff all_set_conv_all_nth by blast
  then obtain e' where e': "slot_map act key xs k = Some e'" by blast
  from slot_map_SomeD [OF e'] obtain j where j: "j < length xs" "xs ! j = e'" "act e'" "key e' = k"
    by blast
  have "i = j"
    using assms i j unfolding slots_unique_def by blast
  with i j e' show "slot_map act key xs k = Some e" by simp
qed (rule slot_map_SomeD)

lemma slots_unique_replicate: "\<not> act e \<Longrightarrow> slots_unique act key (replicate n e)"
  by (simp add: slots_unique_def)

lemma slot_map_replicate: "\<not> act e \<Longrightarrow> slot_map act key (replicate n e) = Map.empty"
  by (auto simp: fun_eq_iff slot_map_None_iff)

lemma finite_dom_slot_map: "finite (dom (slot_map act key xs))"
proof (rule finite_subset)
  show "dom (slot_map act key xs) \<subseteq> key ` set xs"
    by (auto dest!: slot_map_SomeD)
qed simp

lemma slots_unique_distinct:
  "slots_unique act key xs \<Longrightarrow> distinct (map key (filter act xs))"
proof (induction xs)
  case Nil
  then show ?case by simp
next
  case (Cons x xs)
  have "slots_unique act key xs"
    unfolding slots_unique_def
  proof (intro allI impI)
    fix i j
    assume "i < length xs" "j < length xs" "act (xs ! i) \<and> act (xs ! j) \<and> key (xs ! i) = key (xs ! j)"
    with Cons.prems [unfolded slots_unique_def, rule_format, of "Suc i" "Suc j"] show "i = j" by simp
  qed
  moreover have "key x \<noteq> key y" if "act x" "y \<in> set xs" "act y" for y
  proof -
    from that(2) obtain j where "j < length xs" "xs ! j = y" by (auto simp: in_set_conv_nth)
    with Cons.prems [unfolded slots_unique_def, rule_format, of 0 "Suc j"] that show ?thesis by auto
  qed
  ultimately show ?case using Cons.IH by auto
qed

section \<open>Operations on one slot\<close>

locale slot_table =
  fixes act :: "'e \<Rightarrow> bool"
    and key :: "'e \<Rightarrow> 'k"
    and free :: "'e \<Rightarrow> 'e"
  assumes act_free: "\<not> act (free e)"
    and key_free: "key (free e) = key e"
begin

lemma unique_update:
  assumes "slots_unique act key xs" "i < length xs"
    and "\<And>j. j < length xs \<Longrightarrow> j \<noteq> i \<Longrightarrow> act (xs ! j) \<Longrightarrow> act e \<Longrightarrow> key (xs ! j) \<noteq> key e"
  shows "slots_unique act key (xs[i := e])"
  unfolding slots_unique_def
proof (intro allI impI)
  fix a b
  assume "a < length (xs[i := e])" "b < length (xs[i := e])"
    and *: "act (xs[i := e] ! a) \<and> act (xs[i := e] ! b) \<and> key (xs[i := e] ! a) = key (xs[i := e] ! b)"
  then have l: "a < length xs" "b < length xs" by simp_all
  show "a = b"
  proof (cases "a = i \<or> b = i")
    case True
    with * l assms(2) assms(3) [of a] assms(3) [of b] show ?thesis by (cases "a = i"; cases "b = i") auto
  next
    case False
    with * l assms(1) show ?thesis unfolding slots_unique_def by simp
  qed
qed

lemma map_update_eq:
  assumes u: "slots_unique act key (xs[i := e])" and i: "i < length xs"
    and m: "\<And>k x. m k = Some x \<longleftrightarrow> (act e \<and> key e = k \<and> x = e) \<or>
               (\<exists>j<length xs. j \<noteq> i \<and> xs ! j = x \<and> act x \<and> key x = k)"
  shows "slot_map act key (xs[i := e]) = m"
proof
  fix k
  have "slot_map act key (xs[i := e]) k = Some x \<longleftrightarrow> m k = Some x" for x
    unfolding slot_map_Some_iff [OF u] m using i by (auto simp: nth_list_update)
  then show "slot_map act key (xs[i := e]) k = m k" by (metis not_None_eq)
qed

lemma others:
  assumes u: "slots_unique act key xs" and i: "i < length xs" and a: "act (xs ! i)"
  shows "(\<exists>j<length xs. j \<noteq> i \<and> xs ! j = x \<and> act x \<and> key x = k) \<longleftrightarrow>
         k \<noteq> key (xs ! i) \<and> slot_map act key xs k = Some x"
  unfolding slot_map_Some_iff [OF u] using u i a unfolding slots_unique_def by metis

lemma others_free:
  assumes u: "slots_unique act key xs" and i: "i < length xs" and a: "\<not> act (xs ! i)"
  shows "(\<exists>j<length xs. j \<noteq> i \<and> xs ! j = x \<and> act x \<and> key x = k) \<longleftrightarrow> slot_map act key xs k = Some x"
  unfolding slot_map_Some_iff [OF u] using a by metis

text \<open>Overwriting an entry of the same key.\<close>

lemma overwrite:
  assumes "slots_unique act key xs" "i < length xs" "act (xs ! i)" "act e" "key e = key (xs ! i)"
  shows "slots_unique act key (xs[i := e])"
    and "slot_map act key (xs[i := e]) = (slot_map act key xs)(key e \<mapsto> e)"
proof -
  show u: "slots_unique act key (xs[i := e])"
    by (rule unique_update) (use assms in \<open>auto simp: slots_unique_def\<close>)
  show "slot_map act key (xs[i := e]) = (slot_map act key xs)(key e \<mapsto> e)"
    by (rule map_update_eq [OF u assms(2)])
       (use assms in \<open>auto simp: others [OF assms(1-3)]\<close>)
qed

text \<open>Releasing a slot.\<close>

lemma release:
  assumes "slots_unique act key xs" "i < length xs" "act (xs ! i)" "\<not> act e"
  shows "slots_unique act key (xs[i := e])"
    and "slot_map act key (xs[i := e]) = (slot_map act key xs)(key (xs ! i) := None)"
proof -
  show u: "slots_unique act key (xs[i := e])"
    by (rule unique_update) (use assms in auto)
  show "slot_map act key (xs[i := e]) = (slot_map act key xs)(key (xs ! i) := None)"
    by (rule map_update_eq [OF u assms(2)])
       (use assms in \<open>auto simp: others [OF assms(1-3)]\<close>)
qed

text \<open>Claiming a free slot for a key that has none.\<close>

lemma claim:
  assumes "slots_unique act key xs" "i < length xs" "\<not> act (xs ! i)" "act e"
    "slot_map act key xs (key e) = None"
  shows "slots_unique act key (xs[i := e])"
    and "slot_map act key (xs[i := e]) = (slot_map act key xs)(key e \<mapsto> e)"
proof -
  have none: "act x \<Longrightarrow> x \<in> set xs \<Longrightarrow> key x \<noteq> key e" for x
    using assms(5) by (auto simp: slot_map_None_iff)
  show u: "slots_unique act key (xs[i := e])"
    by (rule unique_update) (use assms none in auto)
  show "slot_map act key (xs[i := e]) = (slot_map act key xs)(key e \<mapsto> e)"
    by (rule map_update_eq [OF u assms(2)])
       (use assms in \<open>auto simp: others_free [OF assms(1-3)]\<close>)
qed

text \<open>Releasing every entry that satisfies a condition.\<close>

lemma sweep:
  assumes "slots_unique act key xs"
  shows "slots_unique act key (map (\<lambda>e. if P e then free e else e) xs)"
    and "slot_map act key (map (\<lambda>e. if P e then free e else e) xs) k =
           (case slot_map act key xs k of None \<Rightarrow> None | Some e \<Rightarrow> if P e then None else Some e)"
proof -
  let ?ys = "map (\<lambda>e. if P e then free e else e) xs"
  show u: "slots_unique act key ?ys"
    using assms act_free by (auto simp: slots_unique_def split: if_splits)
  have iff: "slot_map act key ?ys k = Some x \<longleftrightarrow> slot_map act key xs k = Some x \<and> \<not> P x" for x
    unfolding slot_map_Some_iff [OF u] slot_map_Some_iff [OF assms] using act_free
    by (auto split: if_splits)
  show "slot_map act key ?ys k =
      (case slot_map act key xs k of None \<Rightarrow> None | Some e \<Rightarrow> if P e then None else Some e)"
  proof (cases "slot_map act key ?ys k")
    case None
    then have "\<not> (slot_map act key xs k = Some x \<and> \<not> P x)" for x using iff [of x] by simp
    with None show ?thesis by (auto split: option.split)
  next
    case (Some x)
    with iff [of x] show ?thesis by simp
  qed
qed

end

end
