(* ===== verification/Knocker.thy ===== *)
theory Knocker
  imports Config Slot_Table "HOL-Library.Sublist"
begin

text \<open>
  \<open>src/knocker.c\<close>: the table of clients that are partway through the sequence and the state
  machine that a knock drives.  A pointer into the table is an index.  \<open>time(NULL)\<close> is read once
  by \<open>process_locked\<close> and again by \<open>alloc_client\<close>, so the two readings are separate arguments.
  All of it runs under \<open>table_lock\<close>, so one call is one atomic step.
\<close>

section \<open>The client table\<close>

datatype knock_result_t = KNOCK_COMPLETE | KNOCK_IN_PROGRESS | KNOCK_RESET

definition KNOCK_DEDUP_WINDOW :: int where "KNOCK_DEDUP_WINDOW = 5"

record knock_client_t =
  c_ip :: ipv4
  current_step :: nat
  last_knock :: seconds
  last_port :: port
  c_active :: bool

type_synonym client_table = "knock_client_t list"

datatype knocker_msg =
    Does_not_start_sequence ipv4 port
  | Client_table_full ipv4
  | Reusing_expired_entry ipv4
  | Ignored_as_retransmit ipv4 port
  | Gap_starting_over ipv4 int
  | At_step ipv4 nat nat
  | Restarted_at_first_step ipv4 nat
  | Progress_discarded ipv4 port
  | Client_table_alloc_failed int
  | State_machine_ready int
  | Dropping_stale_entry ipv4
  | Dropped_stale_entries nat

definition zero_client :: knock_client_t where
  "zero_client = \<lparr>c_ip = 0, current_step = 0, last_knock = 0, last_port = 0, c_active = False\<rparr>"

section \<open>Operations\<close>

definition find_client :: "config \<Rightarrow> client_table \<Rightarrow> ipv4 \<Rightarrow> nat option" where
  "find_client cfg tbl ip =
     first_index (\<lambda>i. c_active (tbl ! i) \<and> c_ip (tbl ! i) = ip) 0 (nat (MAX_CLIENTS cfg))"

text \<open>The loop of \<open>alloc_client\<close> from slot \<open>i\<close> with \<open>n\<close> slots to go: \<open>Inl\<close> the first free slot,
  or \<open>Inr\<close> the oldest entry seen.\<close>

fun alloc_scan :: "client_table \<Rightarrow> nat \<Rightarrow> nat \<Rightarrow> nat option \<Rightarrow> nat + nat option" where
  "alloc_scan tbl i 0 oldest = Inr oldest"
| "alloc_scan tbl i (Suc n) oldest =
     (if \<not> c_active (tbl ! i) then Inl i
      else alloc_scan tbl (Suc i) n
        (case oldest of
           None \<Rightarrow> Some i
         | Some k \<Rightarrow> if last_knock (tbl ! i) < last_knock (tbl ! k) then Some i else oldest))"

definition alloc_client ::
  "config \<Rightarrow> seconds \<Rightarrow> client_table \<Rightarrow> (nat \<times> client_table) option \<times> knocker_msg logs" where
  "alloc_client cfg now tbl =
     (case alloc_scan tbl 0 (nat (MAX_CLIENTS cfg)) None of
        Inl i \<Rightarrow> (Some (i, tbl[i := zero_client]), [])
      | Inr None \<Rightarrow> (None, [])
      | Inr (Some k) \<Rightarrow>
          if now - last_knock (tbl ! k) \<le> KNOCK_WINDOW cfg then (None, [])
          else (Some (k, tbl[k := zero_client]), [(LEVEL_DEBUG, Reusing_expired_entry (c_ip (tbl ! k)))]))"

text \<open>The part of \<open>process_locked\<close> that works on the entry \<open>c\<close> (from the duplicate check on).\<close>

definition advance_client ::
  "config \<Rightarrow> seconds \<Rightarrow> ipv4 \<Rightarrow> port \<Rightarrow> knock_client_t \<Rightarrow>
   knock_result_t \<times> knock_client_t \<times> knocker_msg logs" where
  "advance_client cfg now ip port c =
     (if port = last_port c \<and> now - last_knock c \<le> KNOCK_DEDUP_WINDOW
      then (KNOCK_IN_PROGRESS, c, [(LEVEL_DEBUG, Ignored_as_retransmit ip port)])
      else
        (let (c, l1) =
           (if current_step c > 0 \<and> now - last_knock c > KNOCK_WINDOW cfg
            then (c\<lparr>current_step := 0\<rparr>, [(LEVEL_INFO, Gap_starting_over ip (KNOCK_WINDOW cfg))])
            else (c, []))
         in if port = KNOCK_SEQUENCE cfg ! current_step c
            then (let c = c\<lparr>current_step := current_step c + 1, last_knock := now, last_port := port\<rparr>
                  in if current_step c \<ge> KNOCK_SEQ_LEN cfg
                     then (KNOCK_COMPLETE, c\<lparr>c_active := False\<rparr>, l1)
                     else (KNOCK_IN_PROGRESS, c,
                           l1 @ [(LEVEL_INFO, At_step ip (current_step c) (KNOCK_SEQ_LEN cfg))]))
            else if port = KNOCK_SEQUENCE cfg ! 0
            then (KNOCK_IN_PROGRESS, c\<lparr>current_step := 1, last_knock := now, last_port := port\<rparr>,
                  l1 @ [(LEVEL_DEBUG, Restarted_at_first_step ip (KNOCK_SEQ_LEN cfg))])
            else (KNOCK_RESET, c\<lparr>c_active := False\<rparr>,
                  l1 @ [(LEVEL_DEBUG, Progress_discarded ip port)])))"

definition process_locked ::
  "config \<Rightarrow> seconds \<Rightarrow> seconds \<Rightarrow> ipv4 \<Rightarrow> port \<Rightarrow> client_table \<Rightarrow>
   knock_result_t \<times> client_table \<times> knocker_msg logs" where
  "process_locked cfg now now_alloc ip port tbl =
     (case find_client cfg tbl ip of
        Some i \<Rightarrow>
          (let (r, c, ls) = advance_client cfg now ip port (tbl ! i) in (r, tbl[i := c], ls))
      | None \<Rightarrow>
          if port \<noteq> KNOCK_SEQUENCE cfg ! 0
          then (KNOCK_RESET, tbl, [(LEVEL_DEBUG, Does_not_start_sequence ip port)])
          else (case alloc_client cfg now_alloc tbl of
                  (None, l0) \<Rightarrow> (KNOCK_RESET, tbl, l0 @ [(LEVEL_WARN, Client_table_full ip)])
                | (Some (i, tbl), l0) \<Rightarrow>
                    (let c = (tbl ! i)\<lparr>c_ip := ip, c_active := True\<rparr>;
                         (r, c, ls) = advance_client cfg now ip port c
                     in (r, tbl[i := c], l0 @ ls))))"

text \<open>The public functions.  \<open>clients\<close> is \<open>NULL\<close> (\<open>None\<close>) outside of \<open>knocker_init\<close> and
  \<open>knocker_shutdown\<close>; a call then dereferences a null pointer, which is \<open>None\<close> here.\<close>

definition knocker_init :: "config \<Rightarrow> bool \<Rightarrow> int \<times> client_table option \<times> knocker_msg logs" where
  "knocker_init cfg calloc_ok =
     (if calloc_ok
      then (0, Some (replicate (nat (MAX_CLIENTS cfg)) zero_client),
            [(LEVEL_DEBUG, State_machine_ready (MAX_CLIENTS cfg))])
      else (- 1, None, [(LEVEL_ERROR, Client_table_alloc_failed (MAX_CLIENTS cfg))]))"

definition knocker_shutdown :: "client_table option \<Rightarrow> client_table option" where
  "knocker_shutdown clients = None"

definition knocker_process ::
  "config \<Rightarrow> seconds \<Rightarrow> seconds \<Rightarrow> ipv4 \<Rightarrow> port \<Rightarrow> client_table option \<Rightarrow>
   (knock_result_t \<times> client_table option \<times> knocker_msg logs) option" where
  "knocker_process cfg now now_alloc ip port clients = (case clients of
     None \<Rightarrow> None
   | Some tbl \<Rightarrow>
       (let (r, tbl, ls) = process_locked cfg now now_alloc ip port tbl in Some (r, Some tbl, ls)))"

definition is_stale :: "config \<Rightarrow> seconds \<Rightarrow> knock_client_t \<Rightarrow> bool" where
  "is_stale cfg now c \<longleftrightarrow> c_active c \<and> now - last_knock c > KNOCK_WINDOW cfg"

definition knocker_cleanup_stale ::
  "config \<Rightarrow> seconds \<Rightarrow> client_table option \<Rightarrow> (client_table option \<times> knocker_msg logs) option" where
  "knocker_cleanup_stale cfg now clients = (case clients of
     None \<Rightarrow> None
   | Some tbl \<Rightarrow>
       (let stale = filter (is_stale cfg now) (take (nat (MAX_CLIENTS cfg)) tbl);
            cleaned = map (\<lambda>c. if is_stale cfg now c then c\<lparr>c_active := False\<rparr> else c)
              (take (nat (MAX_CLIENTS cfg)) tbl) @ drop (nat (MAX_CLIENTS cfg)) tbl
        in Some (Some cleaned,
             map (\<lambda>c. (LEVEL_DEBUG, Dropping_stale_entry (c_ip c))) stale @
             (if stale = [] then [] else [(LEVEL_DEBUG, Dropped_stale_entries (length stale))]))))"

section \<open>The table as a map from addresses to entries\<close>

abbreviation client_map :: "client_table \<Rightarrow> ipv4 \<rightharpoonup> knock_client_t" where
  "client_map \<equiv> slot_map c_active c_ip"

interpretation client_slots: slot_table c_active c_ip "\<lambda>c. c\<lparr>c_active := False\<rparr>"
  by unfold_locales simp_all

text \<open>An entry in use has completed at least one and not all steps, and remembers the port of
  the last one.\<close>

definition client_inv :: "config \<Rightarrow> knock_client_t \<Rightarrow> bool" where
  "client_inv cfg c \<longleftrightarrow> 1 \<le> current_step c \<and> current_step c < KNOCK_SEQ_LEN cfg \<and>
     last_port c = KNOCK_SEQUENCE cfg ! (current_step c - 1)"

definition table_inv :: "config \<Rightarrow> client_table \<Rightarrow> bool" where
  "table_inv cfg tbl \<longleftrightarrow> length tbl = nat (MAX_CLIENTS cfg) \<and> slots_unique c_active c_ip tbl \<and>
     (\<forall>c\<in>set tbl. c_active c \<longrightarrow> client_inv cfg c)"

section \<open>The abstract machine\<close>

text \<open>
  One address on its own: \<open>None\<close> is untracked, \<open>Some (k, t)\<close> has completed \<open>k\<close> steps, the last
  one at time \<open>t\<close>.  A retransmit of the last step's port is ignored for a while; the next port
  within the window advances; the first port (re)starts; anything else discards the progress.
\<close>

definition spec_knock ::
  "config \<Rightarrow> seconds \<Rightarrow> port \<Rightarrow> (nat \<times> seconds) option \<Rightarrow> knock_result_t \<times> (nat \<times> seconds) option" where
  "spec_knock cfg now port st = (case st of
     None \<Rightarrow> if port = hd (knock_seq cfg) then (KNOCK_IN_PROGRESS, Some (1, now)) else (KNOCK_RESET, None)
   | Some (k, t) \<Rightarrow>
       if port = knock_seq cfg ! (k - 1) \<and> now - t \<le> KNOCK_DEDUP_WINDOW then (KNOCK_IN_PROGRESS, st)
       else if now - t \<le> KNOCK_WINDOW cfg \<and> port = knock_seq cfg ! k
       then (if k + 1 = length (knock_seq cfg) then (KNOCK_COMPLETE, None)
             else (KNOCK_IN_PROGRESS, Some (k + 1, now)))
       else if port = hd (knock_seq cfg) then (KNOCK_IN_PROGRESS, Some (1, now))
       else (KNOCK_RESET, None))"

definition abs_client :: "knock_client_t \<Rightarrow> nat \<times> seconds" where
  "abs_client c = (current_step c, last_knock c)"

definition abs_table :: "client_table \<Rightarrow> ipv4 \<rightharpoonup> nat \<times> seconds" where
  "abs_table tbl ip = map_option abs_client (client_map tbl ip)"

text \<open>The entry an address has is past the window, so it may be dropped.\<close>

definition expired :: "config \<Rightarrow> seconds \<Rightarrow> (nat \<times> seconds) option \<Rightarrow> bool" where
  "expired cfg now st \<longleftrightarrow> (\<forall>k t. st = Some (k, t) \<longrightarrow> now - t > KNOCK_WINDOW cfg)"

text \<open>Every slot holds a sequence that is still within its window.\<close>

definition table_full :: "config \<Rightarrow> seconds \<Rightarrow> client_table \<Rightarrow> bool" where
  "table_full cfg now tbl \<longleftrightarrow> (\<forall>c\<in>set tbl. c_active c \<and> now - last_knock c \<le> KNOCK_WINDOW cfg)"

section \<open>Searching and allocating\<close>

lemma client_map_find:
  "table_inv cfg tbl \<Longrightarrow> client_map tbl ip = map_option (\<lambda>i. tbl ! i) (find_client cfg tbl ip)"
  by (simp add: slot_map_def find_client_def table_inv_def)

lemma find_client_SomeD:
  assumes "table_inv cfg tbl" "find_client cfg tbl ip = Some i"
  shows "i < length tbl" "c_active (tbl ! i)" "c_ip (tbl ! i) = ip" "client_inv cfg (tbl ! i)"
  using assms by (auto simp: find_client_def table_inv_def dest!: first_index_SomeD)

lemma alloc_scan_Inl:
  "alloc_scan tbl i n old = Inl k \<Longrightarrow> i \<le> k \<and> k < i + n \<and> \<not> c_active (tbl ! k)"
  by (induction tbl i n old rule: alloc_scan.induct) (auto split: if_splits)

lemma alloc_scan_Inr_None: "alloc_scan tbl i n old = Inr None \<Longrightarrow> n = 0 \<and> old = None"
  by (induction tbl i n old rule: alloc_scan.induct) (auto split: if_splits option.splits)

lemma alloc_scan_Inr_Some:
  "alloc_scan tbl i n old = Inr (Some k) \<Longrightarrow>
     (old = Some k \<or> i \<le> k \<and> k < i + n) \<and>
     (\<forall>j. i \<le> j \<and> j < i + n \<longrightarrow> c_active (tbl ! j) \<and> last_knock (tbl ! k) \<le> last_knock (tbl ! j)) \<and>
     (\<forall>j. old = Some j \<longrightarrow> last_knock (tbl ! k) \<le> last_knock (tbl ! j))"
proof (induction tbl i n old rule: alloc_scan.induct)
  case (1 tbl i old)
  then show ?case by auto
next
  case (2 tbl i n old)
  let ?old = "case old of None \<Rightarrow> Some i
     | Some k \<Rightarrow> if last_knock (tbl ! i) < last_knock (tbl ! k) then Some i else old"
  from "2.prems" have act: "c_active (tbl ! i)" and rec: "alloc_scan tbl (Suc i) n ?old = Inr (Some k)"
    by (auto split: if_splits)
  note IH = "2.IH" [simplified, OF act rec]
  have le_i: "last_knock (tbl ! k) \<le> last_knock (tbl ! i)"
    using IH by (auto split: option.splits if_splits)
  have "old = Some k \<or> i \<le> k \<and> k < i + Suc n" using IH by (auto split: option.splits if_splits)
  moreover have "c_active (tbl ! j) \<and> last_knock (tbl ! k) \<le> last_knock (tbl ! j)"
    if "i \<le> j" "j < i + Suc n" for j
    using that IH act le_i by (cases "j = i") auto
  moreover have "last_knock (tbl ! k) \<le> last_knock (tbl ! j)" if "old = Some j" for j
    using that IH le_i by (auto split: if_splits)
  ultimately show ?case by blast
qed

text \<open>A declarative reading of the scan: the first free slot, or else the first entry that nobody
  is older than.\<close>

definition oldest_at :: "client_table \<Rightarrow> nat \<Rightarrow> nat \<Rightarrow> bool" where
  "oldest_at tbl n i \<longleftrightarrow> (\<forall>j<n. last_knock (tbl ! i) \<le> last_knock (tbl ! j))"

lemma alloc_scan_Inl_first:
  "alloc_scan tbl i n old = Inl k \<Longrightarrow> first_index (\<lambda>i. \<not> c_active (tbl ! i)) i n = Some k"
  by (induction tbl i n old rule: alloc_scan.induct) (auto split: if_splits)

lemma alloc_scan_first_oldest:
  "alloc_scan tbl i n old = Inr (Some k) \<Longrightarrow>
     (\<forall>j. i \<le> j \<and> j < k \<longrightarrow> last_knock (tbl ! k) < last_knock (tbl ! j)) \<or> old = Some k"
  "alloc_scan tbl i n old = Inr (Some k) \<Longrightarrow> old = Some m \<Longrightarrow> k = m \<or> last_knock (tbl ! k) < last_knock (tbl ! m)"
proof (induction tbl i n old arbitrary: m rule: alloc_scan.induct)
  case (2 tbl i n old)
  let ?old = "case old of None \<Rightarrow> Some i
     | Some k \<Rightarrow> if last_knock (tbl ! i) < last_knock (tbl ! k) then Some i else old"
  { case 1
    then have act: "c_active (tbl ! i)" and rec: "alloc_scan tbl (Suc i) n ?old = Inr (Some k)"
      by (auto split: if_splits)
    note IH = "2.IH"(1) [simplified, OF act rec] and IH2 = "2.IH"(2) [simplified, OF act rec]
    consider "?old = Some k" | "\<forall>j. Suc i \<le> j \<and> j < k \<longrightarrow> last_knock (tbl ! k) < last_knock (tbl ! j)"
      using IH by blast
    then show ?case
    proof cases
      case 1
      then show ?thesis by (auto split: option.splits if_splits)
    next
      case 2
      show ?thesis
      proof (cases "?old = Some i")
        case True
        then have "k = i \<or> last_knock (tbl ! k) < last_knock (tbl ! i)" using IH2 by blast
        with 2 show ?thesis by (metis Suc_leI le_neq_implies_less less_irrefl)
      next
        case False
        then obtain m where m: "old = Some m" "\<not> last_knock (tbl ! i) < last_knock (tbl ! m)" "?old = Some m"
          by (auto split: option.splits if_splits)
        then have "k = m \<or> last_knock (tbl ! k) < last_knock (tbl ! m)" using IH2 by blast
        with 2 m show ?thesis by (metis Suc_leI le_neq_implies_less not_less order.strict_trans2)
      qed
    qed
  next
    case 2
    then have act: "c_active (tbl ! i)" and rec: "alloc_scan tbl (Suc i) n ?old = Inr (Some k)"
      by (auto split: if_splits)
    from "2.IH"(2) [simplified, OF act rec] 2 show ?case by (fastforce split: if_splits)
  }
qed auto

lemma alloc_scan_reference:
  "alloc_scan tbl 0 n None = (case first_index (\<lambda>i. \<not> c_active (tbl ! i)) 0 n of
     Some i \<Rightarrow> Inl i | None \<Rightarrow> Inr (first_index (oldest_at tbl n) 0 n))"
proof (cases "alloc_scan tbl 0 n None")
  case (Inl k)
  with alloc_scan_Inl_first [OF Inl] show ?thesis by simp
next
  case (Inr r)
  show ?thesis
  proof (cases r)
    case None
    with alloc_scan_Inr_None [of tbl 0 n None] Inr show ?thesis by simp
  next
    case (Some k)
    note a = alloc_scan_Inr_Some [OF Inr [unfolded Some]]
    have first: "\<forall>j<k. last_knock (tbl ! k) < last_knock (tbl ! j)"
      using alloc_scan_first_oldest(1) [OF Inr [unfolded Some]] by simp
    have "first_index (\<lambda>i. \<not> c_active (tbl ! i)) 0 n = None" using a by (simp add: first_index_None_iff)
    moreover have "first_index (oldest_at tbl n) 0 n = Some k"
      by (rule first_index_SomeI) (use a first in \<open>auto simp: oldest_at_def not_le\<close>)
    ultimately show ?thesis using Inr Some by simp
  qed
qed

lemma alloc_client_cases:
  assumes inv: "table_inv cfg tbl" and pos: "0 < MAX_CLIENTS cfg"
  obtains (full) ls where "alloc_client cfg now tbl = (None, ls)" "table_full cfg now tbl"
  | (slot) i ls where "alloc_client cfg now tbl = (Some (i, tbl[i := zero_client]), ls)" "i < length tbl"
      "\<not> c_active (tbl ! i) \<or> now - last_knock (tbl ! i) > KNOCK_WINDOW cfg"
proof (cases "alloc_scan tbl 0 (nat (MAX_CLIENTS cfg)) None")
  case (Inl i)
  with alloc_scan_Inl [OF Inl] inv show ?thesis
    by (intro slot [of i]) (auto simp: alloc_client_def table_inv_def)
next
  case (Inr r)
  then obtain k where r: "r = Some k" using pos by (cases r) (auto dest: alloc_scan_Inr_None)
  note old = alloc_scan_Inr_Some [OF Inr [unfolded r]]
  have k: "k < length tbl" using old inv by (simp add: table_inv_def)
  have all: "c_active (tbl ! j) \<and> last_knock (tbl ! k) \<le> last_knock (tbl ! j)" if "j < length tbl" for j
    using old inv that by (simp add: table_inv_def)
  show ?thesis
  proof (cases "now - last_knock (tbl ! k) \<le> KNOCK_WINDOW cfg")
    case True
    have "c_active (tbl ! j) \<and> now - last_knock (tbl ! j) \<le> KNOCK_WINDOW cfg" if "j < length tbl" for j
      using all [OF that] True by linarith
    then have "table_full cfg now tbl" unfolding table_full_def all_set_conv_all_nth by blast
    with True Inr r show ?thesis by (intro full) (simp_all add: alloc_client_def)
  next
    case False
    with Inr r k show ?thesis by (intro slot [of k]) (simp_all add: alloc_client_def)
  qed
qed

section \<open>Refinement\<close>

lemma valid_configD:
  assumes "valid_config cfg"
  shows "2 \<le> KNOCK_SEQ_LEN cfg" "KNOCK_SEQ_LEN cfg \<le> length (KNOCK_SEQUENCE cfg)"
    "0 < MAX_CLIENTS cfg" "0 < KNOCK_WINDOW cfg" "length (knock_seq cfg) = KNOCK_SEQ_LEN cfg"
    "hd (knock_seq cfg) = KNOCK_SEQUENCE cfg ! 0"
proof -
  show *: "2 \<le> KNOCK_SEQ_LEN cfg" "KNOCK_SEQ_LEN cfg \<le> length (KNOCK_SEQUENCE cfg)"
    "0 < MAX_CLIENTS cfg" "0 < KNOCK_WINDOW cfg"
    using assms by (auto simp: valid_config_def config_wf_def)
  then show "length (knock_seq cfg) = KNOCK_SEQ_LEN cfg" by simp
  show "hd (knock_seq cfg) = KNOCK_SEQUENCE cfg ! 0"
    using * by (subst hd_conv_nth) auto
qed

lemma knock_seq_distinct:
  assumes "valid_config cfg" "i < KNOCK_SEQ_LEN cfg" "j < KNOCK_SEQ_LEN cfg" "i \<noteq> j"
  shows "KNOCK_SEQUENCE cfg ! i \<noteq> KNOCK_SEQUENCE cfg ! j"
proof -
  have "distinct (knock_seq cfg)" using assms(1) by (simp add: valid_config_def)
  with assms valid_configD(5) [OF assms(1)] show ?thesis
    by (metis nth_eq_iff_index_eq nth_take)
qed

lemma knock_seq_nonzero:
  assumes "valid_config cfg" "i < KNOCK_SEQ_LEN cfg"
  shows "KNOCK_SEQUENCE cfg ! i \<noteq> 0"
proof -
  have "knock_seq cfg ! i \<in> set (knock_seq cfg)"
    using assms valid_configD(5) [OF assms(1)] by (metis nth_mem)
  with assms show ?thesis by (auto simp: valid_config_def)
qed

lemma advance_client_refines:
  assumes cfg: "valid_config cfg" and inv: "client_inv cfg c" and act: "c_active c"
    and adv: "advance_client cfg now ip port c = (r, c', ls)"
  shows "spec_knock cfg now port (Some (abs_client c)) = (r, if c_active c' then Some (abs_client c') else None)"
    and "c_ip c' = c_ip c" and "c_active c' \<Longrightarrow> client_inv cfg c'"
proof -
  let ?k = "current_step c" and ?seq = "KNOCK_SEQUENCE cfg"
  have k: "1 \<le> ?k" "?k < KNOCK_SEQ_LEN cfg" "last_port c = ?seq ! (?k - 1)"
    using inv by (auto simp: client_inv_def)
  have nth: "knock_seq cfg ! (?k - 1) = ?seq ! (?k - 1)" "knock_seq cfg ! ?k = ?seq ! ?k"
    using k valid_configD(2) [OF cfg] by auto
  note v = valid_configD [OF cfg]
  have sk: "spec_knock cfg now port (Some (abs_client c)) =
     (if port = last_port c \<and> now - last_knock c \<le> KNOCK_DEDUP_WINDOW then (KNOCK_IN_PROGRESS, Some (abs_client c))
      else if now - last_knock c \<le> KNOCK_WINDOW cfg \<and> port = ?seq ! ?k
      then (if ?k + 1 = KNOCK_SEQ_LEN cfg then (KNOCK_COMPLETE, None) else (KNOCK_IN_PROGRESS, Some (?k + 1, now)))
      else if port = ?seq ! 0 then (KNOCK_IN_PROGRESS, Some (1, now)) else (KNOCK_RESET, None))"
    by (simp only: spec_knock_def abs_client_def option.case prod.case v(5,6) nth k(3))
  let ?goal = "spec_knock cfg now port (Some (abs_client c)) = (r, if c_active c' then Some (abs_client c') else None)
     \<and> c_ip c' = c_ip c \<and> (c_active c' \<longrightarrow> client_inv cfg c')"
  consider (dedup) "port = last_port c" "now - last_knock c \<le> KNOCK_DEDUP_WINDOW"
    | (late) "\<not> (port = last_port c \<and> now - last_knock c \<le> KNOCK_DEDUP_WINDOW)" "\<not> now - last_knock c \<le> KNOCK_WINDOW cfg"
    | (timely) "\<not> (port = last_port c \<and> now - last_knock c \<le> KNOCK_DEDUP_WINDOW)" "now - last_knock c \<le> KNOCK_WINDOW cfg"
    by blast
  then have ?goal
  proof cases
    case dedup
    with adv have "r = KNOCK_IN_PROGRESS" "c' = c" by (simp_all add: advance_client_def)
    with dedup act inv show ?thesis unfolding sk by auto
  next
    case late
    show ?thesis
    proof (cases "port = ?seq ! 0")
      case True
      from adv late k(1) v(1) True have "r = KNOCK_IN_PROGRESS"
        "c' = c\<lparr>current_step := 1, last_knock := now, last_port := port\<rparr>"
        by (auto simp: advance_client_def split: if_splits)
      with True late act v(1) show ?thesis unfolding sk by (auto simp: abs_client_def client_inv_def)
    next
      case False
      from adv late k(1) False have "r = KNOCK_RESET" "c' = c\<lparr>current_step := 0, c_active := False\<rparr>"
        by (auto simp: advance_client_def split: if_splits)
      with False late show ?thesis unfolding sk by auto
    qed
  next
    case timely
    consider (nxt) "port = ?seq ! ?k" | (first) "port \<noteq> ?seq ! ?k" "port = ?seq ! 0"
      | (wrong) "port \<noteq> ?seq ! ?k" "port \<noteq> ?seq ! 0" by blast
    then show ?thesis
    proof cases
      case nxt
      show ?thesis
      proof (cases "?k + 1 = KNOCK_SEQ_LEN cfg")
        case True
        from adv timely nxt True have "r = KNOCK_COMPLETE" "\<not> c_active c'" "c_ip c' = c_ip c"
          by (auto simp: advance_client_def)
        with timely nxt True show ?thesis unfolding sk by auto
      next
        case False
        from adv timely nxt False k have "r = KNOCK_IN_PROGRESS"
          "c' = c\<lparr>current_step := ?k + 1, last_knock := now, last_port := port\<rparr>"
          by (auto simp: advance_client_def)
        with timely nxt False k act show ?thesis unfolding sk by (auto simp: abs_client_def client_inv_def)
      qed
    next
      case first
      from adv timely first have "r = KNOCK_IN_PROGRESS"
        "c' = c\<lparr>current_step := 1, last_knock := now, last_port := port\<rparr>"
        by (auto simp: advance_client_def)
      with timely first act v(1) show ?thesis unfolding sk by (auto simp: abs_client_def client_inv_def)
    next
      case wrong
      from adv timely wrong have "r = KNOCK_RESET" "c' = c\<lparr>c_active := False\<rparr>"
        by (auto simp: advance_client_def)
      with timely wrong show ?thesis unfolding sk by auto
    qed
  qed
  then show "spec_knock cfg now port (Some (abs_client c)) = (r, if c_active c' then Some (abs_client c') else None)"
    "c_ip c' = c_ip c" "c_active c' \<Longrightarrow> client_inv cfg c'" by blast+
qed

text \<open>A freshly claimed slot takes the first step.\<close>

lemma advance_fresh:
  assumes cfg: "valid_config cfg" and port: "port = KNOCK_SEQUENCE cfg ! 0"
  shows "\<exists>ls. advance_client cfg now ip port (zero_client\<lparr>c_ip := ip, c_active := True\<rparr>) =
     (KNOCK_IN_PROGRESS, \<lparr>c_ip = ip, current_step = 1, last_knock = now, last_port = port, c_active = True\<rparr>, ls)"
  using knock_seq_nonzero [OF cfg, of 0] valid_configD(1) [OF cfg]
  by (simp add: advance_client_def zero_client_def port)

text \<open>Updating one slot keeps the table's invariant if the new entry is in order.\<close>

lemma table_inv_update:
  assumes "table_inv cfg tbl" "slots_unique c_active c_ip (tbl[i := c])" "c_active c \<Longrightarrow> client_inv cfg c"
  shows "table_inv cfg (tbl[i := c])"
  using assms set_update_subset_insert [of tbl i c] by (auto simp: table_inv_def)

text \<open>A new client is turned away: it knocks the first port while every slot is a live sequence.\<close>

definition knock_refused :: "config \<Rightarrow> seconds \<Rightarrow> ipv4 \<Rightarrow> port \<Rightarrow> client_table \<Rightarrow> bool" where
  "knock_refused cfg now ip port tbl \<longleftrightarrow>
     client_map tbl ip = None \<and> port = hd (knock_seq cfg) \<and> table_full cfg now tbl"

text \<open>A tracked address: the slot is overwritten or released.\<close>

lemma process_locked_tracked:
  assumes cfg: "valid_config cfg" and inv: "table_inv cfg tbl"
    and found: "find_client cfg tbl ip = Some i"
    and res: "process_locked cfg now now_alloc ip port tbl = (r, tbl', ls)"
  shows "table_inv cfg tbl'"
    and "spec_knock cfg now port (abs_table tbl ip) = (r, abs_table tbl' ip)"
    and "ip' \<noteq> ip \<Longrightarrow> client_map tbl' ip' = client_map tbl ip'"
proof -
  note f = find_client_SomeD [OF inv found]
  obtain c' ls' where adv: "advance_client cfg now ip port (tbl ! i) = (r, c', ls')"
    and tbl': "tbl' = tbl[i := c']"
    using res found by (auto simp: process_locked_def split: prod.splits)
  note ref = advance_client_refines [OF cfg f(4,2) adv]
  have u: "slots_unique c_active c_ip tbl" using inv by (simp add: table_inv_def)
  have here: "client_map tbl ip = Some (tbl ! i)" using client_map_find [OF inv, of ip] found by simp
  have *: "slots_unique c_active c_ip tbl' \<and>
    client_map tbl' = (client_map tbl)(ip := if c_active c' then Some c' else None)"
  proof (cases "c_active c'")
    case True
    with client_slots.overwrite [OF u f(1,2) True] ref(2) f(3) show ?thesis by (simp add: tbl')
  next
    case False
    with client_slots.release [OF u f(1,2) False] f(3) show ?thesis by (simp add: tbl')
  qed
  show "table_inv cfg tbl'"
    unfolding tbl' by (rule table_inv_update [OF inv]) (use * ref(3) tbl' in auto)
  show "spec_knock cfg now port (abs_table tbl ip) = (r, abs_table tbl' ip)"
    using ref(1) by (simp add: abs_table_def here *)
  show "client_map tbl' ip' = client_map tbl ip'" if "ip' \<noteq> ip"
    using that by (simp add: *)
qed

text \<open>A new client that gets a slot: free, or of an expired entry.\<close>

lemma process_locked_new:
  assumes cfg: "valid_config cfg" and inv: "table_inv cfg tbl"
    and new: "client_map tbl ip = None" and port: "port = KNOCK_SEQUENCE cfg ! 0"
    and slot: "alloc_client cfg now_alloc tbl = (Some (i, tbl[i := zero_client]), l0)" "i < length tbl"
      "\<not> c_active (tbl ! i) \<or> now_alloc - last_knock (tbl ! i) > KNOCK_WINDOW cfg"
    and res: "process_locked cfg now now_alloc ip port tbl = (r, tbl', ls)"
  shows "table_inv cfg tbl'" and "r = KNOCK_IN_PROGRESS" and "abs_table tbl' ip = Some (1, now)"
    and "ip' \<noteq> ip \<Longrightarrow> client_map tbl' ip' = client_map tbl ip' \<or>
           client_map tbl' ip' = None \<and> expired cfg now_alloc (abs_table tbl ip')"
proof -
  define c where "c = \<lparr>c_ip = ip, current_step = 1, last_knock = now, last_port = port, c_active = True\<rparr>"
  let ?z = "tbl[i := zero_client]"
  have c: "c_active c" "c_ip c = ip" "abs_client c = (1, now)" "client_inv cfg c"
    using valid_configD(1) [OF cfg] by (simp_all add: c_def abs_client_def client_inv_def port)
  obtain ls' where "advance_client cfg now ip port (zero_client\<lparr>c_ip := ip, c_active := True\<rparr>) = (KNOCK_IN_PROGRESS, c, ls')"
    using advance_fresh [OF cfg port, of now ip] by (auto simp: c_def)
  moreover have "find_client cfg tbl ip = None" using client_map_find [OF inv, of ip] new by simp
  ultimately have r: "r = KNOCK_IN_PROGRESS" and tbl': "tbl' = ?z[i := c]"
    using res slot port by (auto simp: process_locked_def)
  have u: "slots_unique c_active c_ip tbl" using inv by (simp add: table_inv_def)
  have z: "\<not> c_active zero_client" by (simp add: zero_client_def)
  have "slots_unique c_active c_ip ?z \<and> client_map ?z =
      (if c_active (tbl ! i) then (client_map tbl)(c_ip (tbl ! i) := None) else client_map tbl)"
  proof (cases "c_active (tbl ! i)")
    case True
    with client_slots.release [OF u slot(2) True z] show ?thesis by simp
  next
    case False
    have uz: "slots_unique c_active c_ip ?z"
      by (rule client_slots.unique_update [OF u slot(2)]) (use z in simp)
    have "client_map ?z = client_map tbl"
      by (rule client_slots.map_update_eq [OF uz slot(2)])
         (use z in \<open>simp add: client_slots.others_free [OF u slot(2) False]\<close>)
    with uz False show ?thesis by simp
  qed
  then have uz: "slots_unique c_active c_ip ?z" and mz: "client_map ?z =
      (if c_active (tbl ! i) then (client_map tbl)(c_ip (tbl ! i) := None) else client_map tbl)" by auto
  have cl: "slots_unique c_active c_ip (?z[i := c])" "client_map (?z[i := c]) = (client_map ?z)(ip \<mapsto> c)"
    using client_slots.claim [OF uz, of i c] slot(2) z c new mz by auto
  have "table_inv cfg ?z" by (rule table_inv_update [OF inv uz]) (use z in simp)
  then show "table_inv cfg tbl'" unfolding tbl' by (rule table_inv_update) (use cl c in auto)
  show "r = KNOCK_IN_PROGRESS" by (rule r)
  show "abs_table tbl' ip = Some (1, now)" unfolding tbl' abs_table_def cl using c by simp
  show "client_map tbl' ip' = client_map tbl ip' \<or>
        client_map tbl' ip' = None \<and> expired cfg now_alloc (abs_table tbl ip')" if "ip' \<noteq> ip"
  proof (cases "c_active (tbl ! i) \<and> c_ip (tbl ! i) = ip'")
    case True
    then have "client_map tbl ip' = Some (tbl ! i)"
      using slot(2) unfolding slot_map_Some_iff [OF u] by blast
    with True slot(3) that show ?thesis
      unfolding tbl' cl mz by (simp add: expired_def abs_table_def abs_client_def)
  next
    case False
    with that show ?thesis unfolding tbl' cl mz by auto
  qed
qed

lemma process_locked_simulation:
  assumes cfg: "valid_config cfg" and inv: "table_inv cfg tbl"
    and res: "process_locked cfg now now_alloc ip port tbl = (r, tbl', ls)"
  shows "table_inv cfg tbl'"
    and "if knock_refused cfg now_alloc ip port tbl then r = KNOCK_RESET \<and> tbl' = tbl
         else spec_knock cfg now port (abs_table tbl ip) = (r, abs_table tbl' ip)"
    and "ip' \<noteq> ip \<Longrightarrow> client_map tbl' ip' = client_map tbl ip' \<or>
           client_map tbl' ip' = None \<and> expired cfg now_alloc (abs_table tbl ip')"
proof -
  note v = valid_configD [OF cfg]
  let ?goal = "table_inv cfg tbl' \<and>
    (if knock_refused cfg now_alloc ip port tbl then r = KNOCK_RESET \<and> tbl' = tbl
     else spec_knock cfg now port (abs_table tbl ip) = (r, abs_table tbl' ip)) \<and>
    (\<forall>ip'. ip' \<noteq> ip \<longrightarrow> client_map tbl' ip' = client_map tbl ip' \<or>
           client_map tbl' ip' = None \<and> expired cfg now_alloc (abs_table tbl ip'))"
  have ?goal
  proof (cases "find_client cfg tbl ip")
    case (Some i)
    have "\<not> knock_refused cfg now_alloc ip port tbl"
      using client_map_find [OF inv, of ip] Some by (simp add: knock_refused_def)
    with process_locked_tracked [OF cfg inv Some res] show ?thesis by simp
  next
    case None
    then have new: "client_map tbl ip = None" using client_map_find [OF inv, of ip] by simp
    then have abs: "abs_table tbl ip = None" by (simp add: abs_table_def)
    show ?thesis
    proof (cases "port = KNOCK_SEQUENCE cfg ! 0")
      case False
      with res None have "r = KNOCK_RESET" "tbl' = tbl" by (auto simp: process_locked_def)
      with False inv abs show ?thesis unfolding spec_knock_def knock_refused_def v(6) by simp
    next
      case True
      from inv v(3) show ?thesis
      proof (cases rule: alloc_client_cases [where now = now_alloc])
        case (full l0)
        with res None True have "r = KNOCK_RESET" "tbl' = tbl" by (auto simp: process_locked_def)
        moreover have "knock_refused cfg now_alloc ip port tbl"
          unfolding knock_refused_def v(6) using new True full by blast
        ultimately show ?thesis using inv by simp
      next
        case (slot i l0)
        have "\<not> table_full cfg now_alloc tbl"
          using slot(2,3) unfolding table_full_def all_set_conv_all_nth by force
        then have "\<not> knock_refused cfg now_alloc ip port tbl" by (simp add: knock_refused_def)
        moreover have "spec_knock cfg now port None = (KNOCK_IN_PROGRESS, Some (1, now))"
          unfolding spec_knock_def v(6) using True by simp
        ultimately show ?thesis
          using process_locked_new [OF cfg inv new True slot res] abs by simp
      qed
    qed
  qed
  then show "table_inv cfg tbl'"
    and "if knock_refused cfg now_alloc ip port tbl then r = KNOCK_RESET \<and> tbl' = tbl
         else spec_knock cfg now port (abs_table tbl ip) = (r, abs_table tbl' ip)"
    and "ip' \<noteq> ip \<Longrightarrow> client_map tbl' ip' = client_map tbl ip' \<or>
           client_map tbl' ip' = None \<and> expired cfg now_alloc (abs_table tbl ip')" by blast+
qed

section \<open>Cleaning up\<close>

lemma cleanup_simulation:
  assumes inv: "table_inv cfg tbl"
    and res: "knocker_cleanup_stale cfg now (Some tbl) = Some (clients', ls)"
  obtains tbl' where "clients' = Some tbl'" "table_inv cfg tbl'"
    "\<And>ip. client_map tbl' ip = (case client_map tbl ip of
        None \<Rightarrow> None | Some c \<Rightarrow> if now - last_knock c > KNOCK_WINDOW cfg then None else Some c)"
proof -
  let ?t = "map (\<lambda>c. if is_stale cfg now c then c\<lparr>c_active := False\<rparr> else c) tbl"
  have len: "length tbl = nat (MAX_CLIENTS cfg)" and u: "slots_unique c_active c_ip tbl"
    using inv by (auto simp: table_inv_def)
  have "clients' = Some ?t" using res len by (auto simp: knocker_cleanup_stale_def Let_def)
  moreover have "table_inv cfg ?t"
    using inv client_slots.sweep(1) [OF u, of "is_stale cfg now"] by (auto simp: table_inv_def)
  moreover have "client_map ?t ip = (case client_map tbl ip of
        None \<Rightarrow> None | Some c \<Rightarrow> if now - last_knock c > KNOCK_WINDOW cfg then None else Some c)" for ip
    unfolding client_slots.sweep(2) [OF u]
    by (auto simp: is_stale_def dest: slot_map_SomeD split: option.split)
  ultimately show ?thesis by (rule that)
qed

lemma knocker_init_inv:
  "table_inv cfg (replicate (nat (MAX_CLIENTS cfg)) zero_client)"
  "client_map (replicate n zero_client) = Map.empty"
  by (simp_all add: table_inv_def slots_unique_replicate slot_map_replicate zero_client_def)

section \<open>Histories\<close>

text \<open>A run of the two operations the processor thread calls.  The history records every knock
  with its answer, newest first.\<close>

datatype knocker_call = Knock seconds seconds ipv4 port | Cleanup seconds

type_synonym knock_record = "seconds \<times> ipv4 \<times> port \<times> knock_result_t"

fun knocker_run ::
  "config \<Rightarrow> knocker_call list \<Rightarrow> knock_record list \<times> client_table option \<Rightarrow>
   (knock_record list \<times> client_table option) option" where
  "knocker_run cfg [] s = Some s"
| "knocker_run cfg (Knock now now_alloc ip port # calls) (h, clients) =
     (case knocker_process cfg now now_alloc ip port clients of
        None \<Rightarrow> None
      | Some (r, clients, _) \<Rightarrow> knocker_run cfg calls ((now, ip, port, r) # h, clients))"
| "knocker_run cfg (Cleanup now # calls) (h, clients) =
     (case knocker_cleanup_stale cfg now clients of
        None \<Rightarrow> None
      | Some (clients, _) \<Rightarrow> knocker_run cfg calls (h, clients))"

text \<open>The knocks of one address since its last completed sequence, newest first.\<close>

fun fresh_knocks :: "ipv4 \<Rightarrow> knock_record list \<Rightarrow> (seconds \<times> port) list" where
  "fresh_knocks ip [] = []"
| "fresh_knocks ip ((t, i, p, r) # h) =
     (if i \<noteq> ip then fresh_knocks ip h
      else if r = KNOCK_COMPLETE then [] else (t, p) # fresh_knocks ip h)"

text \<open>Consecutive times at most the knock window apart.\<close>

definition within_window :: "config \<Rightarrow> seconds list \<Rightarrow> bool" where
  "within_window cfg ts \<longleftrightarrow> successively (\<lambda>a b. b - a \<le> KNOCK_WINDOW cfg) ts"

text \<open>The first \<open>k\<close> ports were knocked in order, the last one at \<open>t\<close>, by knocks among \<open>ks\<close>.\<close>

definition knocked_prefix :: "config \<Rightarrow> nat \<Rightarrow> seconds \<Rightarrow> (seconds \<times> port) list \<Rightarrow> bool" where
  "knocked_prefix cfg k t ks \<longleftrightarrow>
     (\<exists>ts. length ts = k \<and> ts \<noteq> [] \<and> last ts = t \<and> within_window cfg ts \<and>
           subseq (rev (zip ts (take k (knock_seq cfg)))) ks)"

lemma knocked_prefix_mono: "knocked_prefix cfg k t ks \<Longrightarrow> knocked_prefix cfg k t (x # ks)"
  unfolding knocked_prefix_def by (elim exE, rule exI, elim conjE, intro conjI) (assumption | rule list_emb_Cons)+

lemma knocked_prefix_first:
  assumes "valid_config cfg" "p = hd (knock_seq cfg)"
  shows "knocked_prefix cfg 1 t ((t, p) # ks)"
proof -
  have "knock_seq cfg \<noteq> []" using valid_configD(1,5) [OF assms(1)] by force
  then have "take 1 (knock_seq cfg) = [p]" using assms(2) by (cases "knock_seq cfg") auto
  moreover have "within_window cfg [t]" by (simp add: within_window_def)
  ultimately show ?thesis unfolding knocked_prefix_def
    by (intro exI [of _ "[t]"]) (simp add: within_window_def)
qed

lemma knocked_prefix_next:
  assumes "knocked_prefix cfg k t ks" "k < length (knock_seq cfg)" "p = knock_seq cfg ! k"
    "now - t \<le> KNOCK_WINDOW cfg"
  shows "knocked_prefix cfg (k + 1) now ((now, p) # ks)"
proof -
  obtain ts where ts: "length ts = k" "ts \<noteq> []" "last ts = t" "within_window cfg ts"
    "subseq (rev (zip ts (take k (knock_seq cfg)))) ks"
    using assms(1) by (auto simp: knocked_prefix_def)
  have "take (k + 1) (knock_seq cfg) = take k (knock_seq cfg) @ [p]"
    using assms(2,3) by (metis Suc_eq_plus1 take_Suc_conv_app_nth)
  then have "rev (zip (ts @ [now]) (take (k + 1) (knock_seq cfg))) = (now, p) # rev (zip ts (take k (knock_seq cfg)))"
    using ts(1) assms(2) by (simp del: take_take)
  moreover have "within_window cfg (ts @ [now])"
    using ts(2-4) assms(4) by (simp add: within_window_def successively_append_iff)
  ultimately show ?thesis unfolding knocked_prefix_def
    using ts by (intro exI [of _ "ts @ [now]"]) (simp del: take_take)
qed

text \<open>What a history must show for each answer \<open>KNOCK_COMPLETE\<close> in it.\<close>

fun justified :: "config \<Rightarrow> knock_record list \<Rightarrow> bool" where
  "justified cfg [] = True"
| "justified cfg ((t, ip, p, r) # h) =
     ((r = KNOCK_COMPLETE \<longrightarrow> knocked_prefix cfg (length (knock_seq cfg)) t ((t, p) # fresh_knocks ip h)) \<and>
      justified cfg h)"

definition history_inv :: "config \<Rightarrow> knock_record list \<Rightarrow> client_table \<Rightarrow> bool" where
  "history_inv cfg h tbl \<longleftrightarrow> table_inv cfg tbl \<and> justified cfg h \<and>
     (\<forall>ip k t. abs_table tbl ip = Some (k, t) \<longrightarrow> knocked_prefix cfg k t (fresh_knocks ip h))"

lemma spec_knock_progress:
  assumes cfg: "valid_config cfg" and step: "spec_knock cfg now port st = (r, st')"
    and len: "\<And>k t. st = Some (k, t) \<Longrightarrow> k < length (knock_seq cfg)"
    and past: "\<And>k t. st = Some (k, t) \<Longrightarrow> knocked_prefix cfg k t ks"
  shows "r = KNOCK_COMPLETE \<Longrightarrow> knocked_prefix cfg (length (knock_seq cfg)) now ((now, port) # ks) \<and> st' = None"
    and "st' = Some (k', t') \<Longrightarrow> r \<noteq> KNOCK_COMPLETE \<and> knocked_prefix cfg k' t' ((now, port) # ks)"
proof -
  have "(r = KNOCK_COMPLETE \<longrightarrow> knocked_prefix cfg (length (knock_seq cfg)) now ((now, port) # ks) \<and> st' = None) \<and>
        (st' = Some (k', t') \<longrightarrow> r \<noteq> KNOCK_COMPLETE \<and> knocked_prefix cfg k' t' ((now, port) # ks))"
  proof (cases st)
    case None
    with step knocked_prefix_first [OF cfg, of port now ks] show ?thesis
      by (auto simp: spec_knock_def split: if_splits)
  next
    case (Some kt)
    obtain k t where kt: "kt = (k, t)" by fastforce
    have k: "k < length (knock_seq cfg)" and p: "knocked_prefix cfg k t ks"
      using len past Some kt by auto
    from step Some kt show ?thesis
      using knocked_prefix_first [OF cfg, of port now ks] knocked_prefix_mono [OF p]
        knocked_prefix_next [OF p k, of port now]
      by (auto simp: spec_knock_def simp del: length_take split: if_splits)
  qed
  then show "r = KNOCK_COMPLETE \<Longrightarrow> knocked_prefix cfg (length (knock_seq cfg)) now ((now, port) # ks) \<and> st' = None"
    and "st' = Some (k', t') \<Longrightarrow> r \<noteq> KNOCK_COMPLETE \<and> knocked_prefix cfg k' t' ((now, port) # ks)" by blast+
qed

lemma abs_table_step_bound:
  assumes "table_inv cfg tbl" "abs_table tbl ip = Some (k, t)"
  shows "1 \<le> k \<and> k < KNOCK_SEQ_LEN cfg"
proof -
  obtain c where "client_map tbl ip = Some c" "k = current_step c"
    using assms(2) by (auto simp: abs_table_def abs_client_def)
  with assms(1) show ?thesis by (auto simp: table_inv_def client_inv_def dest!: slot_map_SomeD)
qed

lemma history_inv_knock:
  assumes cfg: "valid_config cfg" and inv: "history_inv cfg h tbl"
    and res: "process_locked cfg now now_alloc ip port tbl = (r, tbl', ls)"
  shows "history_inv cfg ((now, ip, port, r) # h) tbl'"
proof -
  have tinv: "table_inv cfg tbl" and past: "\<And>ip k t. abs_table tbl ip = Some (k, t) \<Longrightarrow>
      knocked_prefix cfg k t (fresh_knocks ip h)" and just: "justified cfg h"
    using inv by (auto simp: history_inv_def)
  note sim = process_locked_simulation [OF cfg tinv res]
  have bound: "abs_table tbl i = Some (k, t) \<Longrightarrow> k < length (knock_seq cfg)" for i k t
    using abs_table_step_bound [OF tinv, of i k t] unfolding valid_configD(5) [OF cfg] by simp
  have others: "knocked_prefix cfg k t (fresh_knocks i ((now, ip, port, r) # h))"
    if "i \<noteq> ip" "abs_table tbl' i = Some (k, t)" for i k t
    using sim(3) [OF that(1)] that past [of i k t] by (auto simp: abs_table_def)
  show ?thesis
  proof (cases "knock_refused cfg now_alloc ip port tbl")
    case True
    then have "r = KNOCK_RESET" "tbl' = tbl" "abs_table tbl ip = None"
      using sim(2) by (auto simp: knock_refused_def abs_table_def)
    with just tinv others show ?thesis by (auto simp: history_inv_def)
  next
    case False
    with sim(2) have step: "spec_knock cfg now port (abs_table tbl ip) = (r, abs_table tbl' ip)" by simp
    note sp = spec_knock_progress [OF cfg step bound past]
    have own: "knocked_prefix cfg k t (fresh_knocks ip ((now, ip, port, r) # h))"
      if "abs_table tbl' ip = Some (k, t)" for k t
      using sp(2) [OF _ _ that] by simp
    have "justified cfg ((now, ip, port, r) # h)" using sp(1) just by auto
    moreover have "knocked_prefix cfg k t (fresh_knocks i ((now, ip, port, r) # h))"
      if "abs_table tbl' i = Some (k, t)" for i k t
      using that own others by (cases "i = ip") blast+
    ultimately show ?thesis using sim(1) unfolding history_inv_def by blast
  qed
qed

lemma history_inv_cleanup:
  assumes inv: "history_inv cfg h tbl"
    and res: "knocker_cleanup_stale cfg now (Some tbl) = Some (clients', ls)"
  obtains tbl' where "clients' = Some tbl'" "history_inv cfg h tbl'"
proof -
  have tinv: "table_inv cfg tbl" using inv by (simp add: history_inv_def)
  obtain tbl' where t: "clients' = Some tbl'" "table_inv cfg tbl'"
    and m: "\<And>ip. client_map tbl' ip = (case client_map tbl ip of
        None \<Rightarrow> None | Some c \<Rightarrow> if now - last_knock c > KNOCK_WINDOW cfg then None else Some c)"
    using cleanup_simulation [OF tinv res] by blast
  have "abs_table tbl' ip = Some (k, t) \<Longrightarrow> abs_table tbl ip = Some (k, t)" for ip k t
    by (auto simp: abs_table_def m split: option.splits if_splits)
  with inv t show ?thesis by (intro that [OF t(1)]) (auto simp: history_inv_def)
qed

lemma knocker_run_history:
  assumes cfg: "valid_config cfg"
  shows "history_inv cfg h tbl \<Longrightarrow>
     \<exists>h' tbl'. knocker_run cfg calls (h, Some tbl) = Some (h', Some tbl') \<and> history_inv cfg h' tbl'"
proof (induction calls arbitrary: h tbl)
  case Nil
  then show ?case by simp
next
  case (Cons call calls)
  show ?case
  proof (cases call)
    case (Knock now now_alloc ip port)
    obtain r tbl1 ls where p: "process_locked cfg now now_alloc ip port tbl = (r, tbl1, ls)"
      by (metis prod_cases3)
    from Cons.IH [OF history_inv_knock [OF cfg Cons.prems p]] Knock p show ?thesis
      by (simp add: knocker_process_def)
  next
    case (Cleanup now)
    obtain cl ls where p: "knocker_cleanup_stale cfg now (Some tbl) = Some (cl, ls)"
      by (auto simp: knocker_cleanup_stale_def Let_def)
    from history_inv_cleanup [OF Cons.prems p] obtain tbl1 where "cl = Some tbl1" "history_inv cfg h tbl1" .
    with Cons.IH Cleanup p show ?thesis by simp
  qed
qed

lemma history_inv_init: "history_inv cfg [] (replicate (nat (MAX_CLIENTS cfg)) zero_client)"
  by (simp add: history_inv_def knocker_init_inv abs_table_def)

lemma justified_complete:
  "justified cfg ((t, ip, p, KNOCK_COMPLETE) # h) \<Longrightarrow>
   knocked_prefix cfg (length (knock_seq cfg)) t ((t, p) # fresh_knocks ip h)"
  unfolding justified.simps by blast

lemma justified_append: "justified cfg (h1 @ h0) \<Longrightarrow> justified cfg h0"
  by (induction h1) auto

section \<open>A client that knocks correctly\<close>

text \<open>
  The calls of the processor from the moment \<open>ip\<close> stands at step \<open>k\<close> since time \<open>t\<close>, up to and
  including the knock that finishes its sequence.  In between there may be any knocks of other
  addresses, clean-up sweeps and retransmits of the last port, as long as the clock readings stay
  within the window of the client's last step.
\<close>

fun follows :: "config \<Rightarrow> ipv4 \<Rightarrow> nat \<Rightarrow> seconds \<Rightarrow> knocker_call list \<Rightarrow> bool" where
  "follows cfg ip k t [] = False"
| "follows cfg ip k t (Cleanup now # calls) =
     (now - t \<le> KNOCK_WINDOW cfg \<and> follows cfg ip k t calls)"
| "follows cfg ip k t (Knock now now_alloc i p # calls) =
     (if i \<noteq> ip then now_alloc - t \<le> KNOCK_WINDOW cfg \<and> follows cfg ip k t calls
      else if p = knock_seq cfg ! (k - 1) then now - t \<le> KNOCK_DEDUP_WINDOW \<and> follows cfg ip k t calls
      else p = knock_seq cfg ! k \<and> now - t \<le> KNOCK_WINDOW cfg \<and>
           (if k + 1 = length (knock_seq cfg) then calls = [] else follows cfg ip (k + 1) now calls))"

lemma live_entry_kept:
  assumes cfg: "valid_config cfg" and inv: "table_inv cfg tbl"
    and res: "process_locked cfg now now_alloc i port tbl = (r, tbl', ls)" and "i \<noteq> ip"
    and live: "client_map tbl ip = Some c" "now_alloc - last_knock c \<le> KNOCK_WINDOW cfg"
  shows "client_map tbl' ip = Some c"
proof -
  have "ip \<noteq> i" using assms(4) by simp
  from process_locked_simulation(3) [OF cfg inv res this] live show ?thesis
    by (auto simp: expired_def abs_table_def abs_client_def)
qed

lemma follows_completes:
  assumes cfg: "valid_config cfg"
  shows "table_inv cfg tbl \<Longrightarrow> abs_table tbl ip = Some (k, t) \<Longrightarrow> follows cfg ip k t calls \<Longrightarrow>
     \<exists>t' p h' tbl'. knocker_run cfg calls (h, Some tbl) = Some ((t', ip, p, KNOCK_COMPLETE) # h', Some tbl')"
proof (induction calls arbitrary: h tbl k t)
  case Nil
  then show ?case by simp
next
  case (Cons call calls)
  show ?case
  proof (cases call)
    case (Cleanup now)
    obtain cl ls where p: "knocker_cleanup_stale cfg now (Some tbl) = Some (cl, ls)"
      by (auto simp: knocker_cleanup_stale_def Let_def)
    obtain tbl1 where t1: "cl = Some tbl1" "table_inv cfg tbl1"
      and m: "\<And>ip. client_map tbl1 ip = (case client_map tbl ip of
        None \<Rightarrow> None | Some c \<Rightarrow> if now - last_knock c > KNOCK_WINDOW cfg then None else Some c)"
      using cleanup_simulation [OF Cons.prems(1) p] by blast
    have "abs_table tbl1 ip = Some (k, t)" "follows cfg ip k t calls"
      using Cons.prems(2,3) Cleanup by (auto simp: abs_table_def m abs_client_def)
    from Cons.IH [OF t1(2) this] Cleanup p t1(1) show ?thesis by simp
  next
    case (Knock now now_alloc i port)
    obtain r tbl1 ls where p: "process_locked cfg now now_alloc i port tbl = (r, tbl1, ls)"
      by (metis prod_cases3)
    note sim = process_locked_simulation [OF cfg Cons.prems(1) p]
    have run: "knocker_run cfg (call # calls) (h, Some tbl) = knocker_run cfg calls ((now, i, port, r) # h, Some tbl1)"
      by (simp add: Knock knocker_process_def p)
    show ?thesis
    proof (cases "i = ip")
      case False
      from Cons.prems(2) obtain c where c: "client_map tbl ip = Some c" "abs_client c = (k, t)"
        by (auto simp: abs_table_def)
      have "client_map tbl1 ip = Some c"
        by (rule live_entry_kept [OF cfg Cons.prems(1) p False c(1)])
           (use Cons.prems(3) Knock False c(2) in \<open>auto simp: abs_client_def\<close>)
      then have "abs_table tbl1 ip = Some (k, t)" using c(2) by (simp add: abs_table_def)
      with Cons.IH [OF sim(1) this] Cons.prems(3) Knock False show ?thesis unfolding run by simp
    next
      case True
      have "\<not> knock_refused cfg now_alloc i port tbl"
        using Cons.prems(2) True by (auto simp: knock_refused_def abs_table_def)
      with sim(2) True Cons.prems(2) have step: "spec_knock cfg now port (Some (k, t)) = (r, abs_table tbl1 ip)" by simp
      show ?thesis
      proof (cases "port = knock_seq cfg ! (k - 1)")
        case retransmit: True
        with Cons.prems(3) Knock True have f: "now - t \<le> KNOCK_DEDUP_WINDOW" "follows cfg ip k t calls" by auto
        with step retransmit have "abs_table tbl1 ip = Some (k, t)" by (simp add: spec_knock_def)
        from Cons.IH [OF sim(1) this f(2)] show ?thesis unfolding run .
      next
        case False
        with Cons.prems(3) Knock True have f: "port = knock_seq cfg ! k" "now - t \<le> KNOCK_WINDOW cfg"
          "if k + 1 = length (knock_seq cfg) then calls = [] else follows cfg ip (k + 1) now calls" by auto
        show ?thesis
        proof (cases "k + 1 = length (knock_seq cfg)")
          case last: True
          from step False f(1,2) last have "r = KNOCK_COMPLETE" unfolding spec_knock_def by simp
          with f(3) last True show ?thesis unfolding run by simp
        next
          case more: False
          from step False f(1,2) more have "abs_table tbl1 ip = Some (k + 1, now)"
            unfolding spec_knock_def by simp
          with Cons.IH [OF sim(1) this] f(3) more show ?thesis unfolding run by simp
        qed
      qed
    qed
  qed
qed

section \<open>What the log gives away\<close>

fun mentions_port :: "knocker_msg \<Rightarrow> bool" where
  "mentions_port (Does_not_start_sequence ip p) = True"
| "mentions_port (Ignored_as_retransmit ip p) = True"
| "mentions_port (Progress_discarded ip p) = True"
| "mentions_port m = False"

lemma advance_client_log:
  "advance_client cfg now ip port c = (r, c', ls) \<Longrightarrow> (l, m) \<in> set ls \<Longrightarrow> mentions_port m \<Longrightarrow> l = LEVEL_DEBUG"
  by (auto simp: advance_client_def Let_def split: if_splits)

lemma alloc_client_log: "alloc_client cfg now tbl = (res, ls) \<Longrightarrow> (l, m) \<in> set ls \<Longrightarrow> \<not> mentions_port m"
  by (auto simp: alloc_client_def split: sum.splits option.splits if_splits)

lemma process_locked_log:
  "process_locked cfg now now_alloc ip port tbl = (r, tbl', ls) \<Longrightarrow> (l, m) \<in> set ls \<Longrightarrow>
   mentions_port m \<Longrightarrow> l = LEVEL_DEBUG"
  by (auto simp: process_locked_def Let_def split: option.splits prod.splits if_splits
      dest: advance_client_log alloc_client_log)

section \<open>Properties\<close>

text \<open>An empty table for the witnesses.\<close>

definition demo_table :: client_table where
  "demo_table = replicate 2 zero_client"

lemma demo_table_inv: "table_inv demo_config demo_table" "client_map demo_table = Map.empty"
  using knocker_init_inv(1) [of demo_config] knocker_init_inv(2) [of 2]
  by (simp_all add: demo_table_def demo_config_def)

text \<open>
  C17.  Soundness of \<open>KNOCK_COMPLETE\<close>.  In every run of the state machine from an empty table,
  whatever addresses knock in whatever order and whatever the clock does, the calls never touch
  an invalid table, and whenever a knock is answered with \<open>KNOCK_COMPLETE\<close> that address has
  knocked the whole sequence in order since its previous completion, with no gap longer than the
  window, ending with this knock.  One completed sequence is therefore worth exactly one grant.
\<close>

theorem complete_only_after_sequence:
  assumes "valid_config cfg"
  shows "\<exists>h tbl. knocker_run cfg calls ([], Some (replicate (nat (MAX_CLIENTS cfg)) zero_client)) = Some (h, Some tbl) \<and>
           table_inv cfg tbl \<and>
           (\<forall>h1 t ip p h0. h = h1 @ (t, ip, p, KNOCK_COMPLETE) # h0 \<longrightarrow>
              knocked_prefix cfg (length (knock_seq cfg)) t ((t, p) # fresh_knocks ip h0))"
proof -
  obtain h tbl where run: "knocker_run cfg calls ([], Some (replicate (nat (MAX_CLIENTS cfg)) zero_client)) = Some (h, Some tbl)"
    and inv: "history_inv cfg h tbl"
    using knocker_run_history [OF assms history_inv_init] by blast
  have "knocked_prefix cfg (length (knock_seq cfg)) t ((t, p) # fresh_knocks ip h0)"
    if "h = h1 @ (t, ip, p, KNOCK_COMPLETE) # h0" for h1 t ip p h0
  proof -
    have "justified cfg (h1 @ (t, ip, p, KNOCK_COMPLETE) # h0)"
      using inv unfolding history_inv_def that by blast
    then show ?thesis by (rule justified_complete [OF justified_append])
  qed
  with run inv show ?thesis unfolding history_inv_def by blast
qed

lemma attempt_completes:
  assumes cfg: "valid_config cfg" and inv: "table_inv cfg tbl"
    and new: "abs_table tbl ip = None" and room: "\<not> table_full cfg now_alloc tbl"
    and rest: "follows cfg ip 1 now calls"
  shows "\<exists>t p h' tbl'. knocker_run cfg (Knock now now_alloc ip (hd (knock_seq cfg)) # calls) (h, Some tbl) =
           Some ((t, ip, p, KNOCK_COMPLETE) # h', Some tbl')"
proof -
  obtain r tbl1 ls where p: "process_locked cfg now now_alloc ip (hd (knock_seq cfg)) tbl = (r, tbl1, ls)"
    by (metis prod_cases3)
  note sim = process_locked_simulation [OF cfg inv p]
  have "spec_knock cfg now (hd (knock_seq cfg)) None = (r, abs_table tbl1 ip)"
    using sim(2) room new by (simp add: knock_refused_def)
  then have "abs_table tbl1 ip = Some (1, now)" by (simp add: spec_knock_def)
  from follows_completes [OF cfg sim(1) this rest, of "(now, ip, hd (knock_seq cfg), r) # h"] show ?thesis
    by (simp add: knocker_process_def p)
qed

theorem complete_only_after_sequence_witness:
  "\<exists>h0 tbl t p. knocker_run demo_config [Knock 100 100 9 7000, Knock 101 101 5 7000, Knock 110 110 9 8000, Knock 120 120 9 9000]
      ([], Some (replicate (nat (MAX_CLIENTS demo_config)) zero_client)) = Some ((t, 9, p, KNOCK_COMPLETE) # h0, Some tbl) \<and>
     knocked_prefix demo_config (length (knock_seq demo_config)) t ((t, p) # fresh_knocks 9 h0)"
proof -
  let ?calls = "[Knock 101 101 5 7000, Knock 110 110 9 8000, Knock 120 120 9 9000]"
  have tbl: "replicate (nat (MAX_CLIENTS demo_config)) zero_client = demo_table" by (simp add: demo_table_def demo_config_def)
  have hd: "hd (knock_seq demo_config) = 7000" by (simp add: demo_config_def initial_config_def config_limits)
  have new: "abs_table demo_table 9 = None" by (simp add: abs_table_def demo_table_inv)
  have room: "\<not> table_full demo_config 100 demo_table" by (simp add: table_full_def demo_table_def zero_client_def)
  have rest: "follows demo_config 9 1 100 ?calls"
    by (simp add: demo_config_def initial_config_def config_limits KNOCK_DEDUP_WINDOW_def numeral_3_eq_3)
  obtain t p h0 tbl' where run: "knocker_run demo_config (Knock 100 100 9 7000 # ?calls) ([], Some demo_table) =
      Some ((t, 9, p, KNOCK_COMPLETE) # h0, Some tbl')"
    using attempt_completes [OF demo_config_valid demo_table_inv(1) new room rest, of "[]"] unfolding hd by blast
  obtain h tbl where "knocker_run demo_config (Knock 100 100 9 7000 # ?calls) ([], Some demo_table) = Some (h, Some tbl)"
    and c: "\<forall>h1 t ip p h0. h = h1 @ (t, ip, p, KNOCK_COMPLETE) # h0 \<longrightarrow>
      knocked_prefix demo_config (length (knock_seq demo_config)) t ((t, p) # fresh_knocks ip h0)"
    using complete_only_after_sequence [OF demo_config_valid, of "Knock 100 100 9 7000 # ?calls"] unfolding tbl by blast
  with run have "h = [] @ (t, 9, p, KNOCK_COMPLETE) # h0" by simp
  with c have "knocked_prefix demo_config (length (knock_seq demo_config)) t ((t, p) # fresh_knocks 9 h0)" by blast
  with run show ?thesis unfolding tbl by blast
qed

text \<open>
  Completeness.  An address that is not tracked knocks the first port while the table has a
  free or expired slot, and then the remaining ports in order, each within the window of the one
  before.  Whatever other addresses knock in between (including floods of first-port knocks),
  with clean-up sweeps and retransmits at any point, its last knock is answered
  \<open>KNOCK_COMPLETE\<close>.
\<close>

theorem sequence_completes:
  assumes cfg: "valid_config cfg" and inv: "table_inv cfg tbl"
    and new: "abs_table tbl ip = None" and room: "\<not> table_full cfg now_alloc tbl"
    and rest: "follows cfg ip 1 now calls"
  shows "\<exists>t p h' tbl'. knocker_run cfg (Knock now now_alloc ip (hd (knock_seq cfg)) # calls) (h, Some tbl) =
           Some ((t, ip, p, KNOCK_COMPLETE) # h', Some tbl')"
  by (rule attempt_completes [OF assms])

theorem sequence_completes_witness:
  "\<exists>t p h' tbl'. knocker_run demo_config
      [Knock 100 100 9 7000, Knock 101 101 5 7000, Knock 103 103 9 7000, Knock 110 110 9 8000,
       Cleanup 112, Knock 112 112 6 7000, Knock 120 120 9 9000]
      ([], Some demo_table) = Some ((t, 9, p, KNOCK_COMPLETE) # h', Some tbl')"
proof -
  have hd: "hd (knock_seq demo_config) = 7000"
    by (simp add: demo_config_def initial_config_def config_limits)
  have new: "abs_table demo_table 9 = None" by (simp add: abs_table_def demo_table_inv)
  have room: "\<not> table_full demo_config 100 demo_table"
    by (simp add: table_full_def demo_table_def zero_client_def)
  have rest: "follows demo_config 9 1 100 [Knock 101 101 5 7000, Knock 103 103 9 7000, Knock 110 110 9 8000,
       Cleanup 112, Knock 112 112 6 7000, Knock 120 120 9 9000]"
    by (simp add: demo_config_def initial_config_def config_limits KNOCK_DEDUP_WINDOW_def numeral_3_eq_3)
  show ?thesis
    using sequence_completes [OF demo_config_valid demo_table_inv(1) new room rest, of "[]"] unfolding hd .
qed

text \<open>
  C18.  Refinement.  One call of \<open>process_locked\<close> on the concrete table is one step of the
  abstract machine for the knocking address (unless a new client is turned away because the table
  is full of live sequences, which changes nothing); every other address keeps its entry, except
  that one whose window has passed may lose it.  The table's invariant is preserved.
\<close>

theorem process_locked_refines:
  assumes "valid_config cfg" and "table_inv cfg tbl"
    and "process_locked cfg now now_alloc ip port tbl = (r, tbl', ls)"
  shows "table_inv cfg tbl' \<and>
    (if knock_refused cfg now_alloc ip port tbl then r = KNOCK_RESET \<and> tbl' = tbl
     else spec_knock cfg now port (abs_table tbl ip) = (r, abs_table tbl' ip)) \<and>
    (\<forall>ip'. ip' \<noteq> ip \<longrightarrow> abs_table tbl' ip' = abs_table tbl ip' \<or>
       abs_table tbl' ip' = None \<and> expired cfg now_alloc (abs_table tbl ip'))"
proof -
  note sim = process_locked_simulation [OF assms]
  have "abs_table tbl' ip' = abs_table tbl ip' \<or>
       abs_table tbl' ip' = None \<and> expired cfg now_alloc (abs_table tbl ip')" if "ip' \<noteq> ip" for ip'
    using sim(3) [OF that] by (auto simp: abs_table_def)
  with sim(1,2) show ?thesis by simp
qed

theorem process_locked_refines_witness:
  "\<exists>r tbl' ls. process_locked demo_config 100 100 9 7000 demo_table = (r, tbl', ls) \<and> table_inv demo_config tbl'"
proof -
  obtain r tbl' ls where p: "process_locked demo_config 100 100 9 7000 demo_table = (r, tbl', ls)"
    by (metis prod_cases3)
  with process_locked_refines [OF demo_config_valid demo_table_inv(1) p] show ?thesis by blast
qed

text \<open>
  A live sequence cannot be evicted: while the clock is within the window of an address's
  last accepted knock, no knock of any other address changes its entry, even when the table is
  full.
\<close>

theorem live_sequence_not_evicted:
  assumes "valid_config cfg" and "table_inv cfg tbl"
    and "process_locked cfg now now_alloc ip port tbl = (r, tbl', ls)"
    and "ip \<noteq> victim" and "client_map tbl victim = Some c"
    and "now_alloc - last_knock c \<le> KNOCK_WINDOW cfg"
  shows "client_map tbl' victim = Some c"
  by (rule live_entry_kept [OF assms])

theorem live_sequence_not_evicted_witness:
  "\<exists>r tbl' ls. process_locked demo_config 110 110 9 7000
        [\<lparr>c_ip = 4, current_step = 2, last_knock = 99, last_port = 8000, c_active = True\<rparr>,
         \<lparr>c_ip = 5, current_step = 1, last_knock = 98, last_port = 7000, c_active = True\<rparr>] = (r, tbl', ls) \<and>
      client_map tbl' 4 = Some \<lparr>c_ip = 4, current_step = 2, last_knock = 99, last_port = 8000, c_active = True\<rparr>"
proof -
  let ?c = "\<lparr>c_ip = 4, current_step = 2, last_knock = 99, last_port = 8000, c_active = True\<rparr> :: knock_client_t"
  let ?t = "[?c, \<lparr>c_ip = 5, current_step = 1, last_knock = 98, last_port = 7000, c_active = True\<rparr>]"
  have inv: "table_inv demo_config ?t"
    by (simp add: table_inv_def client_inv_def slots_unique_def demo_config_def initial_config_def
        config_limits less_Suc_eq numeral_2_eq_2)
  have m: "client_map ?t 4 = Some ?c" by (simp add: slot_map_def numeral_2_eq_2)
  have w: "110 - last_knock ?c \<le> KNOCK_WINDOW demo_config"
    by (simp add: demo_config_def initial_config_def config_limits)
  obtain r tbl' ls where p: "process_locked demo_config 110 110 9 7000 ?t = (r, tbl', ls)"
    by (metis prod_cases3)
  from live_sequence_not_evicted [OF demo_config_valid inv p _ m w] p show ?thesis by simp
qed

text \<open>
  C35.  \<open>knocker_cleanup_stale\<close> removes exactly the entries whose window has passed: an address
  keeps its entry unchanged if its last knock is recent and has none afterwards otherwise.
\<close>

theorem cleanup_removes_exactly_stale:
  assumes "table_inv cfg tbl" and "knocker_cleanup_stale cfg now (Some tbl) = Some (clients', ls)"
  shows "\<exists>tbl'. clients' = Some tbl' \<and> table_inv cfg tbl' \<and>
     (\<forall>ip. client_map tbl' ip = (case client_map tbl ip of
        None \<Rightarrow> None | Some c \<Rightarrow> if now - last_knock c > KNOCK_WINDOW cfg then None else Some c))"
  using cleanup_simulation [OF assms] by blast

text \<open>Two sequences in progress: the one that is 400 seconds old goes, the one that is 5 seconds old stays.\<close>

theorem cleanup_removes_exactly_stale_witness:
  "\<exists>tbl' ls. knocker_cleanup_stale demo_config 500
       (Some [\<lparr>c_ip = 9, current_step = 1, last_knock = 100, last_port = 7000, c_active = True\<rparr>,
              \<lparr>c_ip = 5, current_step = 1, last_knock = 495, last_port = 7000, c_active = True\<rparr>]) = Some (Some tbl', ls) \<and>
     client_map tbl' 9 = None \<and> client_map tbl' 5 \<noteq> None"
proof -
  let ?a = "\<lparr>c_ip = 9, current_step = 1, last_knock = 100, last_port = 7000, c_active = True\<rparr>"
  let ?b = "\<lparr>c_ip = 5, current_step = 1, last_knock = 495, last_port = 7000, c_active = True\<rparr>"
  have p: "nat (MAX_CLIENTS demo_config) = 2" "KNOCK_WINDOW demo_config = 15" "KNOCK_SEQ_LEN demo_config = 3" "KNOCK_SEQUENCE demo_config ! 0 = 7000"
    by (simp_all add: demo_config_def initial_config_def config_limits)
  have u: "slots_unique c_active c_ip [?a, ?b]" by (simp add: slots_unique_def less_Suc_eq)
  then have inv: "table_inv demo_config [?a, ?b]" by (simp add: table_inv_def client_inv_def p)
  have m: "client_map [?a, ?b] 9 = Some ?a" "client_map [?a, ?b] 5 = Some ?b"
    unfolding slot_map_Some_iff [OF u] by (auto simp: less_Suc_eq)
  obtain cl ls where c: "knocker_cleanup_stale demo_config 500 (Some [?a, ?b]) = Some (cl, ls)"
    by (auto simp: knocker_cleanup_stale_def Let_def)
  from cleanup_removes_exactly_stale [OF inv c] c m p(2) show ?thesis by auto
qed

text \<open>
  The knock ports stay out of the log at the default level: every message of a call that
  names a port is logged at debug level, so with \<open>LOG_LEVEL\<close> at most 2 it produces no output.
\<close>

theorem ports_only_in_debug_log:
  assumes "process_locked cfg now now_alloc ip port tbl = (r, tbl', ls)"
    and "(l, m) \<in> set ls" and "mentions_port m" and "LOG_LEVEL cfg \<le> 2"
  shows "log_msg (LOG_LEVEL cfg) st tm l body = []"
  using process_locked_log [OF assms(1-3)] assms(4) by (simp add: log_msg_def)

theorem ports_only_in_debug_log_witness:
  "\<exists>ls. process_locked demo_config 100 100 9 8000 demo_table = (KNOCK_RESET, demo_table, ls) \<and>
     (LEVEL_DEBUG, Does_not_start_sequence 9 8000) \<in> set ls \<and>
     log_msg (LOG_LEVEL demo_config) \<lparr>g_use_syslog = False\<rparr> None LEVEL_DEBUG ''9 knocked port 8000'' = []"
proof -
  have f: "find_client demo_config demo_table 9 = None"
    using client_map_find [OF demo_table_inv(1), of 9] by (simp add: demo_table_inv(2))
  have p: "process_locked demo_config 100 100 9 8000 demo_table =
    (KNOCK_RESET, demo_table, [(LEVEL_DEBUG, Does_not_start_sequence 9 8000)])"
    by (simp add: process_locked_def f) (simp add: demo_config_def initial_config_def config_limits)
  have "LOG_LEVEL demo_config \<le> 2" by (simp add: demo_config_def initial_config_def config_limits)
  with ports_only_in_debug_log [OF p, of LEVEL_DEBUG "Does_not_start_sequence 9 8000"] p show ?thesis by simp
qed

text \<open>
  C37.  The duplicate filter can swallow the first knock of a fresh attempt.  A client that stands
  at step 1 since \<open>t0\<close> and starts over at \<open>t1\<close>, at most five seconds later, has that knock
  ignored and its clock not restarted; if it then knocks the second port within the window of its
  own first knock (\<open>t2 - t1\<close>) but outside the window of the forgotten one (\<open>t2 - t0\<close>), the knock
  is answered \<open>KNOCK_RESET\<close>.
\<close>

theorem restart_swallowed_by_dedup:
  assumes cfg: "valid_config cfg" and inv: "table_inv cfg tbl"
    and at: "abs_table tbl ip = Some (1, t0)"
    and t1: "t1 - t0 \<le> 5" and t2: "t2 - t1 \<le> KNOCK_WINDOW cfg" "KNOCK_WINDOW cfg < t2 - t0" "5 < t2 - t0"
  shows "\<exists>tbl'. knocker_run cfg [Knock t1 t1 ip (knock_seq cfg ! 0), Knock t2 t2 ip (knock_seq cfg ! 1)] (h, Some tbl) =
     Some ((t2, ip, knock_seq cfg ! 1, KNOCK_RESET) # (t1, ip, knock_seq cfg ! 0, KNOCK_IN_PROGRESS) # h, Some tbl')"
proof -
  note v = valid_configD [OF cfg]
  have ne: "knock_seq cfg ! 1 \<noteq> knock_seq cfg ! 0"
    using knock_seq_distinct [OF cfg, of 1 0] v(1) by simp
  have hd: "hd (knock_seq cfg) = knock_seq cfg ! 0" using v(1) unfolding v(6) by simp
  have track: "\<not> knock_refused cfg n i p t" if "abs_table t i = Some x" for n i p t x
    using that by (auto simp: knock_refused_def abs_table_def)
  obtain r1 tbl1 l1 where p1: "process_locked cfg t1 t1 ip (knock_seq cfg ! 0) tbl = (r1, tbl1, l1)"
    by (metis prod_cases3)
  have s1: "spec_knock cfg t1 (knock_seq cfg ! 0) (Some (1, t0)) = (r1, abs_table tbl1 ip)"
    using process_locked_simulation(2) [OF cfg inv p1] track [OF at] at by simp
  have r1: "r1 = KNOCK_IN_PROGRESS" "abs_table tbl1 ip = Some (1, t0)"
    using s1 t1 unfolding spec_knock_def by (simp_all add: KNOCK_DEDUP_WINDOW_def)
  obtain r2 tbl2 l2 where p2: "process_locked cfg t2 t2 ip (knock_seq cfg ! 1) tbl1 = (r2, tbl2, l2)"
    by (metis prod_cases3)
  have "spec_knock cfg t2 (knock_seq cfg ! 1) (Some (1, t0)) = (r2, abs_table tbl2 ip)"
    using process_locked_simulation(2) [OF cfg process_locked_simulation(1) [OF cfg inv p1] p2]
      track [OF r1(2)] r1(2) by simp
  then have "r2 = KNOCK_RESET" using t2 ne unfolding spec_knock_def hd by simp
  with r1 p1 p2 show ?thesis by (simp add: knocker_process_def)
qed

theorem restart_swallowed_by_dedup_witness:
  "\<exists>h tbl'. knocker_run demo_config [Knock 104 104 9 7000, Knock 116 116 9 8000]
     ([], Some [\<lparr>c_ip = 9, current_step = 1, last_knock = 100, last_port = 7000, c_active = True\<rparr>, zero_client]) =
     Some ((116, 9, 8000, KNOCK_RESET) # h, Some tbl')"
proof -
  let ?t = "[\<lparr>c_ip = 9, current_step = 1, last_knock = 100, last_port = 7000, c_active = True\<rparr>, zero_client]"
  have inv: "table_inv demo_config ?t"
    by (simp add: table_inv_def client_inv_def slots_unique_def demo_config_def initial_config_def
        config_limits zero_client_def less_Suc_eq numeral_2_eq_2)
  have at: "abs_table ?t 9 = Some (1, 100)"
    by (simp add: abs_table_def slot_map_def abs_client_def numeral_2_eq_2)
  have seq: "knock_seq demo_config ! 0 = 7000" "knock_seq demo_config ! 1 = 8000" "KNOCK_WINDOW demo_config = 15"
    by (simp_all add: demo_config_def initial_config_def config_limits)
  have "\<exists>tbl'. knocker_run demo_config [Knock 104 104 9 7000, Knock 116 116 9 8000] ([], Some ?t) =
     Some ((116, 9, 8000, KNOCK_RESET) # (104, 9, 7000, KNOCK_IN_PROGRESS) # [], Some tbl')"
    by (rule restart_swallowed_by_dedup [OF demo_config_valid inv at, of 104 116 "[]", unfolded seq]) simp_all
  then show ?thesis by blast
qed

text \<open>
  C38.  The single pass of \<open>alloc_client\<close> that looks for a free slot and keeps the oldest entry on
  the way gives what two separate searches would: the first free slot if there is one, and
  otherwise the first of the entries with the smallest time stamp.
\<close>

theorem alloc_scan_equiv_search:
  "alloc_scan tbl 0 n None = (case first_index (\<lambda>i. \<not> c_active (tbl ! i)) 0 n of
     Some i \<Rightarrow> Inl i | None \<Rightarrow> Inr (first_index (oldest_at tbl n) 0 n))"
  by (rule alloc_scan_reference)

end
