(* ===== verification/Firewall.thy ===== *)
theory Firewall
  imports Config Slot_Table
begin

text \<open>
  \<open>src/firewall.c\<close>: the table of time-limited grants and the iptables commands that put them
  into force.  iptables itself is not part of the program: it is a parameter \<open>ipt\<close> that takes an
  argument vector and a system state and says how the child process ended.  What the theorems
  rely on is the hypothesis \<open>iptables_ok\<close>: a command that exits with status 0 had its documented
  effect, one that exits with another status changed nothing, and one that was killed either did
  or did not take effect.  Every operation runs on the processor thread, so one call is one step.
\<close>

section \<open>Running iptables\<close>

definition IPTABLES_PATH :: string where "IPTABLES_PATH = ''/usr/sbin/iptables''"
definition KNOCKD_CHAIN :: string where "KNOCKD_CHAIN = ''KNOCKD''"
definition IPTABLES_WAIT :: string where "IPTABLES_WAIT = ''5''"
definition MAX_EXPIRY_PER_TICK :: nat where "MAX_EXPIRY_PER_TICK = 16"

text \<open>How \<open>waitpid\<close> describes the end of a child, and what became of one \<open>fork\<close>/\<open>execv\<close>: the
  list holds the \<open>errno\<close> values of the \<open>waitpid\<close> calls that failed before one succeeded.\<close>

datatype wait_status = Exited nat | Signaled nat | Other_status

datatype child_run = Fork_failed | Exec_failed "int list" | Ran "int list" wait_status

type_synonym 'k iptables = "string list \<Rightarrow> 'k \<Rightarrow> child_run \<times> 'k"

datatype firewall_msg =
    Inet_ntop_failed
  | Running string
  | Fork_error
  | Waitpid_error
  | Could_not_execute
  | Exited_with nat
  | Killed_by nat
  | Grant_table_alloc_failed int
  | Chain_setup_failed
  | Jump_insert_failed
  | Jump_inserted
  | Jump_left_in_place
  | Firewall_ready
  | Open_before_init
  | Grant_slots_in_use int ipv4
  | Access_extended ipv4 int
  | Could_not_open int ipv4
  | Port_open int ipv4 int
  | No_grant_to_close ipv4
  | Could_not_remove_rule ipv4
  | Port_closed int ipv4
  | Access_expired ipv4 int
  | Could_not_remove_expired_rule ipv4
  | Chain_flush_failed
  | Jump_removal_failed
  | Removed_firewall_rules

definition ip_to_str :: "ipv4 \<Rightarrow> nat \<Rightarrow> string option \<times> firewall_msg logs" where
  "ip_to_str ip buflen =
     (if length (inet_ntop ip) < buflen then (Some (inet_ntop ip), [])
      else (None, [(LEVEL_ERROR, Inet_ntop_failed)]))"

text \<open>The command line shown at debug level: \<open>i\<close> counts the arguments and \<open>cmd\<close> holds the
  \<open>off\<close> bytes written so far to the 256-byte buffer.\<close>

fun debug_cmd :: "nat \<Rightarrow> string \<Rightarrow> string list \<Rightarrow> string" where
  "debug_cmd i cmd [] = cmd"
| "debug_cmd i cmd (a # argv) =
     (if length cmd < 255
      then (let s = (if i = 0 then [] else '' '') @ a
            in if length s \<ge> 256 - length cmd then cmd @ snprintf_store (256 - length cmd) s
               else debug_cmd (Suc i) (cmd @ s) argv)
      else cmd)"

text \<open>The \<open>waitpid\<close> loop: an interrupted call is repeated, any other error gives up.\<close>

fun wait_child :: "int list \<Rightarrow> wait_status \<Rightarrow> wait_status option" where
  "wait_child [] st = Some st"
| "wait_child (e # es) st = (if e \<noteq> EINTR then None else wait_child es st)"

fun status_msg :: "wait_status \<Rightarrow> firewall_msg" where
  "status_msg (Exited n) = (if n = 127 then Could_not_execute else Exited_with n)"
| "status_msg (Signaled s) = Killed_by s"
| "status_msg Other_status = Killed_by 0"

definition reap_child :: "bool \<Rightarrow> int list \<Rightarrow> wait_status \<Rightarrow> int \<times> firewall_msg logs" where
  "reap_child quiet es st = (case wait_child es st of
     None \<Rightarrow> (- 1, [(LEVEL_ERROR, Waitpid_error)])
   | Some st \<Rightarrow>
       if st = Exited 0 then (0, [])
       else (- 1, if quiet then [] else [(LEVEL_ERROR, status_msg st)]))"

fun child_result :: "bool \<Rightarrow> child_run \<Rightarrow> int \<times> firewall_msg logs" where
  "child_result quiet Fork_failed = (- 1, [(LEVEL_ERROR, Fork_error)])"
| "child_result quiet (Exec_failed es) = reap_child quiet es (Exited 127)"
| "child_result quiet (Ran es st) = reap_child quiet es st"

definition run_iptables ::
  "config \<Rightarrow> 'k iptables \<Rightarrow> string list \<Rightarrow> bool \<Rightarrow> 'k \<Rightarrow> int \<times> 'k \<times> firewall_msg logs" where
  "run_iptables cfg ipt argv quiet k =
     (let l0 = (if LOG_LEVEL cfg \<ge> level_int LEVEL_DEBUG
                then [(LEVEL_DEBUG, Running (debug_cmd 0 [] argv))] else []);
          (child, k) = ipt argv k;
          (rc, ls) = child_result quiet child
      in (rc, k, l0 @ ls))"

definition grant_argv :: "config \<Rightarrow> string \<Rightarrow> string \<Rightarrow> string list" where
  "grant_argv cfg action ip_str =
     [IPTABLES_PATH, ''-w'', IPTABLES_WAIT, action, KNOCKD_CHAIN, ''-s'', ip_str, ''-p'', ''tcp'',
      ''--dport'', snprintf_store 8 (dec_of_int (PROTECTED_PORT cfg)), ''-j'', ''ACCEPT'']"

definition run_grant_rule ::
  "config \<Rightarrow> 'k iptables \<Rightarrow> string \<Rightarrow> string \<Rightarrow> 'k \<Rightarrow> int \<times> 'k \<times> firewall_msg logs" where
  "run_grant_rule cfg ipt action ip_str k = run_iptables cfg ipt (grant_argv cfg action ip_str) False k"

section \<open>The grant table\<close>

record grant_t =
  g_ip :: ipv4
  expires_at :: seconds
  g_active :: bool

definition zero_grant :: grant_t where
  "zero_grant = \<lparr>g_ip = 0, expires_at = 0, g_active = False\<rparr>"

record firewall =
  grants :: "grant_t list option"
  g_added_jump :: bool

definition firewall_start :: firewall where
  "firewall_start = \<lparr>grants = None, g_added_jump = False\<rparr>"

definition find_grant :: "config \<Rightarrow> grant_t list \<Rightarrow> ipv4 \<Rightarrow> nat option" where
  "find_grant cfg gs ip =
     first_index (\<lambda>i. g_active (gs ! i) \<and> g_ip (gs ! i) = ip) 0 (nat (MAX_CLIENTS cfg))"

definition free_grant :: "config \<Rightarrow> grant_t list \<Rightarrow> nat option" where
  "free_grant cfg gs = first_index (\<lambda>i. \<not> g_active (gs ! i)) 0 (nat (MAX_CLIENTS cfg))"

section \<open>Operations\<close>

definition chain_argv :: "string \<Rightarrow> string list" where
  "chain_argv action = [IPTABLES_PATH, ''-w'', IPTABLES_WAIT, action, KNOCKD_CHAIN]"

definition jump_argv :: "string \<Rightarrow> string list \<Rightarrow> string list" where
  "jump_argv action pos = [IPTABLES_PATH, ''-w'', IPTABLES_WAIT, action, ''INPUT''] @ pos @ [''-j'', KNOCKD_CHAIN]"

definition firewall_init ::
  "config \<Rightarrow> 'k iptables \<Rightarrow> bool \<Rightarrow> firewall \<Rightarrow> 'k \<Rightarrow> int \<times> firewall \<times> 'k \<times> firewall_msg logs" where
  "firewall_init cfg ipt calloc_ok fw k =
     (if \<not> calloc_ok
      then (- 1, fw\<lparr>grants := None\<rparr>, k, [(LEVEL_ERROR, Grant_table_alloc_failed (MAX_CLIENTS cfg))])
      else
        (let fw = fw\<lparr>grants := Some (replicate (nat (MAX_CLIENTS cfg)) zero_grant)\<rparr>;
             (_, k, l1) = run_iptables cfg ipt (chain_argv ''-N'') True k;
             (rc_flush, k, l2) = run_iptables cfg ipt (chain_argv ''-F'') False k
         in if rc_flush \<noteq> 0
            then (- 1, fw\<lparr>grants := None\<rparr>, k, l1 @ l2 @ [(LEVEL_ERROR, Chain_setup_failed)])
            else
              (let (rc_check, k, l3) = run_iptables cfg ipt (jump_argv ''-C'' []) True k
               in if rc_check \<noteq> 0
                  then
                    (let (rc_add, k, l4) = run_iptables cfg ipt (jump_argv ''-I'' [''1'']) False k
                     in if rc_add \<noteq> 0
                        then (- 1, fw\<lparr>grants := None\<rparr>, k,
                              l1 @ l2 @ l3 @ l4 @ [(LEVEL_ERROR, Jump_insert_failed)])
                        else (0, fw\<lparr>g_added_jump := True\<rparr>, k,
                              l1 @ l2 @ l3 @ l4 @ [(LEVEL_DEBUG, Jump_inserted), (LEVEL_INFO, Firewall_ready)]))
                  else (0, fw, k,
                        l1 @ l2 @ l3 @ [(LEVEL_DEBUG, Jump_left_in_place), (LEVEL_INFO, Firewall_ready)]))))"

definition firewall_open ::
  "config \<Rightarrow> 'k iptables \<Rightarrow> seconds \<Rightarrow> ipv4 \<Rightarrow> firewall \<Rightarrow> 'k \<Rightarrow>
   int \<times> firewall \<times> 'k \<times> firewall_msg logs" where
  "firewall_open cfg ipt now ip fw k = (case grants fw of
     None \<Rightarrow> (- 1, fw, k, [(LEVEL_ERROR, Open_before_init)])
   | Some gs \<Rightarrow> (case ip_to_str ip INET_ADDRSTRLEN of
       (None, l0) \<Rightarrow> (- 1, fw, k, l0)
     | (Some ip_str, l0) \<Rightarrow>
         (let until = now + ACCESS_TIMEOUT cfg
          in case find_grant cfg gs ip of
               Some i \<Rightarrow>
                 (0, fw\<lparr>grants := Some (gs[i := (gs ! i)\<lparr>expires_at := until\<rparr>])\<rparr>, k,
                  l0 @ [(LEVEL_INFO, Access_extended ip (ACCESS_TIMEOUT cfg))])
             | None \<Rightarrow> (case free_grant cfg gs of
                 None \<Rightarrow> (- 1, fw, k, l0 @ [(LEVEL_ERROR, Grant_slots_in_use (MAX_CLIENTS cfg) ip)])
               | Some i \<Rightarrow>
                   (let gs = gs[i := \<lparr>g_ip = ip, expires_at = until, g_active = True\<rparr>];
                        (rc, k, l1) = run_grant_rule cfg ipt ''-I'' ip_str k
                    in if rc \<noteq> 0
                       then (- 1, fw\<lparr>grants := Some (gs[i := (gs ! i)\<lparr>g_active := False\<rparr>])\<rparr>, k,
                             l0 @ l1 @ [(LEVEL_ERROR, Could_not_open (PROTECTED_PORT cfg) ip)])
                       else (0, fw\<lparr>grants := Some gs\<rparr>, k,
                             l0 @ l1 @ [(LEVEL_INFO, Port_open (PROTECTED_PORT cfg) ip (ACCESS_TIMEOUT cfg))]))))))"

definition firewall_close ::
  "config \<Rightarrow> 'k iptables \<Rightarrow> ipv4 \<Rightarrow> firewall \<Rightarrow> 'k \<Rightarrow> int \<times> firewall \<times> 'k \<times> firewall_msg logs" where
  "firewall_close cfg ipt ip fw k = (case grants fw of
     None \<Rightarrow> (- 1, fw, k, [])
   | Some gs \<Rightarrow> (case ip_to_str ip INET_ADDRSTRLEN of
       (None, l0) \<Rightarrow> (- 1, fw, k, l0)
     | (Some ip_str, l0) \<Rightarrow> (case find_grant cfg gs ip of
         None \<Rightarrow> (0, fw, k, l0 @ [(LEVEL_DEBUG, No_grant_to_close ip)])
       | Some i \<Rightarrow>
           (let fw = fw\<lparr>grants := Some (gs[i := (gs ! i)\<lparr>g_active := False\<rparr>])\<rparr>;
                (rc, k, l1) = run_grant_rule cfg ipt ''-D'' ip_str k
            in if rc \<noteq> 0 then (- 1, fw, k, l0 @ l1 @ [(LEVEL_WARN, Could_not_remove_rule ip)])
               else (0, fw, k, l0 @ l1 @ [(LEVEL_INFO, Port_closed (PROTECTED_PORT cfg) ip)])))))"

text \<open>\<open>firewall_tick\<close> first collects the addresses to expire under the lock, \<open>room\<close> being what is
  left of the batch, and then runs iptables for each.\<close>

definition grant_due :: "seconds \<Rightarrow> grant_t \<Rightarrow> bool" where
  "grant_due now g \<longleftrightarrow> g_active g \<and> now \<ge> expires_at g"

fun expire_scan :: "seconds \<Rightarrow> nat \<Rightarrow> grant_t list \<Rightarrow> ipv4 list \<times> grant_t list" where
  "expire_scan now room [] = ([], [])"
| "expire_scan now room (g # gs) =
     (if room = 0 then ([], g # gs)
      else if grant_due now g
      then (let (ips, gs) = expire_scan now (room - 1) gs in (g_ip g # ips, g\<lparr>g_active := False\<rparr> # gs))
      else (let (ips, gs) = expire_scan now room gs in (ips, g # gs)))"

fun close_expired :: "config \<Rightarrow> 'k iptables \<Rightarrow> ipv4 list \<Rightarrow> 'k \<Rightarrow> 'k \<times> firewall_msg logs" where
  "close_expired cfg ipt [] k = (k, [])"
| "close_expired cfg ipt (ip # ips) k = (case ip_to_str ip INET_ADDRSTRLEN of
     (None, l0) \<Rightarrow> (let (k, ls) = close_expired cfg ipt ips k in (k, l0 @ ls))
   | (Some ip_str, l0) \<Rightarrow>
       (let (rc, k, l1) = run_grant_rule cfg ipt ''-D'' ip_str k;
            l2 = (if rc \<noteq> 0 then [(LEVEL_WARN, Could_not_remove_expired_rule ip)] else []);
            (k, ls) = close_expired cfg ipt ips k
        in (k, l0 @ [(LEVEL_INFO, Access_expired ip (PROTECTED_PORT cfg))] @ l1 @ l2 @ ls)))"

definition firewall_tick ::
  "config \<Rightarrow> 'k iptables \<Rightarrow> seconds \<Rightarrow> firewall \<Rightarrow> 'k \<Rightarrow> firewall \<times> 'k \<times> firewall_msg logs" where
  "firewall_tick cfg ipt now fw k = (case grants fw of
     None \<Rightarrow> (fw, k, [])
   | Some gs \<Rightarrow>
       (let (ips, front) = expire_scan now MAX_EXPIRY_PER_TICK (take (nat (MAX_CLIENTS cfg)) gs);
            (k, ls) = close_expired cfg ipt ips k
        in (fw\<lparr>grants := Some (front @ drop (nat (MAX_CLIENTS cfg)) gs)\<rparr>, k, ls)))"

definition firewall_shutdown ::
  "config \<Rightarrow> 'k iptables \<Rightarrow> firewall \<Rightarrow> 'k \<Rightarrow> firewall \<times> 'k \<times> firewall_msg logs" where
  "firewall_shutdown cfg ipt fw k = (case grants fw of
     None \<Rightarrow> (fw, k, [])
   | Some gs \<Rightarrow>
       (let (rc_flush, k, l1) = run_iptables cfg ipt (chain_argv ''-F'') False k;
            l2 = (if rc_flush \<noteq> 0 then [(LEVEL_WARN, Chain_flush_failed)] else []);
            (k, l3) =
              (if g_added_jump fw
               then (let (rc_unhook, k, l4) = run_iptables cfg ipt (jump_argv ''-D'' []) False k
                     in if rc_unhook \<noteq> 0 then (k, l4 @ [(LEVEL_WARN, Jump_removal_failed)])
                        else (let (_, k, l5) = run_iptables cfg ipt (chain_argv ''-X'') True k
                              in (k, l4 @ l5)))
               else (k, []))
        in (fw\<lparr>grants := None\<rparr>, k, l1 @ l2 @ l3 @ [(LEVEL_INFO, Removed_firewall_rules)])))"

section \<open>What is assumed of iptables\<close>

text \<open>A ruleset gives each chain its rules, each rule being the argument list that specifies it.
  \<open>iptables_effect\<close> is the documented effect of the commands the daemon uses, when they succeed:
  \<open>-N\<close> creates a chain, \<open>-F\<close> empties one, \<open>-X\<close> deletes an empty one, \<open>-C\<close> checks for a rule,
  \<open>-I\<close> inserts at the head (or at position 1) and \<open>-D\<close> deletes the first matching rule.\<close>

type_synonym ruleset = "string \<rightharpoonup> string list list"

definition iptables_effect :: "string list \<Rightarrow> ruleset \<Rightarrow> ruleset option" where
  "iptables_effect argv R = (case argv of
     prog # w # secs # action # chain # rest \<Rightarrow>
       if action = ''-N'' then (if R chain = None then Some (R(chain \<mapsto> [])) else None)
       else (case R chain of
               None \<Rightarrow> None
             | Some rs \<Rightarrow>
                 if action = ''-F'' then Some (R(chain \<mapsto> []))
                 else if action = ''-X'' then (if rs = [] then Some (R(chain := None)) else None)
                 else if action = ''-C'' then (if rest \<in> set rs then Some R else None)
                 else if action = ''-D'' then (if rest \<in> set rs then Some (R(chain \<mapsto> remove1 rest rs)) else None)
                 else if action = ''-I''
                 then Some (R(chain \<mapsto> (if rest \<noteq> [] \<and> hd rest = ''1'' then tl rest else rest) # rs))
                 else None)
   | _ \<Rightarrow> None)"

fun outcome_ok :: "string list \<Rightarrow> ruleset \<Rightarrow> child_run \<Rightarrow> ruleset \<Rightarrow> bool" where
  "outcome_ok argv R Fork_failed R' \<longleftrightarrow> R' = R"
| "outcome_ok argv R (Exec_failed es) R' \<longleftrightarrow> R' = R"
| "outcome_ok argv R (Ran es st) R' \<longleftrightarrow> (case wait_child es st of
     Some (Exited n) \<Rightarrow> if n = 0 then iptables_effect argv R = Some R' else R' = R
   | _ \<Rightarrow> R' = R \<or> iptables_effect argv R = Some R')"

definition iptables_ok :: "'k iptables \<Rightarrow> ('k \<Rightarrow> ruleset) \<Rightarrow> bool" where
  "iptables_ok ipt rules \<longleftrightarrow>
     (\<forall>argv k. outcome_ok argv (rules k) (fst (ipt argv k)) (rules (snd (ipt argv k))))"

text \<open>The daemon's own rules, and the chain they live in.\<close>

definition grant_rule :: "config \<Rightarrow> ipv4 \<Rightarrow> string list" where
  "grant_rule cfg ip = [''-s'', inet_ntop ip, ''-p'', ''tcp'', ''--dport'',
     snprintf_store 8 (dec_of_int (PROTECTED_PORT cfg)), ''-j'', ''ACCEPT'']"

definition jump_rule :: "string list" where
  "jump_rule = [''-j'', KNOCKD_CHAIN]"

definition knockd_rules :: "ruleset \<Rightarrow> string list list" where
  "knockd_rules R = (case R KNOCKD_CHAIN of None \<Rightarrow> [] | Some rs \<Rightarrow> rs)"

definition same_outside :: "ruleset \<Rightarrow> ruleset \<Rightarrow> bool" where
  "same_outside R R' \<longleftrightarrow> (\<forall>c. c \<noteq> KNOCKD_CHAIN \<longrightarrow> R' c = R c)"

lemma same_outside_refl [simp]: "same_outside R R"
  by (simp add: same_outside_def)

lemma same_outside_trans: "same_outside R R' \<Longrightarrow> same_outside R' R'' \<Longrightarrow> same_outside R R''"
  by (simp add: same_outside_def)

lemma same_outside_upd [simp]: "same_outside R (R(KNOCKD_CHAIN := v))"
  by (simp add: same_outside_def)

lemma knockd_rules_upd [simp]:
  "knockd_rules (R(KNOCKD_CHAIN \<mapsto> rs)) = rs" "knockd_rules (R(KNOCKD_CHAIN := None)) = []"
  by (simp_all add: knockd_rules_def)

lemma grant_rule_inject: "grant_rule cfg a = grant_rule cfg b \<longleftrightarrow> a = b"
  by (simp add: grant_rule_def inet_ntop_inject)

text \<open>What the caller of \<open>run_iptables\<close> knows from the return value.\<close>

definition ran :: "string list \<Rightarrow> int \<Rightarrow> ruleset \<Rightarrow> ruleset \<Rightarrow> bool" where
  "ran argv rc R R' \<longleftrightarrow>
     (if rc = 0 then iptables_effect argv R = Some R' else R' = R \<or> iptables_effect argv R = Some R')"

lemma run_iptables_ran:
  assumes ok: "iptables_ok ipt rules" and r: "run_iptables cfg ipt argv quiet k = (rc, k', ls)"
  shows "ran argv rc (rules k) (rules k')"
    and "rc \<noteq> 0 \<Longrightarrow> \<not> quiet \<Longrightarrow> troubled ls"
    and "rc = 0 \<Longrightarrow> \<not> troubled ls"
    and "rc = 0 \<or> rc = - 1"
proof -
  obtain child k1 where c: "ipt argv k = (child, k1)" by fastforce
  have o: "outcome_ok argv (rules k) child (rules k1)"
    using ok c unfolding iptables_ok_def by (metis fst_conv snd_conv)
  have w: "wait_child es (Exited 127) = None \<or> wait_child es (Exited 127) = Some (Exited 127)" for es
    by (induction es) auto
  have k: "k' = k1" and rc: "rc = fst (child_result quiet child)"
    and l: "troubled ls \<longleftrightarrow> troubled (snd (child_result quiet child))"
    using r c by (auto simp: run_iptables_def Let_def split: prod.splits if_splits)
  have all: "ran argv rc (rules k) (rules k') \<and> (rc \<noteq> 0 \<longrightarrow> \<not> quiet \<longrightarrow> troubled ls) \<and>
      (rc = 0 \<longrightarrow> \<not> troubled ls) \<and> (rc = 0 \<or> rc = - 1)"
  proof (cases child)
    case Fork_failed
    then show ?thesis using o unfolding k rc l by (simp add: ran_def)
  next
    case (Exec_failed es)
    then show ?thesis using o w [of es] unfolding k rc l by (auto simp: ran_def reap_child_def)
  next
    case (Ran es st)
    then show ?thesis using o unfolding k rc l
      by (auto simp: ran_def reap_child_def split: option.splits wait_status.splits if_splits)
  qed
  show "ran argv rc (rules k) (rules k')" using all by blast
  show "rc \<noteq> 0 \<Longrightarrow> \<not> quiet \<Longrightarrow> troubled ls" using all by blast
  show "rc = 0 \<Longrightarrow> \<not> troubled ls" using all by blast
  show "rc = 0 \<or> rc = - 1" using all by blast
qed

text \<open>How a command ended, from the child's side: it ran and was seen to exit with status 0; or it is
  certain that it did nothing, because it never ran or was seen to exit with another status.  In
  between are the commands that were killed or could not be waited for.\<close>

fun exits_zero :: "child_run \<Rightarrow> bool" where
  "exits_zero (Ran es st) \<longleftrightarrow> (\<forall>e\<in>set es. e = EINTR) \<and> st = Exited 0"
| "exits_zero _ \<longleftrightarrow> False"

fun surely_failed :: "child_run \<Rightarrow> bool" where
  "surely_failed (Ran es st) \<longleftrightarrow> (\<forall>e\<in>set es. e = EINTR) \<and> (\<exists>n. st = Exited n \<and> n \<noteq> 0)"
| "surely_failed _ \<longleftrightarrow> True"

lemma wait_child_eq: "wait_child es st = (if \<forall>e\<in>set es. e = EINTR then Some st else None)"
  by (induction es st rule: wait_child.induct) auto

lemma child_result_zero: "fst (child_result quiet child) = 0 \<longleftrightarrow> exits_zero child"
  by (cases child) (auto simp: reap_child_def wait_child_eq)

lemma surely_failed_unchanged: "outcome_ok argv R child R' \<Longrightarrow> surely_failed child \<Longrightarrow> R' = R"
  by (cases child) (auto simp: wait_child_eq)

text \<open>What is logged about a child is neither the refusal of an open nor the failure of a start-up.\<close>

lemma child_result_msgs:
  assumes "(l, m) \<in> set (snd (child_result quiet child))"
  shows "m \<noteq> Grant_slots_in_use n ip" and "m \<noteq> Jump_insert_failed"
proof -
  have st: "status_msg st \<noteq> Grant_slots_in_use n ip \<and> status_msg st \<noteq> Jump_insert_failed" for st
    by (cases st) auto
  have "m \<noteq> Grant_slots_in_use n ip \<and> m \<noteq> Jump_insert_failed" if "(l, m) \<in> set (snd (reap_child quiet es st))" for es st
    using that st [of st] by (auto simp: reap_child_def wait_child_eq split: if_splits)
  with assms have "m \<noteq> Grant_slots_in_use n ip \<and> m \<noteq> Jump_insert_failed" by (cases child) auto
  then show "m \<noteq> Grant_slots_in_use n ip" "m \<noteq> Jump_insert_failed" by simp_all
qed

lemma run_iptables_msgs:
  assumes "run_iptables cfg ipt argv quiet k = (rc, k', ls)" and "(l, m) \<in> set ls"
  shows "m \<noteq> Grant_slots_in_use n ip" and "m \<noteq> Jump_insert_failed"
proof -
  have "(l, m) \<in> set (snd (child_result quiet (fst (ipt argv k)))) \<or> (\<exists>cmd. m = Running cmd)"
    using assms by (auto simp: run_iptables_def Let_def split_def split: if_splits)
  then show "m \<noteq> Grant_slots_in_use n ip" "m \<noteq> Jump_insert_failed"
    using child_result_msgs [of l m quiet "fst (ipt argv k)"] by auto
qed

lemma run_grant_rule_msgs:
  "run_grant_rule cfg ipt action s k = (rc, k', ls) \<Longrightarrow> (l, Grant_slots_in_use n ip) \<notin> set ls"
  using run_iptables_msgs(1) by (fastforce simp: run_grant_rule_def)

text \<open>The effect of the commands the daemon runs.\<close>

lemma effect_grant_insert:
  "iptables_effect (grant_argv cfg ''-I'' (inet_ntop ip)) R = Some R' \<Longrightarrow>
   R' = R(KNOCKD_CHAIN \<mapsto> grant_rule cfg ip # knockd_rules R)"
  by (auto simp: iptables_effect_def grant_argv_def grant_rule_def knockd_rules_def split: option.splits)

lemma effect_grant_delete:
  "iptables_effect (grant_argv cfg ''-D'' (inet_ntop ip)) R = Some R' \<Longrightarrow>
   grant_rule cfg ip \<in> set (knockd_rules R) \<and>
   R' = R(KNOCKD_CHAIN \<mapsto> remove1 (grant_rule cfg ip) (knockd_rules R))"
  by (auto simp: iptables_effect_def grant_argv_def grant_rule_def knockd_rules_def split: option.splits if_splits)

lemma effect_new: "iptables_effect (chain_argv ''-N'') R = Some R' \<Longrightarrow> R' = R(KNOCKD_CHAIN \<mapsto> [])"
  by (auto simp: iptables_effect_def chain_argv_def split: if_splits)

lemma effect_flush:
  "iptables_effect (chain_argv ''-F'') R = Some R' \<Longrightarrow> R' = R(KNOCKD_CHAIN \<mapsto> [])"
  by (auto simp: iptables_effect_def chain_argv_def split: option.splits)

lemma effect_remove:
  "iptables_effect (chain_argv ''-X'') R = Some R' \<Longrightarrow> R' = R(KNOCKD_CHAIN := None)"
  by (auto simp: iptables_effect_def chain_argv_def split: option.splits if_splits)

lemma effect_check:
  "iptables_effect (jump_argv ''-C'' []) R = Some R' \<Longrightarrow> (\<exists>rs. R ''INPUT'' = Some rs \<and> jump_rule \<in> set rs) \<and> R' = R"
  by (auto simp: iptables_effect_def jump_argv_def jump_rule_def split: option.splits if_splits)

lemma effect_add_jump:
  "iptables_effect (jump_argv ''-I'' [''1'']) R = Some R' \<Longrightarrow>
   \<exists>rs. R ''INPUT'' = Some rs \<and> R' = R(''INPUT'' \<mapsto> jump_rule # rs)"
  by (auto simp: iptables_effect_def jump_argv_def jump_rule_def split: option.splits)

lemma effect_unhook:
  "iptables_effect (jump_argv ''-D'' []) R = Some R' \<Longrightarrow>
   \<exists>rs. R ''INPUT'' = Some rs \<and> jump_rule \<in> set rs \<and> R' = R(''INPUT'' \<mapsto> remove1 jump_rule rs)"
  by (auto simp: iptables_effect_def jump_argv_def jump_rule_def split: option.splits if_splits)

lemma KNOCKD_not_INPUT [simp]: "KNOCKD_CHAIN \<noteq> ''INPUT''" "''INPUT'' \<noteq> KNOCKD_CHAIN"
  by (simp_all add: KNOCKD_CHAIN_def)

lemma ip_to_str_ok [simp]: "ip_to_str ip INET_ADDRSTRLEN = (Some (inet_ntop ip), [])"
  by (simp add: ip_to_str_def length_inet_ntop)

lemma run_grant_insert:
  assumes "iptables_ok ipt rules" "run_grant_rule cfg ipt ''-I'' (inet_ntop ip) k = (rc, k', ls)"
  shows "same_outside (rules k) (rules k')"
    and "knockd_rules (rules k') = grant_rule cfg ip # knockd_rules (rules k) \<or>
         rc \<noteq> 0 \<and> knockd_rules (rules k') = knockd_rules (rules k)"
    and "rc \<noteq> 0 \<Longrightarrow> troubled ls" and "rc = 0 \<Longrightarrow> \<not> troubled ls"
  using run_iptables_ran [OF assms(1) assms(2) [unfolded run_grant_rule_def]]
  by (auto simp: ran_def split: if_splits dest!: effect_grant_insert)

lemma run_grant_delete:
  assumes "iptables_ok ipt rules" "run_grant_rule cfg ipt ''-D'' (inet_ntop ip) k = (rc, k', ls)"
  shows "same_outside (rules k) (rules k')"
    and "grant_rule cfg ip \<in> set (knockd_rules (rules k)) \<and>
           knockd_rules (rules k') = remove1 (grant_rule cfg ip) (knockd_rules (rules k)) \<or>
         rc \<noteq> 0 \<and> knockd_rules (rules k') = knockd_rules (rules k)"
    and "rc \<noteq> 0 \<Longrightarrow> troubled ls" and "rc = 0 \<Longrightarrow> \<not> troubled ls"
  using run_iptables_ran [OF assms(1) assms(2) [unfolded run_grant_rule_def]]
  by (auto simp: ran_def split: if_splits dest!: effect_grant_delete)

section \<open>The grant table as a map\<close>

abbreviation grant_map :: "grant_t list \<Rightarrow> ipv4 \<rightharpoonup> grant_t" where
  "grant_map \<equiv> slot_map g_active g_ip"

interpretation grant_slots: slot_table g_active g_ip "\<lambda>g. g\<lparr>g_active := False\<rparr>"
  by unfold_locales simp_all

definition grants_inv :: "config \<Rightarrow> grant_t list \<Rightarrow> bool" where
  "grants_inv cfg gs \<longleftrightarrow> length gs = nat (MAX_CLIENTS cfg) \<and> slots_unique g_active g_ip gs"

definition firewall_inv :: "config \<Rightarrow> firewall \<Rightarrow> bool" where
  "firewall_inv cfg fw \<longleftrightarrow> (\<forall>gs. grants fw = Some gs \<longrightarrow> grants_inv cfg gs)"

definition open_for :: "firewall \<Rightarrow> ipv4 \<rightharpoonup> seconds" where
  "open_for fw ip = (case grants fw of None \<Rightarrow> None | Some gs \<Rightarrow> map_option expires_at (grant_map gs ip))"

lemma find_grant_map: "grants_inv cfg gs \<Longrightarrow> grant_map gs ip = map_option (\<lambda>i. gs ! i) (find_grant cfg gs ip)"
  by (simp add: slot_map_def find_grant_def grants_inv_def)

lemma find_grant_SomeD:
  "grants_inv cfg gs \<Longrightarrow> find_grant cfg gs ip = Some i \<Longrightarrow>
   i < length gs \<and> g_active (gs ! i) \<and> g_ip (gs ! i) = ip"
  by (auto simp: find_grant_def grants_inv_def dest!: first_index_SomeD)

lemma free_grant_SomeD:
  "grants_inv cfg gs \<Longrightarrow> free_grant cfg gs = Some i \<Longrightarrow> i < length gs \<and> \<not> g_active (gs ! i)"
  by (auto simp: free_grant_def grants_inv_def dest!: first_index_SomeD)

lemma free_grant_None:
  "grants_inv cfg gs \<Longrightarrow> free_grant cfg gs = None \<Longrightarrow> \<forall>g\<in>set gs. g_active g"
  by (auto simp: free_grant_def grants_inv_def first_index_None_iff in_set_conv_nth)

section \<open>Expiry\<close>

lemma expire_scan_ips: "fst (expire_scan now room gs) = map g_ip (take room (filter (grant_due now) gs))"
  by (induction now room gs rule: expire_scan.induct) (auto simp: Let_def take_Cons split: prod.splits nat.split)

lemma expire_scan_length: "length (snd (expire_scan now room gs)) = length gs"
  by (induction now room gs rule: expire_scan.induct) (auto simp: Let_def split: prod.splits)

lemma expire_scan_due:
  "filter (grant_due now) (snd (expire_scan now room gs)) = drop room (filter (grant_due now) gs)"
proof (induction now room gs rule: expire_scan.induct)
  case (2 now room g gs)
  have "\<not> grant_due now (g\<lparr>g_active := False\<rparr>)" by (simp add: grant_due_def)
  with 2 show ?case by (cases room) (auto simp: Let_def split: prod.splits)
qed simp

lemma expire_scan_active:
  "length (filter g_active (snd (expire_scan now room gs))) + length (fst (expire_scan now room gs)) =
   length (filter g_active gs)"
  by (induction now room gs rule: expire_scan.induct) (auto simp: Let_def grant_due_def split: prod.splits)

lemma expire_scan_sweep:
  assumes "distinct (map g_ip (filter g_active gs))"
  shows "snd (expire_scan now room gs) =
     map (\<lambda>g. if g_active g \<and> g_ip g \<in> set (fst (expire_scan now room gs))
              then g\<lparr>g_active := False\<rparr> else g) gs"
  using assms
proof (induction now room gs rule: expire_scan.induct)
  case (2 now room g gs)
  have sub: "set (fst (expire_scan now r gs)) \<subseteq> g_ip ` set (filter g_active gs)" for r
    by (auto simp: expire_scan_ips grant_due_def dest: in_set_takeD)
  have d: "distinct (map g_ip (filter g_active gs))" using "2.prems" by (simp split: if_splits)
  have other: "g_active g \<Longrightarrow> g_ip g \<notin> set (fst (expire_scan now r gs))" for r
    using "2.prems" sub [of r] by auto
  consider (full) "room = 0" | (due) "room \<noteq> 0" "grant_due now g" | (kept) "room \<noteq> 0" "\<not> grant_due now g"
    by blast
  then show ?case
  proof cases
    case full
    then show ?thesis by simp
  next
    case due
    have ne: "h \<in> set gs \<Longrightarrow> g_active h \<Longrightarrow> g_ip h \<noteq> g_ip g" for h
      using "2.prems" due by (fastforce simp: grant_due_def image_iff)
    have "snd (expire_scan now (room - 1) gs) =
        map (\<lambda>h. if g_active h \<and> g_ip h \<in> set (fst (expire_scan now (room - 1) gs))
                 then h\<lparr>g_active := False\<rparr> else h) gs"
      using "2.IH"(1) [OF due d] .
    also have "\<dots> = map (\<lambda>h. if g_active h \<and> g_ip h \<in> insert (g_ip g) (set (fst (expire_scan now (room - 1) gs)))
                 then h\<lparr>g_active := False\<rparr> else h) gs"
      using ne by (intro map_cong) auto
    finally show ?thesis using due by (simp add: Let_def split_def grant_due_def)
  next
    case kept
    with "2.IH"(2) [OF kept d] other [of room] show ?thesis by (simp add: Let_def split_def)
  qed
qed simp

section \<open>What every call preserves\<close>

text \<open>How far the chain is ahead of the grant table for one address: the number of its rules in
  the chain less the one that its grant accounts for.  Zero means the two are in step.\<close>

definition excess :: "config \<Rightarrow> ruleset \<Rightarrow> firewall \<Rightarrow> ipv4 \<Rightarrow> int" where
  "excess cfg R fw ip =
     int (count_list (knockd_rules R) (grant_rule cfg ip)) - (if open_for fw ip = None then 0 else 1)"

datatype firewall_call = Open seconds ipv4 | Close ipv4 | Tick seconds

fun firewall_do ::
  "config \<Rightarrow> 'k iptables \<Rightarrow> firewall_call \<Rightarrow> firewall \<times> 'k \<Rightarrow> (firewall \<times> 'k) \<times> firewall_msg logs" where
  "firewall_do cfg ipt (Open now ip) (fw, k) =
     (let (rc, fw, k, ls) = firewall_open cfg ipt now ip fw k in ((fw, k), ls))"
| "firewall_do cfg ipt (Close ip) (fw, k) =
     (let (rc, fw, k, ls) = firewall_close cfg ipt ip fw k in ((fw, k), ls))"
| "firewall_do cfg ipt (Tick now) (fw, k) =
     (let (fw, k, ls) = firewall_tick cfg ipt now fw k in ((fw, k), ls))"

fun opened_by :: "firewall_call \<Rightarrow> ipv4 set" where
  "opened_by (Open now ip) = {ip}"
| "opened_by _ = {}"

text \<open>The relation between the states before and after a call that may add rules for the
  addresses in \<open>ips\<close>; \<open>quiet\<close> says that it logged no warning and no error.\<close>

definition call_keeps ::
  "config \<Rightarrow> ipv4 set \<Rightarrow> bool \<Rightarrow> ruleset \<times> firewall \<Rightarrow> ruleset \<times> firewall \<Rightarrow> bool" where
  "call_keeps cfg ips quiet s s' \<longleftrightarrow> (case (s, s') of ((R, fw), (R', fw')) \<Rightarrow>
     firewall_inv cfg fw' \<and> (grants fw' = None \<longleftrightarrow> grants fw = None) \<and>
     g_added_jump fw' = g_added_jump fw \<and> same_outside R R' \<and>
     set (knockd_rules R') \<subseteq> set (knockd_rules R) \<union> grant_rule cfg ` ips \<and>
     (\<forall>ip. excess cfg R fw ip \<le> excess cfg R' fw' ip) \<and>
     (quiet \<longrightarrow> (\<forall>ip. excess cfg R' fw' ip = excess cfg R fw ip)))"

lemma call_keeps_refl: "firewall_inv cfg fw \<Longrightarrow> call_keeps cfg ips quiet (R, fw) (R, fw)"
  by (simp add: call_keeps_def)

lemma call_keeps_trans:
  assumes "call_keeps cfg a q s s'" "call_keeps cfg b q' s' s''"
  shows "call_keeps cfg (a \<union> b) (q \<and> q') s s''"
proof -
  obtain R fw R' fw' R'' fw'' where s: "s = (R, fw)" "s' = (R', fw')" "s'' = (R'', fw'')"
    by (metis surj_pair)
  have "excess cfg R fw ip \<le> excess cfg R'' fw'' ip" for ip
    using assms unfolding s call_keeps_def prod.case by (meson order_trans)
  moreover have "set (knockd_rules R'') \<subseteq> set (knockd_rules R) \<union> grant_rule cfg ` (a \<union> b)"
    using assms unfolding s call_keeps_def prod.case image_Un by blast
  ultimately show ?thesis
    using assms same_outside_trans [of R R' R''] unfolding s call_keeps_def by simp
qed

lemma open_for_upd:
  "grants fw = Some gs \<Longrightarrow> open_for fw ip = map_option expires_at (grant_map gs ip)"
  "open_for (fw\<lparr>grants := Some gs\<rparr>) ip = map_option expires_at (grant_map gs ip)"
  by (simp_all add: open_for_def)

lemma open_call_keeps:
  assumes ok: "iptables_ok ipt rules" and inv: "firewall_inv cfg fw"
    and call: "firewall_open cfg ipt now ip fw k = (rc, fw', k', ls)"
  shows "call_keeps cfg {ip} (\<not> troubled ls) (rules k, fw) (rules k', fw')"
proof (cases "grants fw")
  case None
  with call inv show ?thesis by (auto simp: firewall_open_def intro: call_keeps_refl)
next
  case (Some gs)
  have gi: "grants_inv cfg gs" using inv Some by (simp add: firewall_inv_def)
  then have u: "slots_unique g_active g_ip gs" by (simp add: grants_inv_def)
  let ?g = "\<lparr>g_ip = ip, expires_at = now + ACCESS_TIMEOUT cfg, g_active = True\<rparr>"
  show ?thesis
  proof (cases "find_grant cfg gs ip")
    case f: (Some i)
    let ?e = "(gs ! i)\<lparr>expires_at := now + ACCESS_TIMEOUT cfg\<rparr>"
    note i = find_grant_SomeD [OF gi f]
    note up = grant_slots.overwrite [OF u, of i ?e]
    have k: "k' = k" "fw' = fw\<lparr>grants := Some (gs[i := ?e])\<rparr>"
      using call Some f by (auto simp: firewall_open_def Let_def)
    have m: "grant_map gs ip = Some (gs ! i)" using find_grant_map [OF gi, of ip] f by simp
    have "open_for fw' a = None \<longleftrightarrow> open_for fw a = None" for a
      using up(2) i m unfolding k open_for_upd open_for_upd(1) [OF Some] by auto
    then show ?thesis
      using up(1) i gi inv Some unfolding k call_keeps_def excess_def
      by (simp add: firewall_inv_def grants_inv_def subset_insertI)
  next
    case f: None
    show ?thesis
    proof (cases "free_grant cfg gs")
      case None
      with call inv Some f show ?thesis
        by (auto simp: firewall_open_def Let_def intro: call_keeps_refl)
    next
      case (Some i)
      note i = free_grant_SomeD [OF gi Some]
      obtain rc1 k1 l1 where r: "run_grant_rule cfg ipt ''-I'' (inet_ntop ip) k = (rc1, k1, l1)"
        by (metis prod_cases3)
      note g = run_grant_insert [OF ok r]
      have m: "grant_map gs ip = None" using find_grant_map [OF gi, of ip] f by simp
      note cl = grant_slots.claim [OF u, of i ?g]
      have u1: "slots_unique g_active g_ip (gs[i := ?g])"
        and m1: "grant_map (gs[i := ?g]) = (grant_map gs)(ip \<mapsto> ?g)"
        using cl i m by simp_all
      have of: "open_for fw a = map_option expires_at (grant_map gs a)" for a
        by (rule open_for_upd(1) [OF \<open>grants fw = Some gs\<close>])
      show ?thesis
      proof (cases "rc1 = 0")
        case True
        have e: "k' = k1" "fw' = fw\<lparr>grants := Some (gs[i := ?g])\<rparr>" "troubled ls \<longleftrightarrow> troubled l1"
          using call \<open>grants fw = Some gs\<close> f Some r True by (auto simp: firewall_open_def Let_def)
        have kr: "knockd_rules (rules k1) = grant_rule cfg ip # knockd_rules (rules k)"
          using g(2) True by simp
        have ex: "excess cfg (rules k1) (fw\<lparr>grants := Some (gs[i := ?g])\<rparr>) a = excess cfg (rules k) fw a" for a
          unfolding excess_def kr open_for_upd(2) of m1 by (auto simp: m grant_rule_inject)
        show ?thesis
          using g(1) u1 gi \<open>grants fw = Some gs\<close> ex unfolding e call_keeps_def
          by (auto simp: firewall_inv_def grants_inv_def kr)
      next
        case False
        let ?f = "?g\<lparr>g_active := False\<rparr>"
        have e: "k' = k1" "fw' = fw\<lparr>grants := Some (gs[i := ?f])\<rparr>" "troubled ls"
          using call \<open>grants fw = Some gs\<close> f Some r False i by (auto simp: firewall_open_def Let_def)
        note rl = grant_slots.release [OF u1, of i ?f]
        have u2: "slots_unique g_active g_ip (gs[i := ?f])" and m2: "grant_map (gs[i := ?f]) = grant_map gs"
          using rl i m m1 by (simp_all add: fun_eq_iff)
        have kr: "knockd_rules (rules k1) = knockd_rules (rules k) \<or>
            knockd_rules (rules k1) = grant_rule cfg ip # knockd_rules (rules k)"
          using g(2) by auto
        have ex: "excess cfg (rules k) fw a \<le> excess cfg (rules k1) (fw\<lparr>grants := Some (gs[i := ?f])\<rparr>) a" for a
          using kr unfolding excess_def open_for_upd(2) of m2 by (elim disjE) simp_all
        have "set (knockd_rules (rules k1)) \<subseteq> set (knockd_rules (rules k)) \<union> {grant_rule cfg ip}"
          using kr by (elim disjE) auto
        then show ?thesis
          using g(1) u2 gi \<open>grants fw = Some gs\<close> ex e(3) unfolding e(1,2) call_keeps_def
          by (simp add: firewall_inv_def grants_inv_def)
      qed
    qed
  qed
qed

lemma close_call_keeps:
  assumes ok: "iptables_ok ipt rules" and inv: "firewall_inv cfg fw"
    and call: "firewall_close cfg ipt ip fw k = (rc, fw', k', ls)"
  shows "call_keeps cfg {} (\<not> troubled ls) (rules k, fw) (rules k', fw')"
proof (cases "\<exists>gs i. grants fw = Some gs \<and> find_grant cfg gs ip = Some i")
  case False
  with call inv show ?thesis
    by (auto simp: firewall_close_def intro: call_keeps_refl split: option.splits)
next
  case True
  then obtain gs i where gs: "grants fw = Some gs" and f: "find_grant cfg gs ip = Some i" by blast
  have gi: "grants_inv cfg gs" using inv gs by (simp add: firewall_inv_def)
  then have u: "slots_unique g_active g_ip gs" by (simp add: grants_inv_def)
  note i = find_grant_SomeD [OF gi f]
  let ?f = "(gs ! i)\<lparr>g_active := False\<rparr>"
  obtain rc1 k1 l1 where r: "run_grant_rule cfg ipt ''-D'' (inet_ntop ip) k = (rc1, k1, l1)"
    by (metis prod_cases3)
  note g = run_grant_delete [OF ok r]
  have e: "k' = k1" "fw' = fw\<lparr>grants := Some (gs[i := ?f])\<rparr>" "troubled ls \<longleftrightarrow> rc1 \<noteq> 0"
    using call gs f r g(3,4) by (auto simp: firewall_close_def Let_def split: if_splits)
  note rl = grant_slots.release [OF u, of i ?f]
  have m: "grant_map (gs[i := ?f]) = (grant_map gs)(ip := None)" using rl(2) i by simp
  have was: "grant_map gs ip \<noteq> None" using find_grant_map [OF gi, of ip] f by simp
  let ?n = "\<lambda>R a. int (count_list (knockd_rules R) (grant_rule cfg a))"
  have del: "?n (rules k1) a = ?n (rules k) a - (if a = ip then 1 else 0) \<or> rc1 \<noteq> 0 \<and> ?n (rules k1) a = ?n (rules k) a" for a
    using g(2) count_list_remove1 [of "grant_rule cfg ip" "knockd_rules (rules k)" "grant_rule cfg a"]
    by (auto simp: grant_rule_inject)
  have ex: "excess cfg (rules k) fw a \<le> excess cfg (rules k1) fw' a"
    "rc1 = 0 \<Longrightarrow> excess cfg (rules k1) fw' a = excess cfg (rules k) fw a" for a
    using del [of a] was unfolding excess_def e(2) open_for_upd(2) open_for_upd(1) [OF gs] m by auto
  have "set (knockd_rules (rules k1)) \<subseteq> set (knockd_rules (rules k))"
    using g(2) set_remove1_subset by fastforce
  then show ?thesis
    using g(1) rl(1) i gi gs ex unfolding e call_keeps_def
    by (simp add: firewall_inv_def grants_inv_def)
qed

lemma close_expired_conj:
  assumes ok: "iptables_ok ipt rules"
  shows "close_expired cfg ipt ips k = (k', ls) \<Longrightarrow>
    same_outside (rules k) (rules k') \<and> set (knockd_rules (rules k')) \<subseteq> set (knockd_rules (rules k)) \<and>
    count_list (knockd_rules (rules k)) (grant_rule cfg a) \<le>
      count_list (knockd_rules (rules k')) (grant_rule cfg a) + count_list ips a \<and>
    (\<not> troubled ls \<longrightarrow> count_list (knockd_rules (rules k)) (grant_rule cfg a) =
      count_list (knockd_rules (rules k')) (grant_rule cfg a) + count_list ips a)"
proof (induction ips arbitrary: k k' ls)
  case Nil
  then show ?case by simp
next
  case (Cons ip ips)
  obtain rc1 k1 l1 where r: "run_grant_rule cfg ipt ''-D'' (inet_ntop ip) k = (rc1, k1, l1)"
    by (metis prod_cases3)
  note g = run_grant_delete [OF ok r]
  obtain ls' where rest: "close_expired cfg ipt ips k1 = (k', ls')"
    and t: "troubled ls \<longleftrightarrow> rc1 \<noteq> 0 \<or> troubled ls'"
    using Cons.prems r g(3,4) by (auto simp: Let_def split: prod.splits if_splits)
  let ?n = "\<lambda>k. count_list (knockd_rules (rules k)) (grant_rule cfg a)"
  have del: "?n k = ?n k1 + (if a = ip then 1 else 0) \<or> rc1 \<noteq> 0 \<and> ?n k = ?n k1"
    using g(2) count_list_remove1 [of "grant_rule cfg ip" "knockd_rules (rules k)" "grant_rule cfg a"]
    by (auto simp: grant_rule_inject)
  have "set (knockd_rules (rules k1)) \<subseteq> set (knockd_rules (rules k))"
    using g(2) set_remove1_subset by fastforce
  with Cons.IH [OF rest] g(1) t del show ?case
    by (auto intro: same_outside_trans)
qed

lemma close_expired_effect:
  assumes "iptables_ok ipt rules" and "close_expired cfg ipt ips k = (k', ls)"
  shows "same_outside (rules k) (rules k')"
    and "set (knockd_rules (rules k')) \<subseteq> set (knockd_rules (rules k))"
    and "count_list (knockd_rules (rules k)) (grant_rule cfg a) \<le>
         count_list (knockd_rules (rules k')) (grant_rule cfg a) + count_list ips a"
    and "\<not> troubled ls \<Longrightarrow> count_list (knockd_rules (rules k)) (grant_rule cfg a) =
         count_list (knockd_rules (rules k')) (grant_rule cfg a) + count_list ips a"
  using close_expired_conj [OF assms, of a] by blast+

text \<open>The grants left after a tick, and the addresses it closed.\<close>

definition tick_closes :: "seconds \<Rightarrow> grant_t list \<Rightarrow> ipv4 list" where
  "tick_closes now gs = map g_ip (take MAX_EXPIRY_PER_TICK (filter (grant_due now) gs))"

lemma tick_grants:
  assumes gi: "grants_inv cfg gs" and gs: "grants fw = Some gs"
    and tick: "firewall_tick cfg ipt now fw k = (fw', k', ls)"
  obtains gs' where "fw' = fw\<lparr>grants := Some gs'\<rparr>" "gs' = snd (expire_scan now MAX_EXPIRY_PER_TICK gs)"
    "grants_inv cfg gs'" "distinct (tick_closes now gs)"
    "\<forall>ip. grant_map gs' ip = (if ip \<in> set (tick_closes now gs) then None else grant_map gs ip)"
    "set (tick_closes now gs) \<subseteq> dom (grant_map gs)"
    "close_expired cfg ipt (tick_closes now gs) k = (k', ls)"
proof -
  let ?ips = "tick_closes now gs" and ?gs = "snd (expire_scan now MAX_EXPIRY_PER_TICK gs)"
  have u: "slots_unique g_active g_ip gs" using gi by (simp add: grants_inv_def)
  note d = slots_unique_distinct [OF u]
  have scan: "expire_scan now MAX_EXPIRY_PER_TICK gs = (?ips, ?gs)"
    by (simp add: tick_closes_def flip: expire_scan_ips)
  have sweep: "?gs = map (\<lambda>g. if g_active g \<and> g_ip g \<in> set ?ips then g\<lparr>g_active := False\<rparr> else g) gs"
    using expire_scan_sweep [OF d, of now MAX_EXPIRY_PER_TICK]
    unfolding expire_scan_ips tick_closes_def [symmetric] .
  note sw = grant_slots.sweep [OF u, of "\<lambda>g. g_active g \<and> g_ip g \<in> set ?ips", folded sweep]
  have map: "grant_map ?gs ip = (if ip \<in> set ?ips then None else grant_map gs ip)" for ip
    using slot_map_SomeD [of g_active g_ip gs ip] unfolding sw(2) by (auto split: option.split)
  have "filter (grant_due now) gs = filter (grant_due now) (filter g_active gs)"
    by (induction gs) (auto simp: grant_due_def)
  then have "distinct (map g_ip (filter (grant_due now) gs))"
    using distinct_map_filter [OF d] by simp
  then have dist: "distinct ?ips"
    by (simp add: tick_closes_def flip: take_map)
  have dom: "set ?ips \<subseteq> dom (grant_map gs)"
    unfolding dom_def by (auto simp: tick_closes_def slot_map_None_iff grant_due_def dest!: in_set_takeD)
  have len: "length gs = nat (MAX_CLIENTS cfg)" using gi by (simp add: grants_inv_def)
  have "fw' = fw\<lparr>grants := Some ?gs\<rparr>" "close_expired cfg ipt ?ips k = (k', ls)"
    using tick gs len scan by (auto simp: firewall_tick_def Let_def split: prod.splits)
  moreover have "grants_inv cfg ?gs" using sw(1) len by (simp add: grants_inv_def expire_scan_length)
  ultimately show ?thesis using that map dist dom by blast
qed

lemma tick_call_keeps:
  assumes ok: "iptables_ok ipt rules" and inv: "firewall_inv cfg fw"
    and call: "firewall_tick cfg ipt now fw k = (fw', k', ls)"
  shows "call_keeps cfg {} (\<not> troubled ls) (rules k, fw) (rules k', fw')"
proof (cases "grants fw")
  case None
  with call inv show ?thesis by (auto simp: firewall_tick_def intro: call_keeps_refl)
next
  case (Some gs)
  have gi: "grants_inv cfg gs" using inv Some by (simp add: firewall_inv_def)
  let ?ips = "tick_closes now gs"
  obtain gs' where fw': "fw' = fw\<lparr>grants := Some gs'\<rparr>"
    and "gs' = snd (expire_scan now MAX_EXPIRY_PER_TICK gs)" and gi': "grants_inv cfg gs'" and d: "distinct ?ips"
    and m: "\<forall>ip. grant_map gs' ip = (if ip \<in> set ?ips then None else grant_map gs ip)"
    and dom: "set ?ips \<subseteq> dom (grant_map gs)" and ce: "close_expired cfg ipt ?ips k = (k', ls)"
    using tick_grants [OF gi Some call] by blast
  note e = close_expired_effect [OF ok ce]
  have cl: "count_list ?ips a = (if a \<in> set ?ips then 1 else 0)" for a
    using d by (simp add: count_list_distinct)
  have opn: "open_for fw a \<noteq> None" "open_for fw' a = None" if "a \<in> set ?ips" for a
    using that dom m unfolding fw' open_for_upd(2) open_for_upd(1) [OF Some] by auto
  have kept: "open_for fw' a = open_for fw a" if "a \<notin> set ?ips" for a
    using that m unfolding fw' open_for_upd(2) open_for_upd(1) [OF Some] by simp
  have act: "(if open_for fw a = None then 0 else 1 :: int) =
      (if open_for fw' a = None then 0 else 1) + int (count_list ?ips a)" for a
    unfolding cl by (cases "a \<in> set ?ips") (simp_all add: opn kept)
  have "excess cfg (rules k) fw a \<le> excess cfg (rules k') fw' a"
    and "\<not> troubled ls \<Longrightarrow> excess cfg (rules k') fw' a = excess cfg (rules k) fw a" for a
    using e(3,4) [of a] unfolding excess_def act by linarith+
  then show ?thesis
    using e(1,2) gi' Some unfolding call_keeps_def fw' by (simp add: firewall_inv_def)
qed

lemma firewall_do_keeps:
  assumes "iptables_ok ipt rules" "firewall_inv cfg fw" "firewall_do cfg ipt c (fw, k) = ((fw', k'), ls)"
  shows "call_keeps cfg (opened_by c) (\<not> troubled ls) (rules k, fw) (rules k', fw')"
  using assms
  by (cases c) (auto simp: Let_def split: prod.splits
      dest: open_call_keeps close_call_keeps tick_call_keeps)

text \<open>The log shows a failure of iptables: a warning or an error other than the refusal of an open for
  lack of slots, which runs no command.\<close>

definition iptables_trouble :: "firewall_msg logs \<Rightarrow> bool" where
  "iptables_trouble ls \<longleftrightarrow> (\<exists>(l, m)\<in>set ls. l \<le> LEVEL_WARN \<and> (\<forall>n ip. m \<noteq> Grant_slots_in_use n ip))"

lemma iptables_trouble_append [simp]:
  "iptables_trouble (a @ b) \<longleftrightarrow> iptables_trouble a \<or> iptables_trouble b"
  by (auto simp: iptables_trouble_def)

lemma no_refusal_trouble:
  "(\<And>l n ip. (l, Grant_slots_in_use n ip) \<notin> set ls) \<Longrightarrow> \<not> iptables_trouble ls \<Longrightarrow> \<not> troubled ls"
  by (force simp: iptables_trouble_def troubled_def)

lemma close_expired_msgs: "close_expired cfg ipt ips k = (k', ls) \<Longrightarrow> (l, Grant_slots_in_use n ip) \<notin> set ls"
proof (induction ips arbitrary: k ls)
  case (Cons a ips)
  then show ?case
    by (auto simp: Let_def split: prod.splits if_splits dest: run_grant_rule_msgs)
qed simp

lemma firewall_do_refusal:
  assumes call: "firewall_do cfg ipt c (fw, k) = ((fw', k'), ls)" and ls: "\<not> iptables_trouble ls"
  shows "\<not> troubled ls \<or> fw' = fw \<and> k' = k"
proof (cases c)
  case (Open now ip)
  have "(\<forall>l n ip. (l, Grant_slots_in_use n ip) \<notin> set ls) \<or> fw' = fw \<and> k' = k"
    using call Open run_grant_rule_msgs
    by (fastforce simp: firewall_open_def Let_def split: prod.splits option.splits if_splits)
  then show ?thesis using no_refusal_trouble [OF _ ls] by blast
next
  case (Close ip)
  have "(l, Grant_slots_in_use n ip) \<notin> set ls" for l n ip
    using call Close run_grant_rule_msgs
    by (fastforce simp: firewall_close_def Let_def split: prod.splits option.splits if_splits)
  then show ?thesis using no_refusal_trouble [OF _ ls] by blast
next
  case (Tick now)
  have "(l, Grant_slots_in_use n ip) \<notin> set ls" for l n ip
    using call Tick close_expired_msgs
    by (fastforce simp: firewall_tick_def Let_def split: prod.splits option.splits)
  then show ?thesis using no_refusal_trouble [OF _ ls] by blast
qed

lemma firewall_do_keeps_excess:
  assumes ok: "iptables_ok ipt rules" and inv: "firewall_inv cfg fw"
    and call: "firewall_do cfg ipt c (fw, k) = ((fw', k'), ls)" and ls: "\<not> iptables_trouble ls"
  shows "excess cfg (rules k') fw' ip = excess cfg (rules k) fw ip"
  using firewall_do_refusal [OF call ls] firewall_do_keeps [OF ok inv call] by (auto simp: call_keeps_def)

fun firewall_run ::
  "config \<Rightarrow> 'k iptables \<Rightarrow> firewall_call list \<Rightarrow> firewall \<times> 'k \<Rightarrow> (firewall \<times> 'k) \<times> firewall_msg logs" where
  "firewall_run cfg ipt [] s = (s, [])"
| "firewall_run cfg ipt (c # cs) s =
     (let (s, l) = firewall_do cfg ipt c s; (s, ls) = firewall_run cfg ipt cs s in (s, l @ ls))"

lemma firewall_run_keeps:
  assumes ok: "iptables_ok ipt rules"
  shows "firewall_inv cfg fw \<Longrightarrow> firewall_run cfg ipt cs (fw, k) = ((fw', k'), ls) \<Longrightarrow>
    call_keeps cfg (\<Union>c\<in>set cs. opened_by c) (\<not> troubled ls) (rules k, fw) (rules k', fw')"
proof (induction cs arbitrary: fw k ls)
  case Nil
  then show ?case by (simp add: call_keeps_refl)
next
  case (Cons c cs)
  obtain fw1 k1 l1 where c: "firewall_do cfg ipt c (fw, k) = ((fw1, k1), l1)" by (metis surj_pair)
  obtain l2 where r: "firewall_run cfg ipt cs (fw1, k1) = ((fw', k'), l2)" and ls: "ls = l1 @ l2"
    using Cons.prems(2) c by (auto simp: Let_def split: prod.splits)
  note k1 = firewall_do_keeps [OF ok Cons.prems(1) c]
  then have "firewall_inv cfg fw1" by (simp add: call_keeps_def)
  from call_keeps_trans [OF k1 Cons.IH [OF this r]] show ?case by (simp add: ls)
qed

lemma firewall_run_keeps_excess:
  assumes ok: "iptables_ok ipt rules"
  shows "firewall_inv cfg fw \<Longrightarrow> firewall_run cfg ipt cs (fw, k) = ((fw', k'), ls) \<Longrightarrow> \<not> iptables_trouble ls \<Longrightarrow>
    excess cfg (rules k') fw' ip = excess cfg (rules k) fw ip"
proof (induction cs arbitrary: fw k ls)
  case (Cons c cs)
  obtain fw1 k1 l1 where c: "firewall_do cfg ipt c (fw, k) = ((fw1, k1), l1)" by (metis surj_pair)
  obtain l2 where r: "firewall_run cfg ipt cs (fw1, k1) = ((fw', k'), l2)" and ls: "ls = l1 @ l2"
    using Cons.prems(2) c by (auto simp: Let_def split: prod.splits)
  have "firewall_inv cfg fw1" using firewall_do_keeps [OF ok Cons.prems(1) c] by (simp add: call_keeps_def)
  from Cons.IH [OF this r] firewall_do_keeps_excess [OF ok Cons.prems(1) c] Cons.prems(3) show ?case by (simp add: ls)
qed simp

section \<open>Start-up and shutdown\<close>

lemma ran_new: "ran (chain_argv ''-N'') rc R R' \<Longrightarrow> same_outside R R'"
  by (auto simp: ran_def split: if_splits dest!: effect_new)

lemma ran_flush: "ran (chain_argv ''-F'') rc R R' \<Longrightarrow>
  same_outside R R' \<and> (rc = 0 \<longrightarrow> R' KNOCKD_CHAIN = Some [])"
  by (auto simp: ran_def split: if_splits dest!: effect_flush)

lemma ran_remove: "ran (chain_argv ''-X'') rc R R' \<Longrightarrow>
  same_outside R R' \<and> (R' = R \<or> R' KNOCKD_CHAIN = None)"
  by (auto simp: ran_def split: if_splits dest!: effect_remove)

lemma ran_check: "ran (jump_argv ''-C'' []) rc R R' \<Longrightarrow>
  R' = R \<and> (rc = 0 \<longrightarrow> (\<exists>rs. R ''INPUT'' = Some rs \<and> jump_rule \<in> set rs))"
  by (auto simp: ran_def split: if_splits dest!: effect_check)

lemma ran_add_jump: "ran (jump_argv ''-I'' [''1'']) rc R R' \<Longrightarrow>
  rc \<noteq> 0 \<and> R' = R \<or> (\<exists>rs. R ''INPUT'' = Some rs \<and> R' = R(''INPUT'' \<mapsto> jump_rule # rs))"
  by (auto simp: ran_def split: if_splits dest!: effect_add_jump)

lemma ran_unhook: "ran (jump_argv ''-D'' []) rc R R' \<Longrightarrow>
  rc \<noteq> 0 \<and> R' = R \<or> (\<exists>rs. R ''INPUT'' = Some rs \<and> R' = R(''INPUT'' \<mapsto> remove1 jump_rule rs))"
  by (auto simp: ran_def split: if_splits dest!: effect_unhook)

lemma firewall_init_run:
  assumes ok: "iptables_ok ipt rules" and init: "firewall_init cfg ipt calloc_ok firewall_start k = (rc, fw, k', ls)"
  shows "rc = 0 \<or> rc = - 1"
    and "rc \<noteq> 0 \<Longrightarrow> fw = firewall_start"
    and "rc = 0 \<Longrightarrow> grants fw = Some (replicate (nat (MAX_CLIENTS cfg)) zero_grant)"
    and "rc = 0 \<Longrightarrow> rules k' KNOCKD_CHAIN = Some []"
    and "rc = 0 \<Longrightarrow> \<exists>rs. rules k' ''INPUT'' = Some rs \<and> jump_rule \<in> set rs \<and>
           rules k ''INPUT'' = Some (if g_added_jump fw then tl rs else rs) \<and>
           (g_added_jump fw \<longrightarrow> hd rs = jump_rule)"
    and "c \<noteq> KNOCKD_CHAIN \<Longrightarrow> c \<noteq> ''INPUT'' \<Longrightarrow> rules k' c = rules k c"
proof -
  obtain rc1 k1 l1 where r1: "run_iptables cfg ipt (chain_argv ''-N'') True k = (rc1, k1, l1)" by (metis prod_cases3)
  obtain rc2 k2 l2 where r2: "run_iptables cfg ipt (chain_argv ''-F'') False k1 = (rc2, k2, l2)" by (metis prod_cases3)
  obtain rc3 k3 l3 where r3: "run_iptables cfg ipt (jump_argv ''-C'' []) True k2 = (rc3, k3, l3)" by (metis prod_cases3)
  obtain rc4 k4 l4 where r4: "run_iptables cfg ipt (jump_argv ''-I'' [''1'']) False k3 = (rc4, k4, l4)" by (metis prod_cases3)
  note x1 = ran_new [OF run_iptables_ran(1) [OF ok r1]] and x2 = ran_flush [OF run_iptables_ran(1) [OF ok r2]]
    and x3 = ran_check [OF run_iptables_ran(1) [OF ok r3]] and x4 = ran_add_jump [OF run_iptables_ran(1) [OF ok r4]]
  note init' = init [unfolded firewall_init_def Let_def, simplified r1 r2 r3 r4 split_def fst_conv snd_conv]
  note in_out = x1 x2 same_outside_def [of "rules k" "rules k1"] same_outside_def [of "rules k1" "rules k2"]
  have input: "rules k2 ''INPUT'' = rules k ''INPUT''" using in_out by simp
  show "rc = 0 \<or> rc = - 1" "rc \<noteq> 0 \<Longrightarrow> fw = firewall_start"
    "rc = 0 \<Longrightarrow> grants fw = Some (replicate (nat (MAX_CLIENTS cfg)) zero_grant)"
    using init' by (auto simp: firewall_start_def split: if_splits)
  show "rc = 0 \<Longrightarrow> rules k' KNOCKD_CHAIN = Some []"
    using init' x2 x3 x4 by (auto split: if_splits)
  show "rc = 0 \<Longrightarrow> \<exists>rs. rules k' ''INPUT'' = Some rs \<and> jump_rule \<in> set rs \<and>
           rules k ''INPUT'' = Some (if g_added_jump fw then tl rs else rs) \<and>
           (g_added_jump fw \<longrightarrow> hd rs = jump_rule)"
    using init' x3 x4 input by (auto simp: firewall_start_def split: if_splits)
  show "c \<noteq> KNOCKD_CHAIN \<Longrightarrow> c \<noteq> ''INPUT'' \<Longrightarrow> rules k' c = rules k c"
    using init' in_out x3 x4 by (auto split: if_splits)
qed

lemma init_jump_failed:
  assumes ok: "iptables_ok ipt rules" and init: "firewall_init cfg ipt True firewall_start k = (rc, fw, k', ls)"
    and jump: "(LEVEL_ERROR, Jump_insert_failed) \<in> set ls"
  shows "rc = - 1 \<and> rules k' KNOCKD_CHAIN = Some []"
proof -
  obtain rc1 k1 l1 where r1: "run_iptables cfg ipt (chain_argv ''-N'') True k = (rc1, k1, l1)" by (metis prod_cases3)
  obtain rc2 k2 l2 where r2: "run_iptables cfg ipt (chain_argv ''-F'') False k1 = (rc2, k2, l2)" by (metis prod_cases3)
  obtain rc3 k3 l3 where r3: "run_iptables cfg ipt (jump_argv ''-C'' []) True k2 = (rc3, k3, l3)" by (metis prod_cases3)
  obtain rc4 k4 l4 where r4: "run_iptables cfg ipt (jump_argv ''-I'' [''1'']) False k3 = (rc4, k4, l4)" by (metis prod_cases3)
  note init' = init [unfolded firewall_init_def Let_def, simplified r1 r2 r3 r4 split_def fst_conv snd_conv]
  have quiet: "(LEVEL_ERROR, Jump_insert_failed) \<notin> set (l1 @ l2 @ l3 @ l4)"
    using run_iptables_msgs(2) [OF r1, of LEVEL_ERROR] run_iptables_msgs(2) [OF r2, of LEVEL_ERROR]
      run_iptables_msgs(2) [OF r3, of LEVEL_ERROR] run_iptables_msgs(2) [OF r4, of LEVEL_ERROR] by auto
  with jump init' have "rc2 = 0" "rc = - 1" "k' = k4" by (auto split: if_splits)
  moreover have "rules k2 KNOCKD_CHAIN = Some []"
    using ran_flush [OF run_iptables_ran(1) [OF ok r2]] \<open>rc2 = 0\<close> by blast
  ultimately show ?thesis
    using ran_check [OF run_iptables_ran(1) [OF ok r3]] ran_add_jump [OF run_iptables_ran(1) [OF ok r4]] by auto
qed

lemma firewall_shutdown_run:
  assumes ok: "iptables_ok ipt rules" and up: "grants fw \<noteq> None"
    and down: "firewall_shutdown cfg ipt fw k = (fw', k', ls)"
  shows "grants fw' = None"
    and "\<not> troubled ls \<Longrightarrow> knockd_rules (rules k') = []"
    and "\<not> troubled ls \<Longrightarrow> rules k' ''INPUT'' =
           (if g_added_jump fw then map_option (remove1 jump_rule) (rules k ''INPUT'') else rules k ''INPUT'')"
    and "c \<noteq> KNOCKD_CHAIN \<Longrightarrow> c \<noteq> ''INPUT'' \<Longrightarrow> rules k' c = rules k c"
proof -
  obtain rc1 k1 l1 where r1: "run_iptables cfg ipt (chain_argv ''-F'') False k = (rc1, k1, l1)" by (metis prod_cases3)
  obtain rc2 k2 l2 where r2: "run_iptables cfg ipt (jump_argv ''-D'' []) False k1 = (rc2, k2, l2)" by (metis prod_cases3)
  obtain rc3 k3 l3 where r3: "run_iptables cfg ipt (chain_argv ''-X'') True k2 = (rc3, k3, l3)" by (metis prod_cases3)
  note x1 = ran_flush [OF run_iptables_ran(1) [OF ok r1]] run_iptables_ran(2) [OF ok r1]
    and x2 = ran_unhook [OF run_iptables_ran(1) [OF ok r2]] run_iptables_ran(2) [OF ok r2]
    and x3 = ran_remove [OF run_iptables_ran(1) [OF ok r3]]
  note so = same_outside_def [of "rules k" "rules k1"] same_outside_def [of "rules k2" "rules k3"]
  note down' = down [unfolded firewall_shutdown_def Let_def, simplified r1 r2 r3 split_def fst_conv snd_conv]
  show "grants fw' = None" using down' by (auto split: option.splits)
  show "\<not> troubled ls \<Longrightarrow> knockd_rules (rules k') = []"
    using down' up x1 x2 x3 by (auto simp: knockd_rules_def split: if_splits)
  show "\<not> troubled ls \<Longrightarrow> rules k' ''INPUT'' =
           (if g_added_jump fw then map_option (remove1 jump_rule) (rules k ''INPUT'') else rules k ''INPUT'')"
    using down' up x1 x2 x3 so by (auto split: if_splits)
  show "c \<noteq> KNOCKD_CHAIN \<Longrightarrow> c \<noteq> ''INPUT'' \<Longrightarrow> rules k' c = rules k c"
    using down' up x1 x2 x3 so by (auto split: if_splits)
qed

section \<open>A run of the firewall from start-up\<close>

text \<open>\<open>firewall_init\<close> succeeds and any calls follow.\<close>

definition firewall_session ::
  "config \<Rightarrow> 'k iptables \<Rightarrow> firewall_call list \<Rightarrow> 'k \<Rightarrow> ((firewall \<times> 'k) \<times> firewall_msg logs) option" where
  "firewall_session cfg ipt cs k =
     (let (rc, fw, k, l) = firewall_init cfg ipt True firewall_start k
      in if rc \<noteq> 0 then None else Some (firewall_run cfg ipt cs (fw, k)))"

lemma open_for_fresh: "grants fw = Some (replicate n zero_grant) \<Longrightarrow> open_for fw ip = None"
  by (simp add: open_for_def zero_grant_def slot_map_replicate)

lemma fresh_inv: "grants fw = Some (replicate (nat (MAX_CLIENTS cfg)) zero_grant) \<Longrightarrow> firewall_inv cfg fw"
  by (simp add: firewall_inv_def grants_inv_def zero_grant_def slots_unique_replicate)

lemma firewall_session_keeps:
  assumes ok: "iptables_ok ipt rules" and run: "firewall_session cfg ipt cs k = Some ((fw', k'), ls)"
  obtains fw1 k1 l1 where "firewall_init cfg ipt True firewall_start k = (0, fw1, k1, l1)"
    "call_keeps cfg (\<Union>c\<in>set cs. opened_by c) (\<not> troubled ls) (rules k1, fw1) (rules k', fw')"
    "grants fw1 = Some (replicate (nat (MAX_CLIENTS cfg)) zero_grant)"
    "knockd_rules (rules k1) = []" "\<forall>ip. excess cfg (rules k1) fw1 ip = 0"
proof -
  obtain rc fw1 k1 l1 where i: "firewall_init cfg ipt True firewall_start k = (rc, fw1, k1, l1)"
    by (metis prod_cases4)
  have rc: "rc = 0" and r: "firewall_run cfg ipt cs (fw1, k1) = ((fw', k'), ls)"
    using run i by (auto simp: firewall_session_def split: if_splits)
  note init = firewall_init_run [OF ok i]
  have g: "grants fw1 = Some (replicate (nat (MAX_CLIENTS cfg)) zero_grant)" using init(3) rc by blast
  have kr: "knockd_rules (rules k1) = []" using init(4) rc by (simp add: knockd_rules_def)
  have "\<forall>ip. excess cfg (rules k1) fw1 ip = 0" by (simp add: excess_def kr open_for_fresh [OF g])
  with that i rc firewall_run_keeps [OF ok fresh_inv [OF g] r] g kr show ?thesis by blast
qed

lemma excess_rule: "0 < excess cfg R fw ip \<or> 0 \<le> excess cfg R fw ip \<and> open_for fw ip \<noteq> None \<Longrightarrow>
  grant_rule cfg ip \<in> set (knockd_rules R)"
  unfolding count_list_pos_iff [symmetric] by (auto simp: excess_def split: if_splits)

lemma UN_opened_by: "(\<Union>c\<in>set cs. opened_by c) = {ip. \<exists>t. Open t ip \<in> set cs}"
proof -
  have "ip \<in> opened_by c \<longleftrightarrow> (\<exists>t. c = Open t ip)" for c ip by (cases c) auto
  then show ?thesis by auto
qed

lemma session_restored:
  assumes ok: "iptables_ok ipt rules"
    and session: "firewall_session cfg ipt cs k = Some ((fw', k'), ls)"
    and down: "firewall_shutdown cfg ipt fw' k' = (fw'', k'', l2)" and quiet: "\<not> troubled l2"
  shows "knockd_rules (rules k'') = [] \<and> same_outside (rules k) (rules k'') \<and> grants fw'' = None"
proof -
  obtain fw1 k1 l1 where i: "firewall_init cfg ipt True firewall_start k = (0, fw1, k1, l1)"
    and keeps: "call_keeps cfg (\<Union>c\<in>set cs. opened_by c) (\<not> troubled ls) (rules k1, fw1) (rules k', fw')"
    and g: "grants fw1 = Some (replicate (nat (MAX_CLIENTS cfg)) zero_grant)"
    and "knockd_rules (rules k1) = []" "\<forall>ip. excess cfg (rules k1) fw1 ip = 0"
    by (rule firewall_session_keeps [OF ok session])
  note init = firewall_init_run [OF ok i]
  have mid: "rules k' c = rules k1 c" if "c \<noteq> KNOCKD_CHAIN" for c
    using keeps that by (simp add: call_keeps_def same_outside_def)
  have up: "grants fw' \<noteq> None" and jump: "g_added_jump fw' = g_added_jump fw1"
    using keeps g by (simp_all add: call_keeps_def)
  note sd = firewall_shutdown_run [OF ok up down]
  obtain rs where rs: "rules k1 ''INPUT'' = Some rs" "rules k ''INPUT'' = Some (if g_added_jump fw1 then tl rs else rs)"
    "jump_rule \<in> set rs" "g_added_jump fw1 \<longrightarrow> hd rs = jump_rule"
    using init(5) by blast
  have "rules k'' ''INPUT'' = rules k ''INPUT''"
    using sd(3) [OF quiet] mid [of "''INPUT''"] rs jump by (cases rs) auto
  then have "rules k'' c = rules k c" if "c \<noteq> KNOCKD_CHAIN" for c
    using that mid [OF that] sd(4) [of c] init(6) [of c] by (cases "c = ''INPUT''") simp_all
  then show ?thesis using sd(1,2) quiet by (simp add: same_outside_def)
qed

lemma session_rules:
  assumes ok: "iptables_ok ipt rules" and session: "firewall_session cfg ipt cs k = Some ((fw', k'), ls)"
  shows "set (knockd_rules (rules k')) \<subseteq> grant_rule cfg ` {ip. \<exists>t. Open t ip \<in> set cs}"
proof -
  obtain fw1 k1 l1 where "firewall_init cfg ipt True firewall_start k = (0, fw1, k1, l1)"
    and keeps: "call_keeps cfg (\<Union>c\<in>set cs. opened_by c) (\<not> troubled ls) (rules k1, fw1) (rules k', fw')"
    and "grants fw1 = Some (replicate (nat (MAX_CLIENTS cfg)) zero_grant)"
    and empty: "knockd_rules (rules k1) = []" and "\<forall>ip. excess cfg (rules k1) fw1 ip = 0"
    by (rule firewall_session_keeps [OF ok session])
  from keeps empty show ?thesis by (simp add: call_keeps_def UN_opened_by)
qed

text \<open>What one call of \<open>firewall_open\<close> does, and how chain and grants agree after any calls.\<close>

lemma firewall_open_effect:
  assumes ok: "iptables_ok ipt rules" and gi: "grants_inv cfg gs" and gs: "grants fw = Some gs"
    and call: "firewall_open cfg ipt now ip fw k = (rc, fw', k', ls)"
  shows "(if open_for fw ip \<noteq> None
          then rc = 0 \<and> k' = k \<and> open_for fw' = (open_for fw)(ip \<mapsto> now + ACCESS_TIMEOUT cfg)
          else if \<forall>g\<in>set gs. g_active g then rc = - 1 \<and> k' = k \<and> fw' = fw
          else if rc = 0
          then open_for fw' = (open_for fw)(ip \<mapsto> now + ACCESS_TIMEOUT cfg) \<and>
               knockd_rules (rules k') = grant_rule cfg ip # knockd_rules (rules k)
          else rc = - 1 \<and> open_for fw' = open_for fw \<and> troubled ls)"
proof -
  have u: "slots_unique g_active g_ip gs" using gi by (simp add: grants_inv_def)
  have of: "open_for fw a = map_option expires_at (grant_map gs a)" for a by (rule open_for_upd(1) [OF gs])
  have found: "open_for fw ip \<noteq> None \<longleftrightarrow> find_grant cfg gs ip \<noteq> None"
    unfolding of find_grant_map [OF gi] by simp
  let ?u = "now + ACCESS_TIMEOUT cfg"
  let ?g = "\<lparr>g_ip = ip, expires_at = ?u, g_active = True\<rparr>"
  consider (old) i where "find_grant cfg gs ip = Some i"
    | (full) "find_grant cfg gs ip = None" "free_grant cfg gs = None"
    | (new) i where "find_grant cfg gs ip = None" "free_grant cfg gs = Some i" by fastforce
  then show ?thesis
  proof cases
    case old
    let ?e = "(gs ! i)\<lparr>expires_at := ?u\<rparr>"
    note i = find_grant_SomeD [OF gi old]
    note up = grant_slots.overwrite(2) [OF u, of i ?e]
    have "open_for (fw\<lparr>grants := Some (gs[i := ?e])\<rparr>) = (open_for fw)(ip \<mapsto> ?u)"
      using up i by (auto simp: open_for_upd(2) of)
    with call gs old found show ?thesis by (auto simp: firewall_open_def Let_def)
  next
    case full
    with call gs found free_grant_None [OF gi] show ?thesis by (auto simp: firewall_open_def Let_def)
  next
    case new
    note i = free_grant_SomeD [OF gi new(2)]
    have m: "grant_map gs ip = None" using find_grant_map [OF gi, of ip] new(1) by simp
    obtain rc1 k1 l1 where r: "run_grant_rule cfg ipt ''-I'' (inet_ntop ip) k = (rc1, k1, l1)" by (metis prod_cases3)
    note g = run_grant_insert [OF ok r]
    have some: "\<not> (\<forall>g\<in>set gs. g_active g)" using i by auto
    note cl = grant_slots.claim [OF u, of i ?g]
    have c: "open_for (fw\<lparr>grants := Some (gs[i := ?g])\<rparr>) = (open_for fw)(ip \<mapsto> ?u)"
      using cl(2) i m by (auto simp: open_for_upd(2) of)
    have u1: "slots_unique g_active g_ip (gs[i := ?g])" using cl(1) i m by simp
    have "grant_map (gs[i := ?g\<lparr>g_active := False\<rparr>]) = grant_map gs"
      using grant_slots.release(2) [OF u1, of i "?g\<lparr>g_active := False\<rparr>"] cl(2) i m by (simp add: fun_eq_iff)
    then have f: "open_for (fw\<lparr>grants := Some (gs[i := ?g\<lparr>g_active := False\<rparr>])\<rparr>) = open_for fw"
      by (simp add: open_for_upd(2) of fun_eq_iff)
    show ?thesis
    proof (cases "rc1 = 0")
      case True
      then have "rc = 0" "k' = k1" "fw' = fw\<lparr>grants := Some (gs[i := ?g])\<rparr>"
        using call gs new r by (simp_all add: firewall_open_def Let_def)
      with c g(2) True found some new(1) show ?thesis by simp
    next
      case False
      then have "rc = - 1" "fw' = fw\<lparr>grants := Some (gs[i := ?g\<lparr>g_active := False\<rparr>])\<rparr>" "troubled ls"
        using call gs new r i by (auto simp: firewall_open_def Let_def)
      with f found some new(1) show ?thesis by auto
    qed
  qed
qed

lemma firewall_open_command:
  assumes ok: "iptables_ok ipt rules" and gi: "grants_inv cfg gs" and gs: "grants fw = Some gs"
    and call: "firewall_open cfg ipt now ip fw k = (rc, fw', k', ls)"
    and new: "open_for fw ip = None" "\<not> (\<forall>g\<in>set gs. g_active g)"
    and cmd: "ipt (grant_argv cfg ''-I'' (inet_ntop ip)) k = (child, k1)"
  shows "k' = k1" and "rc = (if exits_zero child then 0 else - 1)" and "troubled ls \<longleftrightarrow> \<not> exits_zero child"
    and "same_outside (rules k) (rules k')" and "surely_failed child \<Longrightarrow> rules k' = rules k"
    and "knockd_rules (rules k') = grant_rule cfg ip # knockd_rules (rules k) \<or>
         \<not> exits_zero child \<and> knockd_rules (rules k') = knockd_rules (rules k)"
proof -
  have find: "find_grant cfg gs ip = None"
    using new(1) unfolding open_for_upd(1) [OF gs] find_grant_map [OF gi] by simp
  obtain i where free: "free_grant cfg gs = Some i" using free_grant_None [OF gi] new(2) by fastforce
  obtain rc1 k2 l1 where r: "run_grant_rule cfg ipt ''-I'' (inet_ntop ip) k = (rc1, k2, l1)" by (metis prod_cases3)
  have rc1: "rc1 = fst (child_result False child)" and k2: "k2 = k1"
    using r cmd by (auto simp: run_grant_rule_def run_iptables_def Let_def split: prod.splits)
  have zero: "rc1 = 0 \<longleftrightarrow> exits_zero child" unfolding rc1 by (rule child_result_zero)
  note g = run_grant_insert [OF ok r]
  have all: "k' = k2 \<and> rc = (if rc1 = 0 then 0 else - 1) \<and> (troubled ls \<longleftrightarrow> rc1 \<noteq> 0)"
    using call gs find free r g(4) by (auto simp: firewall_open_def Let_def split: if_splits)
  show "k' = k1" "rc = (if exits_zero child then 0 else - 1)" "troubled ls \<longleftrightarrow> \<not> exits_zero child"
    using all zero k2 by simp_all
  show "same_outside (rules k) (rules k')" using g(1) all by simp
  show "knockd_rules (rules k') = grant_rule cfg ip # knockd_rules (rules k) \<or>
         \<not> exits_zero child \<and> knockd_rules (rules k') = knockd_rules (rules k)"
    using g(2) all zero by auto
  have "outcome_ok (grant_argv cfg ''-I'' (inet_ntop ip)) (rules k) child (rules k1)"
    using ok cmd unfolding iptables_ok_def by (metis fst_conv snd_conv)
  then show "surely_failed child \<Longrightarrow> rules k' = rules k"
    using surely_failed_unchanged all k2 by blast
qed

lemma firewall_open_logs:
  assumes gi: "grants_inv cfg gs" and gs: "grants fw = Some gs"
    and call: "firewall_open cfg ipt now ip fw k = (rc, fw', k', ls)"
  shows "open_for fw ip \<noteq> None \<Longrightarrow> ls = [(LEVEL_INFO, Access_extended ip (ACCESS_TIMEOUT cfg))]"
    and "open_for fw ip = None \<Longrightarrow> \<forall>g\<in>set gs. g_active g \<Longrightarrow> ls = [(LEVEL_ERROR, Grant_slots_in_use (MAX_CLIENTS cfg) ip)]"
proof -
  have found: "open_for fw ip = None \<longleftrightarrow> find_grant cfg gs ip = None"
    unfolding open_for_upd(1) [OF gs] find_grant_map [OF gi] by simp
  show "open_for fw ip \<noteq> None \<Longrightarrow> ls = [(LEVEL_INFO, Access_extended ip (ACCESS_TIMEOUT cfg))]"
    using call gs found by (auto simp: firewall_open_def Let_def)
  assume "open_for fw ip = None" "\<forall>g\<in>set gs. g_active g"
  moreover from this(2) have "free_grant cfg gs = None"
    using free_grant_SomeD [OF gi] by (meson not_Some_eq nth_mem)
  ultimately show "ls = [(LEVEL_ERROR, Grant_slots_in_use (MAX_CLIENTS cfg) ip)]"
    using call gs found by (auto simp: firewall_open_def Let_def)
qed

lemma session_agrees:
  assumes ok: "iptables_ok ipt rules" and session: "firewall_session cfg ipt cs k = Some ((fw', k'), ls)"
  shows "(open_for fw' ip \<noteq> None \<longrightarrow> grant_rule cfg ip \<in> set (knockd_rules (rules k'))) \<and>
    (\<not> troubled ls \<longrightarrow>
       count_list (knockd_rules (rules k')) (grant_rule cfg ip) = (if open_for fw' ip = None then 0 else 1))"
proof -
  obtain fw1 k1 l1 where "firewall_init cfg ipt True firewall_start k = (0, fw1, k1, l1)"
    and keeps: "call_keeps cfg (\<Union>c\<in>set cs. opened_by c) (\<not> troubled ls) (rules k1, fw1) (rules k', fw')"
    and "grants fw1 = Some (replicate (nat (MAX_CLIENTS cfg)) zero_grant)"
    and "knockd_rules (rules k1) = []" and zero: "\<forall>ip. excess cfg (rules k1) fw1 ip = 0"
    by (rule firewall_session_keeps [OF ok session])
  have e: "0 \<le> excess cfg (rules k') fw' ip" "\<not> troubled ls \<Longrightarrow> excess cfg (rules k') fw' ip = 0"
    using keeps zero unfolding call_keeps_def by simp_all
  have "count_list (knockd_rules (rules k')) (grant_rule cfg ip) = (if open_for fw' ip = None then 0 else 1)"
    if "\<not> troubled ls" using e(2) [OF that] by (cases "open_for fw' ip") (simp_all add: excess_def)
  moreover have "grant_rule cfg ip \<in> set (knockd_rules (rules k'))" if "open_for fw' ip \<noteq> None"
    using e(1) that by (intro excess_rule [of cfg _ fw']) simp
  ultimately show ?thesis by blast
qed

lemma session_in_step:
  assumes ok: "iptables_ok ipt rules" and session: "firewall_session cfg ipt cs k = Some ((fw', k'), ls)"
    and ls: "\<not> iptables_trouble ls"
  shows "count_list (knockd_rules (rules k')) (grant_rule cfg ip) = (if open_for fw' ip = None then 0 else 1)"
proof -
  obtain fw1 k1 l1 where i: "firewall_init cfg ipt True firewall_start k = (0, fw1, k1, l1)"
    and "call_keeps cfg (\<Union>c\<in>set cs. opened_by c) (\<not> troubled ls) (rules k1, fw1) (rules k', fw')"
    and g: "grants fw1 = Some (replicate (nat (MAX_CLIENTS cfg)) zero_grant)"
    and "knockd_rules (rules k1) = []" and zero: "\<forall>ip. excess cfg (rules k1) fw1 ip = 0"
    by (rule firewall_session_keeps [OF ok session])
  have run: "firewall_run cfg ipt cs (fw1, k1) = ((fw', k'), ls)" using session i by (simp add: firewall_session_def)
  from firewall_run_keeps_excess [OF ok fresh_inv [OF g] run ls, of ip] zero have "excess cfg (rules k') fw' ip = 0" by simp
  then show ?thesis by (cases "open_for fw' ip") (simp_all add: excess_def)
qed

lemma session_table:
  assumes ok: "iptables_ok ipt rules" and session: "firewall_session cfg ipt cs k = Some ((fw', k'), ls)"
  obtains gs where "grants fw' = Some gs" "grants_inv cfg gs"
proof -
  obtain fw1 k1 l1 where "firewall_init cfg ipt True firewall_start k = (0, fw1, k1, l1)"
    and keeps: "call_keeps cfg (\<Union>c\<in>set cs. opened_by c) (\<not> troubled ls) (rules k1, fw1) (rules k', fw')"
    and g: "grants fw1 = Some (replicate (nat (MAX_CLIENTS cfg)) zero_grant)"
    and "knockd_rules (rules k1) = []" "\<forall>ip. excess cfg (rules k1) fw1 ip = 0"
    by (rule firewall_session_keeps [OF ok session])
  then have "firewall_inv cfg fw'" "grants fw' \<noteq> None" by (simp_all add: call_keeps_def)
  with that show ?thesis by (auto simp: firewall_inv_def)
qed

section \<open>Deadlines\<close>

text \<open>Every deadline in the table is the access time after some call of \<open>firewall_open\<close>.\<close>

definition dated :: "config \<Rightarrow> (ipv4 \<times> seconds) set \<Rightarrow> firewall \<Rightarrow> bool" where
  "dated cfg opens fw \<longleftrightarrow> (\<forall>ip u. open_for fw ip = Some u \<longrightarrow> (ip, u - ACCESS_TIMEOUT cfg) \<in> opens)"

definition opens_of :: "firewall_call list \<Rightarrow> (ipv4 \<times> seconds) set" where
  "opens_of cs = {(ip, t). Open t ip \<in> set cs}"

lemma dated_open:
  assumes ok: "iptables_ok ipt rules" and inv: "firewall_inv cfg fw"
    and call: "firewall_open cfg ipt now ip fw k = (rc, fw', k', ls)" and d: "dated cfg opens fw"
  shows "dated cfg (insert (ip, now) opens) fw'"
proof (cases "grants fw")
  case None
  with call d show ?thesis by (auto simp: firewall_open_def dated_def)
next
  case (Some gs)
  then have gi: "grants_inv cfg gs" using inv by (simp add: firewall_inv_def)
  have "fw' = fw \<or> open_for fw' = open_for fw \<or> open_for fw' = (open_for fw)(ip \<mapsto> now + ACCESS_TIMEOUT cfg)"
    using firewall_open_effect [OF ok gi Some call] by (auto split: if_splits)
  with d show ?thesis by (auto simp: dated_def split: if_splits)
qed

lemma close_removes:
  assumes inv: "firewall_inv cfg fw" and call: "firewall_close cfg ipt ip fw k = (rc, fw', k', ls)"
  shows "open_for fw' a = Some u \<Longrightarrow> open_for fw a = Some u"
proof (cases "\<exists>gs i. grants fw = Some gs \<and> find_grant cfg gs ip = Some i")
  case False
  with call show "open_for fw' a = Some u \<Longrightarrow> open_for fw a = Some u" by (auto simp: firewall_close_def split: option.splits)
next
  case True
  then obtain gs i where gs: "grants fw = Some gs" and f: "find_grant cfg gs ip = Some i" by blast
  have gi: "grants_inv cfg gs" using inv gs by (simp add: firewall_inv_def)
  then have uq: "slots_unique g_active g_ip gs" by (simp add: grants_inv_def)
  note i = find_grant_SomeD [OF gi f]
  have "fw' = fw\<lparr>grants := Some (gs[i := (gs ! i)\<lparr>g_active := False\<rparr>])\<rparr>"
    using call gs f by (auto simp: firewall_close_def Let_def split: if_splits prod.splits)
  with grant_slots.release(2) [OF uq, of i "(gs ! i)\<lparr>g_active := False\<rparr>"] i
  show "open_for fw' a = Some u \<Longrightarrow> open_for fw a = Some u"
    by (auto simp: open_for_upd(2) open_for_upd(1) [OF gs] split: if_splits)
qed

lemma tick_removes:
  assumes inv: "firewall_inv cfg fw" and call: "firewall_tick cfg ipt now fw k = (fw', k', ls)"
    and opn: "open_for fw' a = Some u"
  shows "open_for fw a = Some u"
proof (cases "grants fw")
  case None
  with call opn show ?thesis by (auto simp: firewall_tick_def)
next
  case (Some gs)
  then have gi: "grants_inv cfg gs" using inv by (simp add: firewall_inv_def)
  obtain gs' where "fw' = fw\<lparr>grants := Some gs'\<rparr>"
    "\<forall>ip. grant_map gs' ip = (if ip \<in> set (tick_closes now gs) then None else grant_map gs ip)"
    using tick_grants [OF gi Some call] by blast
  with opn show ?thesis by (auto simp: open_for_upd(2) open_for_upd(1) [OF Some] split: if_splits)
qed

lemma dated_do:
  assumes ok: "iptables_ok ipt rules" and inv: "firewall_inv cfg fw"
    and call: "firewall_do cfg ipt c (fw, k) = ((fw', k'), ls)" and d: "dated cfg opens fw"
  shows "dated cfg (opens_of [c] \<union> opens) fw'"
proof (cases c)
  case (Open now ip)
  then obtain rc where "firewall_open cfg ipt now ip fw k = (rc, fw', k', ls)"
    using call by (auto simp: Let_def split: prod.splits)
  from dated_open [OF ok inv this d] Open show ?thesis by (auto simp: opens_of_def dated_def)
next
  case (Close ip)
  then obtain rc where "firewall_close cfg ipt ip fw k = (rc, fw', k', ls)"
    using call by (auto simp: Let_def split: prod.splits)
  from close_removes [OF inv this] d show ?thesis unfolding dated_def by blast
next
  case (Tick now)
  then have "firewall_tick cfg ipt now fw k = (fw', k', ls)" using call by (auto simp: Let_def split: prod.splits)
  from tick_removes [OF inv this] d show ?thesis unfolding dated_def by blast
qed

lemma dated_run:
  assumes ok: "iptables_ok ipt rules"
  shows "firewall_inv cfg fw \<Longrightarrow> firewall_run cfg ipt cs (fw, k) = ((fw', k'), ls) \<Longrightarrow> dated cfg opens fw \<Longrightarrow>
    dated cfg (opens_of cs \<union> opens) fw'"
proof (induction cs arbitrary: fw k ls opens)
  case Nil
  then show ?case by (simp add: opens_of_def)
next
  case (Cons c cs)
  obtain fw1 k1 l1 where c: "firewall_do cfg ipt c (fw, k) = ((fw1, k1), l1)" by (metis surj_pair)
  obtain l2 where r: "firewall_run cfg ipt cs (fw1, k1) = ((fw', k'), l2)"
    using Cons.prems(2) c by (auto simp: Let_def split: prod.splits)
  have "firewall_inv cfg fw1" using firewall_do_keeps [OF ok Cons.prems(1) c] by (simp add: call_keeps_def)
  from Cons.IH [OF this r dated_do [OF ok Cons.prems(1) c Cons.prems(3)]]
  have "dated cfg (opens_of cs \<union> (opens_of [c] \<union> opens)) fw'" .
  moreover have "opens_of (c # cs) \<union> opens = opens_of cs \<union> (opens_of [c] \<union> opens)" by (auto simp: opens_of_def)
  ultimately show ?case by simp
qed

section \<open>Draining expired grants\<close>

lemma expire_scan_subset: "g \<in> set (snd (expire_scan now room gs)) \<Longrightarrow> g_active g \<Longrightarrow> g \<in> set gs"
  by (induction now room gs rule: expire_scan.induct) (auto simp: Let_def split: prod.splits if_splits)

lemma grant_due_mono: "t \<le> now \<Longrightarrow> grant_due t g \<Longrightarrow> grant_due now g"
  by (simp add: grant_due_def)

lemma tick_step:
  assumes "grants_inv cfg gs" "grants fw = Some gs" "firewall_do cfg ipt (Tick now) (fw, k) = ((fw', k'), ls)"
  shows "grants fw' = Some (snd (expire_scan now MAX_EXPIRY_PER_TICK gs))"
    and "grants_inv cfg (snd (expire_scan now MAX_EXPIRY_PER_TICK gs))"
proof -
  have t: "firewall_tick cfg ipt now fw k = (fw', k', ls)"
    using assms(3) by (auto simp: Let_def split: prod.splits)
  obtain gs' where "fw' = fw\<lparr>grants := Some gs'\<rparr>" "gs' = snd (expire_scan now MAX_EXPIRY_PER_TICK gs)"
    "grants_inv cfg gs'" using tick_grants [OF assms(1,2) t] by blast
  then show "grants fw' = Some (snd (expire_scan now MAX_EXPIRY_PER_TICK gs))"
    "grants_inv cfg (snd (expire_scan now MAX_EXPIRY_PER_TICK gs))" by simp_all
qed

lemma ticks_drain_aux:
  assumes "grants_inv cfg gs" "grants fw = Some gs" "\<forall>now\<in>set ts. t \<le> now"
    and "(\<forall>g\<in>set gs. \<not> grant_due t g) \<or> length (filter g_active gs) \<le> MAX_EXPIRY_PER_TICK * length ts"
    and "firewall_run cfg ipt (map Tick ts) (fw, k) = ((fw', k'), ls)"
  shows "\<exists>gs'. grants fw' = Some gs' \<and> (\<forall>g\<in>set gs'. \<not> grant_due t g)"
  using assms
proof (induction ts arbitrary: gs fw k ls)
  case Nil
  then show ?case by (auto simp: filter_empty_conv grant_due_def)
next
  case (Cons now ts)
  let ?gs = "snd (expire_scan now MAX_EXPIRY_PER_TICK gs)"
  obtain fw1 k1 l1 where d: "firewall_do cfg ipt (Tick now) (fw, k) = ((fw1, k1), l1)" by (metis surj_pair)
  then obtain l2 where r: "firewall_run cfg ipt (map Tick ts) (fw1, k1) = ((fw', k'), l2)"
    using Cons.prems(5) by (auto simp: Let_def split: prod.splits simp del: firewall_do.simps)
  note st = tick_step [OF Cons.prems(1,2) d]
  have t: "t \<le> now" using Cons.prems(3) by simp
  have "(\<forall>g\<in>set ?gs. \<not> grant_due t g) \<or> length (filter g_active ?gs) \<le> MAX_EXPIRY_PER_TICK * length ts"
  proof (cases "length (filter (grant_due now) gs) \<le> MAX_EXPIRY_PER_TICK")
    case True
    then have "filter (grant_due now) ?gs = []" by (simp add: expire_scan_due)
    then show ?thesis using grant_due_mono [OF t] by (auto simp: filter_empty_conv)
  next
    case False
    then have "length (fst (expire_scan now MAX_EXPIRY_PER_TICK gs)) = MAX_EXPIRY_PER_TICK"
      by (simp add: expire_scan_ips)
    with expire_scan_active [of now MAX_EXPIRY_PER_TICK gs]
    have "length (filter g_active gs) = length (filter g_active ?gs) + MAX_EXPIRY_PER_TICK" by simp
    moreover have "\<forall>g\<in>set gs. \<not> grant_due t g \<Longrightarrow> \<forall>g\<in>set ?gs. \<not> grant_due t g"
      using expire_scan_subset by (force simp: grant_due_def)
    ultimately show ?thesis using Cons.prems(4) by auto
  qed
  with Cons.IH [OF st(2,1) _ _ r] Cons.prems(3) show ?case by simp
qed

text \<open>After enough ticks at or past every deadline no grant is left.\<close>

lemma run_append:
  "firewall_run cfg ipt (cs @ cs') s =
     (let (s, l) = firewall_run cfg ipt cs s; (s, l') = firewall_run cfg ipt cs' s in (s, l @ l'))"
  by (induction cs arbitrary: s) (auto simp: Let_def split: prod.splits)

lemma session_grants_end:
  assumes ok: "iptables_ok ipt rules"
    and ses: "firewall_session cfg ipt (cs @ map Tick ts) k = Some ((fw', k'), ls)"
    and old: "\<forall>t ip. Open t ip \<in> set cs \<longrightarrow> t + ACCESS_TIMEOUT cfg \<le> T" and ticks: "\<forall>now\<in>set ts. T \<le> now"
    and enough: "MAX_CLIENTS cfg \<le> 16 * int (length ts)"
  shows "open_for fw' ip = None"
proof -
  obtain rc fw0 k0 l0 where i: "firewall_init cfg ipt True firewall_start k = (rc, fw0, k0, l0)" by (metis prod_cases4)
  then have rc: "rc = 0" and run: "firewall_run cfg ipt (cs @ map Tick ts) (fw0, k0) = ((fw', k'), ls)"
    using ses by (auto simp: firewall_session_def split: if_splits)
  have g: "grants fw0 = Some (replicate (nat (MAX_CLIENTS cfg)) zero_grant)" using firewall_init_run(3) [OF ok i rc] .
  note inv0 = fresh_inv [OF g]
  have d0: "dated cfg {} fw0" by (simp add: dated_def open_for_fresh [OF g])
  obtain fw1 k1 l1 where r1: "firewall_run cfg ipt cs (fw0, k0) = ((fw1, k1), l1)" by (metis surj_pair)
  then obtain l2 where r2: "firewall_run cfg ipt (map Tick ts) (fw1, k1) = ((fw', k'), l2)"
    using run by (auto simp: run_append Let_def split: prod.splits)
  note keeps = firewall_run_keeps [OF ok inv0 r1]
  then have inv1: "firewall_inv cfg fw1" and "grants fw1 \<noteq> None" using g by (simp_all add: call_keeps_def)
  then obtain gs where gs: "grants fw1 = Some gs" and gi: "grants_inv cfg gs" by (auto simp: firewall_inv_def)
  have "length (filter g_active gs) \<le> nat (MAX_CLIENTS cfg)"
    using gi length_filter_le [of g_active gs] by (simp add: grants_inv_def)
  also have "\<dots> \<le> MAX_EXPIRY_PER_TICK * length ts" using enough by (simp add: MAX_EXPIRY_PER_TICK_def)
  finally obtain gs' where gs': "grants fw' = Some gs'" and due: "\<forall>g\<in>set gs'. \<not> grant_due T g"
    using ticks_drain_aux [OF gi gs ticks _ r2] by blast
  have "dated cfg (opens_of (map Tick ts) \<union> (opens_of cs \<union> {})) fw'"
    by (rule dated_run [OF ok inv1 r2 dated_run [OF ok inv0 r1 d0]])
  then have late: "u \<le> T" if "open_for fw' ip = Some u" for u
    using that old by (fastforce simp: dated_def opens_of_def)
  show ?thesis
  proof (cases "grant_map gs' ip")
    case (Some e)
    then have "open_for fw' ip = Some (expires_at e)" by (simp add: open_for_upd(1) [OF gs'])
    with late slot_map_SomeD [OF Some] due show ?thesis by (auto simp: grant_due_def)
  qed (simp add: open_for_upd(1) [OF gs'])
qed

section \<open>A reference iptables for the witnesses\<close>

text \<open>An iptables that has the documented effect, except that it fails with the given exit status
  at the invocations a schedule of non-zero numbers picks.\<close>

definition sim_iptables :: "(ruleset \<times> nat list) iptables" where
  "sim_iptables argv k = (case k of (R, plan) \<Rightarrow>
     (let (code, plan) = (case plan of [] \<Rightarrow> (0, []) | n # ns \<Rightarrow> (n, ns))
      in if code \<noteq> 0 then (Ran [] (Exited code), R, plan)
         else (case iptables_effect argv R of
                 None \<Rightarrow> (Ran [] (Exited 1), R, plan)
               | Some R' \<Rightarrow> (Ran [] (Exited 0), R', plan))))"

lemma sim_iptables_ok: "iptables_ok sim_iptables fst"
  unfolding iptables_ok_def
  by (auto simp: sim_iptables_def Let_def split: prod.splits list.splits option.splits)

definition demo_rules :: ruleset where
  "demo_rules = [''INPUT'' \<mapsto> [[''-p'', ''tcp'', ''--dport'', ''22'', ''-j'', ''DROP'']]]"

definition session_view ::
  "((firewall \<times> ruleset \<times> nat list) \<times> firewall_msg logs) option \<Rightarrow>
   (grant_t list option \<times> bool \<times> string list list option \<times> string list list option \<times> nat list \<times> firewall_msg logs) option" where
  "session_view = map_option (\<lambda>((fw, k), ls).
     (grants fw, g_added_jump fw, fst k ''INPUT'', fst k KNOCKD_CHAIN, snd k, ls))"

lemma effect_eqs:
  "iptables_effect (chain_argv ''-N'') R = (if R KNOCKD_CHAIN = None then Some (R(KNOCKD_CHAIN \<mapsto> [])) else None)"
  "iptables_effect (chain_argv ''-F'') R = (if R KNOCKD_CHAIN = None then None else Some (R(KNOCKD_CHAIN \<mapsto> [])))"
  "iptables_effect (jump_argv ''-C'' []) R = (case R ''INPUT'' of None \<Rightarrow> None
     | Some rs \<Rightarrow> if jump_rule \<in> set rs then Some R else None)"
  "iptables_effect (jump_argv ''-I'' [''1'']) R = map_option (\<lambda>rs. R(''INPUT'' \<mapsto> jump_rule # rs)) (R ''INPUT'')"
  "iptables_effect (jump_argv ''-D'' []) R = (case R ''INPUT'' of None \<Rightarrow> None
     | Some rs \<Rightarrow> if jump_rule \<in> set rs then Some (R(''INPUT'' \<mapsto> remove1 jump_rule rs)) else None)"
  "iptables_effect (chain_argv ''-X'') R = (if R KNOCKD_CHAIN = Some [] then Some (R(KNOCKD_CHAIN := None)) else None)"
  "iptables_effect (grant_argv cfg ''-I'' (inet_ntop ip)) R =
     map_option (\<lambda>rs. R(KNOCKD_CHAIN \<mapsto> grant_rule cfg ip # rs)) (R KNOCKD_CHAIN)"
  "iptables_effect (grant_argv cfg ''-D'' (inet_ntop ip)) R = (case R KNOCKD_CHAIN of None \<Rightarrow> None
     | Some rs \<Rightarrow> if grant_rule cfg ip \<in> set rs then Some (R(KNOCKD_CHAIN \<mapsto> remove1 (grant_rule cfg ip) rs)) else None)"
  by (auto simp: iptables_effect_def chain_argv_def jump_argv_def jump_rule_def grant_argv_def grant_rule_def
      split: option.splits)

lemma jump_not_demo: "jump_rule \<noteq> [''-p'', ''tcp'', ''--dport'', ''22'', ''-j'', ''DROP'']"
  by (simp add: jump_rule_def)

lemma demo_params:
  "LOG_LEVEL demo_config = 2" "nat (MAX_CLIENTS demo_config) = Suc (Suc 0)" "ACCESS_TIMEOUT demo_config = 30"
  "PROTECTED_PORT demo_config = 22"
  by (simp_all add: demo_config_def initial_config_def config_limits)

lemmas firewall_eval = firewall_session_def firewall_init_def firewall_start_def run_iptables_def run_grant_rule_def
  sim_iptables_def effect_eqs demo_params reap_child_def firewall_open_def firewall_close_def firewall_shutdown_def
  firewall_tick_def find_grant_def free_grant_def zero_grant_def session_view_def demo_rules_def jump_not_demo
  grant_due_def MAX_EXPIRY_PER_TICK_def grant_rule_inject

lemma demo_session:
  "session_view (firewall_session demo_config sim_iptables [Open 100 9, Open 110 5] (demo_rules, [])) =
   Some (Some [\<lparr>g_ip = 9, expires_at = 130, g_active = True\<rparr>, \<lparr>g_ip = 5, expires_at = 140, g_active = True\<rparr>], True,
     Some [jump_rule, [''-p'', ''tcp'', ''--dport'', ''22'', ''-j'', ''DROP'']],
     Some [grant_rule demo_config 5, grant_rule demo_config 9], [],
     [(LEVEL_INFO, Port_open 22 9 30), (LEVEL_INFO, Port_open 22 5 30)])"
  by (simp add: firewall_eval)

section \<open>Properties\<close>

text \<open>
  A session leaves the operator's firewall as it found it.  After a successful start-up, any
  calls with any iptables failures, and a shutdown that reports no problem, every chain other
  than the daemon's own is exactly what it was before start-up, and the daemon's chain is empty
  or gone: stopping the daemon closes the protected port and removes nothing of the operator's.
\<close>

theorem session_restores_firewall:
  assumes ok: "iptables_ok ipt rules"
    and session: "firewall_session cfg ipt cs k = Some ((fw', k'), ls)"
    and down: "firewall_shutdown cfg ipt fw' k' = (fw'', k'', l2)" and quiet: "\<not> troubled l2"
  shows "knockd_rules (rules k'') = [] \<and> same_outside (rules k) (rules k'') \<and> grants fw'' = None"
  by (rule session_restored [OF assms])

lemma demo_sessionE:
  obtains fw R ls where "firewall_session demo_config sim_iptables [Open 100 9, Open 110 5] (demo_rules, []) =
      Some ((fw, R, []), ls)" "\<not> troubled ls" "R KNOCKD_CHAIN = Some [grant_rule demo_config 5, grant_rule demo_config 9]"
    "grants fw = Some [\<lparr>g_ip = 9, expires_at = 130, g_active = True\<rparr>, \<lparr>g_ip = 5, expires_at = 140, g_active = True\<rparr>]"
    "g_added_jump fw" "R ''INPUT'' = Some [jump_rule, [''-p'', ''tcp'', ''--dport'', ''22'', ''-j'', ''DROP'']]"
  using demo_session by (auto simp: session_view_def)

theorem session_restores_firewall_witness:
  "\<exists>fw k ls fw' k' l2. firewall_session demo_config sim_iptables [Open 100 9, Open 110 5] (demo_rules, []) = Some ((fw, k), ls) \<and>
     firewall_shutdown demo_config sim_iptables fw k = (fw', k', l2) \<and> same_outside demo_rules (fst k')"
proof -
  obtain fw R ls where s: "firewall_session demo_config sim_iptables [Open 100 9, Open 110 5] (demo_rules, []) =
      Some ((fw, R, []), ls)" and "\<not> troubled ls" and R: "R KNOCKD_CHAIN = Some [grant_rule demo_config 5, grant_rule demo_config 9]"
    and g: "grants fw = Some [\<lparr>g_ip = 9, expires_at = 130, g_active = True\<rparr>, \<lparr>g_ip = 5, expires_at = 140, g_active = True\<rparr>]"
      "g_added_jump fw" and I: "R ''INPUT'' = Some [jump_rule, [''-p'', ''tcp'', ''--dport'', ''22'', ''-j'', ''DROP'']]"
    by (rule demo_sessionE)
  obtain fw' k' l2 where d: "firewall_shutdown demo_config sim_iptables fw (R, []) = (fw', k', l2)" by (metis prod_cases3)
  have "\<not> troubled l2"
    using d by (auto simp: firewall_shutdown_def run_iptables_def sim_iptables_def effect_eqs demo_params reap_child_def R g I)
  then have "same_outside demo_rules (fst k')" using session_restores_firewall [OF sim_iptables_ok s d] by simp
  with s d show ?thesis by blast
qed

text \<open>
  C20.  Chain and grant table agree.  After a successful start-up an address with a grant has its
  rule in the chain, whatever iptables did since; and as long as no warning or error has been
  logged, the chain holds exactly one rule for each address with a grant and none for any other.
\<close>

theorem grants_match_rules:
  assumes ok: "iptables_ok ipt rules" and session: "firewall_session cfg ipt cs k = Some ((fw', k'), ls)"
  shows "(open_for fw' ip \<noteq> None \<longrightarrow> grant_rule cfg ip \<in> set (knockd_rules (rules k'))) \<and>
    (\<not> troubled ls \<longrightarrow>
       count_list (knockd_rules (rules k')) (grant_rule cfg ip) = (if open_for fw' ip = None then 0 else 1))"
  by (rule session_agrees [OF assms])

theorem grants_match_rules_witness:
  "\<exists>fw k ls. firewall_session demo_config sim_iptables [Open 100 9, Open 110 5] (demo_rules, []) = Some ((fw, k), ls) \<and>
     count_list (knockd_rules (fst k)) (grant_rule demo_config 9) = (if open_for fw 9 = None then 0 else 1)"
proof -
  obtain fw R ls where s: "firewall_session demo_config sim_iptables [Open 100 9, Open 110 5] (demo_rules, []) = Some ((fw, R, []), ls)"
    and q: "\<not> troubled ls"
    by (rule demo_sessionE)
  from grants_match_rules [OF sim_iptables_ok s, of 9] q s show ?thesis by fastforce
qed

text \<open>
  C24.  \<open>firewall_open\<close> in every case.  An address that has a grant gets its deadline moved and no
  command is run.  A new one is refused with an error, and nothing changes, when every slot is in
  use.  Otherwise exactly one command is run, the insertion of the address's rule, and the call
  succeeds if and only if that command exits with status 0: then the address has a grant until the
  access time has passed and its rule is at the head of the chain.  If the command fails the call
  reports it and no grant is made; the chain is as before, except that a command that was killed or
  could not be waited for may have inserted its one rule.  No other chain ever changes.
\<close>

theorem firewall_open_spec:
  assumes ok: "iptables_ok ipt rules" and gi: "grants_inv cfg gs" and gs: "grants fw = Some gs"
    and call: "firewall_open cfg ipt now ip fw k = (rc, fw', k', ls)"
    and cmd: "ipt (grant_argv cfg ''-I'' (inet_ntop ip)) k = (child, k1)"
  shows "(if open_for fw ip \<noteq> None
          then rc = 0 \<and> k' = k \<and> open_for fw' = (open_for fw)(ip \<mapsto> now + ACCESS_TIMEOUT cfg) \<and>
               ls = [(LEVEL_INFO, Access_extended ip (ACCESS_TIMEOUT cfg))]
          else if \<forall>g\<in>set gs. g_active g
          then rc = - 1 \<and> k' = k \<and> fw' = fw \<and> ls = [(LEVEL_ERROR, Grant_slots_in_use (MAX_CLIENTS cfg) ip)]
          else k' = k1 \<and> same_outside (rules k) (rules k') \<and>
            (if exits_zero child
             then rc = 0 \<and> open_for fw' = (open_for fw)(ip \<mapsto> now + ACCESS_TIMEOUT cfg) \<and>
                  knockd_rules (rules k') = grant_rule cfg ip # knockd_rules (rules k) \<and> \<not> troubled ls
             else rc = - 1 \<and> open_for fw' = open_for fw \<and> troubled ls \<and>
                  knockd_rules (rules k') \<in> {knockd_rules (rules k), grant_rule cfg ip # knockd_rules (rules k)} \<and>
                  (surely_failed child \<longrightarrow> rules k' = rules k)))"
proof (cases "open_for fw ip = None \<and> \<not> (\<forall>g\<in>set gs. g_active g)")
  case True
  note c = firewall_open_command [OF ok gi gs call conjunct1 [OF True] conjunct2 [OF True] cmd]
  show ?thesis using firewall_open_effect [OF ok gi gs call] True c by (cases "exits_zero child") auto
next
  case False
  then show ?thesis
    using firewall_open_effect [OF ok gi gs call] firewall_open_logs [OF gi gs call] by (auto split: if_splits)
qed

theorem firewall_open_spec_witness:
  "(\<exists>fw' k' ls. firewall_open demo_config sim_iptables 200 7
       \<lparr>grants = Some [\<lparr>g_ip = 9, expires_at = 130, g_active = True\<rparr>, \<lparr>g_ip = 5, expires_at = 140, g_active = True\<rparr>],
        g_added_jump = True\<rparr> (demo_rules, []) = (- 1, fw', k', ls)) \<and>
   (\<exists>fw' k' ls. firewall_open demo_config sim_iptables 200 7 \<lparr>grants = Some [zero_grant, zero_grant], g_added_jump = True\<rparr>
       (demo_rules(KNOCKD_CHAIN \<mapsto> []), []) = (0, fw', k', ls) \<and>
     open_for fw' 7 = Some 230 \<and> knockd_rules (fst k') = [grant_rule demo_config 7])"
proof
  let ?gs = "[\<lparr>g_ip = 9, expires_at = 130, g_active = True\<rparr>, \<lparr>g_ip = 5, expires_at = 140, g_active = True\<rparr>]"
  let ?fw = "\<lparr>grants = Some ?gs, g_added_jump = True\<rparr>"
  have gi: "grants_inv demo_config ?gs"
    by (simp add: grants_inv_def demo_params slots_unique_def less_Suc_eq)
  obtain rc fw' k' ls where c: "firewall_open demo_config sim_iptables 200 7 ?fw (demo_rules, []) = (rc, fw', k', ls)"
    by (metis prod_cases4)
  obtain child k1 where "sim_iptables (grant_argv demo_config ''-I'' (inet_ntop 7)) (demo_rules, []) = (child, k1)"
    by (metis surj_pair)
  moreover have "open_for ?fw 7 = None" by (simp add: open_for_def slot_map_None_iff)
  ultimately show "\<exists>fw' k' ls. firewall_open demo_config sim_iptables 200 7 ?fw (demo_rules, []) = (- 1, fw', k', ls)"
    using firewall_open_spec [OF sim_iptables_ok gi _ c] c by simp
next
  let ?gs = "[zero_grant, zero_grant]" and ?k = "(demo_rules(KNOCKD_CHAIN \<mapsto> []), [])"
  let ?fw = "\<lparr>grants = Some ?gs, g_added_jump = True\<rparr>"
  have gi: "grants_inv demo_config ?gs"
    by (simp add: grants_inv_def demo_params slots_unique_def zero_grant_def less_Suc_eq)
  obtain rc fw' k' ls where c: "firewall_open demo_config sim_iptables 200 7 ?fw ?k = (rc, fw', k', ls)"
    by (metis prod_cases4)
  have o: "open_for ?fw 7 = None" "\<not> (\<forall>g\<in>set ?gs. g_active g)"
    by (simp_all add: open_for_def slot_map_None_iff zero_grant_def)
  have cmd: "sim_iptables (grant_argv demo_config ''-I'' (inet_ntop 7)) ?k =
      (Ran [] (Exited 0), demo_rules(KNOCKD_CHAIN \<mapsto> [grant_rule demo_config 7]), [])"
    by (simp add: sim_iptables_def effect_eqs)
  have e: "exits_zero (Ran [] (Exited 0))" "knockd_rules (fst ?k) = []" by simp_all
  from firewall_open_spec [OF sim_iptables_ok gi _ c cmd] o e
  have "rc = 0" "open_for fw' 7 = Some 230" "knockd_rules (fst k') = [grant_rule demo_config 7]"
    by (simp_all add: demo_params)
  with c show "\<exists>fw' k' ls. firewall_open demo_config sim_iptables 200 7 ?fw ?k = (0, fw', k', ls) \<and>
     open_for fw' 7 = Some 230 \<and> knockd_rules (fst k') = [grant_rule demo_config 7]" by blast
qed

text \<open>
  C25.  \<open>firewall_tick\<close> closes exactly the first sixteen grants (in slot order) whose deadline has
  passed: those addresses lose their grant, every other one keeps its grant and deadline, and if
  at most sixteen are due none is left.
\<close>

theorem firewall_tick_spec:
  assumes gi: "grants_inv cfg gs" and gs: "grants fw = Some gs"
    and call: "firewall_tick cfg ipt now fw k = (fw', k', ls)"
  shows "length (tick_closes now gs) = min (length (filter (grant_due now) gs)) 16 \<and>
    (\<forall>ip\<in>set (tick_closes now gs). \<exists>t. open_for fw ip = Some t \<and> t \<le> now) \<and>
    (\<forall>ip. open_for fw' ip = (if ip \<in> set (tick_closes now gs) then None else open_for fw ip)) \<and>
    (length (filter (grant_due now) gs) \<le> 16 \<longrightarrow> (\<forall>ip t. open_for fw' ip = Some t \<longrightarrow> now < t))"
proof -
  obtain gs' where fw': "fw' = fw\<lparr>grants := Some gs'\<rparr>" and scan: "gs' = snd (expire_scan now MAX_EXPIRY_PER_TICK gs)"
    and m: "\<forall>ip. grant_map gs' ip = (if ip \<in> set (tick_closes now gs) then None else grant_map gs ip)"
    using tick_grants [OF gi gs call] by blast
  have u: "slots_unique g_active g_ip gs" using gi by (simp add: grants_inv_def)
  have len: "length (tick_closes now gs) = min (length (filter (grant_due now) gs)) 16"
    by (simp add: tick_closes_def MAX_EXPIRY_PER_TICK_def)
  have was: "\<exists>t. open_for fw ip = Some t \<and> t \<le> now" if ip: "ip \<in> set (tick_closes now gs)" for ip
  proof -
    obtain g where g: "g \<in> set gs" "grant_due now g" "g_ip g = ip"
      using ip by (auto simp: tick_closes_def dest!: in_set_takeD)
    then have "grant_map gs ip = Some g"
      unfolding slot_map_Some_iff [OF u] by (auto simp: in_set_conv_nth grant_due_def)
    with g show ?thesis by (simp add: open_for_upd(1) [OF gs] grant_due_def)
  qed
  have after: "open_for fw' ip = (if ip \<in> set (tick_closes now gs) then None else open_for fw ip)" for ip
    using m by (simp add: fw' open_for_upd(2) open_for_upd(1) [OF gs])
  have "now < t" if few: "length (filter (grant_due now) gs) \<le> 16" and o: "open_for fw' ip = Some t" for ip t
  proof -
    have none: "filter (grant_due now) gs' = []"
      using few by (simp add: scan expire_scan_due MAX_EXPIRY_PER_TICK_def)
    obtain g where g: "grant_map gs' ip = Some g" "t = expires_at g"
      using o by (auto simp: fw' open_for_upd(2))
    from slot_map_SomeD [OF g(1)] have "g \<in> set gs'" "g_active g" by auto
    with none g(2) show ?thesis by (auto simp: filter_empty_conv grant_due_def)
  qed
  with len was after show ?thesis by blast
qed

lemma demo_grants_inv:
  "grants_inv demo_config [\<lparr>g_ip = 9, expires_at = 130, g_active = True\<rparr>, \<lparr>g_ip = 5, expires_at = 140, g_active = True\<rparr>]"
  by (simp add: grants_inv_def demo_params slots_unique_def less_Suc_eq)

theorem firewall_tick_spec_witness:
  "\<exists>fw' k' ls. firewall_tick demo_config sim_iptables 135
       \<lparr>grants = Some [\<lparr>g_ip = 9, expires_at = 130, g_active = True\<rparr>, \<lparr>g_ip = 5, expires_at = 140, g_active = True\<rparr>],
        g_added_jump = True\<rparr> (demo_rules, []) = (fw', k', ls) \<and> open_for fw' 9 = None"
proof -
  let ?gs = "[\<lparr>g_ip = 9, expires_at = 130, g_active = True\<rparr>, \<lparr>g_ip = 5, expires_at = 140, g_active = True\<rparr>] :: grant_t list"
  let ?fw = "\<lparr>grants = Some ?gs, g_added_jump = True\<rparr>"
  obtain fw' k' ls where c: "firewall_tick demo_config sim_iptables 135 ?fw (demo_rules, []) = (fw', k', ls)"
    by (metis prod_cases3)
  have "tick_closes 135 ?gs = [9]" by (simp add: tick_closes_def grant_due_def MAX_EXPIRY_PER_TICK_def)
  with firewall_tick_spec [OF demo_grants_inv _ c] c show ?thesis by simp
qed

text \<open>
  Expiry cannot be starved.  Without new grants, as many ticks as sixteens in the number of
  active grants, at any times from \<open>t\<close> on, leave no grant whose deadline is \<open>t\<close> or earlier.
\<close>

theorem ticks_drain:
  assumes "grants_inv cfg gs" "grants fw = Some gs" "\<forall>now\<in>set ts. t \<le> now"
    and "length (filter g_active gs) \<le> 16 * length ts"
    and "firewall_run cfg ipt (map Tick ts) (fw, k) = ((fw', k'), ls)"
  shows "\<exists>gs'. grants fw' = Some gs' \<and> (\<forall>g\<in>set gs'. \<not> grant_due t g)"
  using ticks_drain_aux [OF assms(1-3) _ assms(5)] assms(4) by (simp add: MAX_EXPIRY_PER_TICK_def)

theorem ticks_drain_witness:
  "\<exists>fw' k' ls gs'. firewall_run demo_config sim_iptables (map Tick [150])
     (\<lparr>grants = Some [\<lparr>g_ip = 9, expires_at = 130, g_active = True\<rparr>, \<lparr>g_ip = 5, expires_at = 140, g_active = True\<rparr>],
        g_added_jump = True\<rparr>, (demo_rules, [])) = ((fw', k'), ls) \<and>
     grants fw' = Some gs' \<and> (\<forall>g\<in>set gs'. \<not> grant_due 145 g)"
proof -
  let ?gs = "[\<lparr>g_ip = 9, expires_at = 130, g_active = True\<rparr>, \<lparr>g_ip = 5, expires_at = 140, g_active = True\<rparr>] :: grant_t list"
  let ?fw = "\<lparr>grants = Some ?gs, g_added_jump = True\<rparr>"
  obtain fw' k' ls where r: "firewall_run demo_config sim_iptables (map Tick [150]) (?fw, (demo_rules, [])) = ((fw', k'), ls)"
    by (metis surj_pair)
  have "\<exists>gs'. grants fw' = Some gs' \<and> (\<forall>g\<in>set gs'. \<not> grant_due 145 g)"
    by (rule ticks_drain [OF demo_grants_inv _ _ _ r]) simp_all
  with r show ?thesis by blast
qed

text \<open>
  C12.  Access ends.  Take any session in which the log shows no failure of iptables - opens refused
  for lack of slots may well occur.  Once the access time has passed since the last
  \<open>firewall_open\<close>, as many ticks as sixteens in the table leave no rule in the daemon's chain.
\<close>

theorem access_ends:
  assumes ok: "iptables_ok ipt rules"
    and ses: "firewall_session cfg ipt (cs @ map Tick ts) k = Some ((fw', k'), ls)" and quiet: "\<not> iptables_trouble ls"
    and old: "\<forall>t ip. Open t ip \<in> set cs \<longrightarrow> t + ACCESS_TIMEOUT cfg \<le> T" and ticks: "\<forall>now\<in>set ts. T \<le> now"
    and enough: "MAX_CLIENTS cfg \<le> 16 * int (length ts)"
  shows "knockd_rules (rules k') = []"
proof -
  have "grant_rule cfg ip \<notin> set (knockd_rules (rules k'))" for ip
    using session_in_step [OF ok ses quiet, of ip] session_grants_end [OF ok ses old ticks enough]
    by (simp add: count_list_0_iff)
  with session_rules [OF ok ses] show ?thesis by (cases "knockd_rules (rules k')") auto
qed

text \<open>Two slots, three addresses: the third is refused, and still everything is closed in the end.\<close>

theorem access_ends_witness:
  "\<exists>fw k ls. firewall_session demo_config sim_iptables ([Open 100 9, Open 110 5, Open 120 7] @ map Tick [150]) (demo_rules, []) = Some ((fw, k), ls) \<and>
     (LEVEL_ERROR, Grant_slots_in_use 2 7) \<in> set ls \<and> knockd_rules (fst k) = []"
proof -
  have mc: "MAX_CLIENTS demo_config = 2" by (simp add: demo_config_def)
  let ?s = "firewall_session demo_config sim_iptables ([Open 100 9, Open 110 5, Open 120 7] @ map Tick [150]) (demo_rules, [])"
  have "session_view ?s = Some (Some [\<lparr>g_ip = 9, expires_at = 130, g_active = False\<rparr>, \<lparr>g_ip = 5, expires_at = 140, g_active = False\<rparr>],
      True, Some [jump_rule, [''-p'', ''tcp'', ''--dport'', ''22'', ''-j'', ''DROP'']], Some [], [],
     [(LEVEL_INFO, Port_open 22 9 30), (LEVEL_INFO, Port_open 22 5 30), (LEVEL_ERROR, Grant_slots_in_use (MAX_CLIENTS demo_config) 7),
      (LEVEL_INFO, Access_expired 9 22), (LEVEL_INFO, Access_expired 5 22)])"
    by (simp add: firewall_eval)
  then obtain fw k where ses: "?s = Some ((fw, k),
     [(LEVEL_INFO, Port_open 22 9 30), (LEVEL_INFO, Port_open 22 5 30), (LEVEL_ERROR, Grant_slots_in_use (MAX_CLIENTS demo_config) 7),
      (LEVEL_INFO, Access_expired 9 22), (LEVEL_INFO, Access_expired 5 22)])"
    by (auto simp: session_view_def)
  have "knockd_rules (fst k) = []"
    by (rule access_ends [OF sim_iptables_ok ses, of 150])
       (auto simp: demo_params mc iptables_trouble_def less_eq_log_level_t_def)
  with ses mc show ?thesis by auto
qed

text \<open>
  C26.  A rule that outlives its grant is never taken back.  If iptables fails to delete the rule of
  an expired grant, the grant is gone but the rule stays; from then on no call removes it, not
  even after further grants to the same address expire.  Only a shutdown or restart does.
\<close>

theorem orphan_rule_stays:
  assumes ok: "iptables_ok ipt rules" and inv: "firewall_inv cfg fw"
    and orphan: "open_for fw ip = None" "grant_rule cfg ip \<in> set (knockd_rules (rules k))"
    and run: "firewall_run cfg ipt cs (fw, k) = ((fw', k'), ls)"
  shows "grant_rule cfg ip \<in> set (knockd_rules (rules k'))"
proof -
  have "0 < excess cfg (rules k) fw ip"
    using orphan by (simp add: excess_def count_list_pos_iff)
  also have "\<dots> \<le> excess cfg (rules k') fw' ip"
    using firewall_run_keeps [OF ok inv run] by (simp add: call_keeps_def)
  finally show ?thesis by (intro excess_rule [of cfg _ fw']) simp
qed

text \<open>One failed delete is enough: the schedule makes the \<open>-D\<close> at the first tick fail.\<close>

theorem orphan_rule_stays_witness:
  "\<exists>fw k l1 fw' k' l2. firewall_session demo_config sim_iptables [Open 100 9, Tick 200] (demo_rules, [0, 0, 0, 0, 0, 4]) = Some ((fw, k), l1) \<and>
     open_for fw 9 = None \<and>
     firewall_run demo_config sim_iptables [Tick 300, Open 400 9, Tick 500] (fw, k) = ((fw', k'), l2) \<and>
     grant_rule demo_config 9 \<in> set (knockd_rules (fst k'))"
proof -
  have "session_view (firewall_session demo_config sim_iptables [Open 100 9, Tick 200] (demo_rules, [0, 0, 0, 0, 0, 4])) =
    Some (Some [\<lparr>g_ip = 9, expires_at = 130, g_active = False\<rparr>, zero_grant], True,
      Some [jump_rule, [''-p'', ''tcp'', ''--dport'', ''22'', ''-j'', ''DROP'']], Some [grant_rule demo_config 9], [],
      [(LEVEL_INFO, Port_open 22 9 30), (LEVEL_INFO, Access_expired 9 22), (LEVEL_ERROR, Exited_with 4),
       (LEVEL_WARN, Could_not_remove_expired_rule 9)])"
    by (simp add: firewall_eval)
  then obtain fw k l1 where s: "firewall_session demo_config sim_iptables [Open 100 9, Tick 200] (demo_rules, [0, 0, 0, 0, 0, 4]) = Some ((fw, k), l1)"
    and g: "grants fw = Some [\<lparr>g_ip = 9, expires_at = 130, g_active = False\<rparr>, zero_grant]"
    and R: "fst k KNOCKD_CHAIN = Some [grant_rule demo_config 9]"
    by (auto simp: session_view_def)
  obtain fw' k' l2 where r: "firewall_run demo_config sim_iptables [Tick 300, Open 400 9, Tick 500] (fw, k) = ((fw', k'), l2)"
    by (metis surj_pair)
  have inv: "firewall_inv demo_config fw"
    by (simp add: firewall_inv_def grants_inv_def g demo_params slots_unique_def zero_grant_def less_Suc_eq)
  have o: "open_for fw 9 = None" by (simp add: open_for_def g slot_map_None_iff zero_grant_def)
  have "grant_rule demo_config 9 \<in> set (knockd_rules (fst k'))"
    by (rule orphan_rule_stays [OF sim_iptables_ok inv o _ r]) (simp add: knockd_rules_def R)
  with s o r show ?thesis by blast
qed

text \<open>
  C27.  A start-up that fails on the \<open>INPUT\<close> jump leaves the daemon's chain behind.  Whatever iptables
  it is that refuses the jump: \<open>firewall_init\<close> returns -1 with the grant table gone again, the chain
  that it created or took over exists, empty, and \<open>firewall_shutdown\<close>, which the daemon calls next,
  runs no command, because the grant table is gone.
\<close>

theorem init_failure_leaves_chain:
  assumes ok: "iptables_ok ipt rules" and init: "firewall_init cfg ipt True firewall_start k = (rc, fw, k', ls)"
    and jump: "(LEVEL_ERROR, Jump_insert_failed) \<in> set ls"
  shows "rc = - 1 \<and> fw = firewall_start \<and> rules k' KNOCKD_CHAIN = Some [] \<and>
    firewall_shutdown cfg ipt fw k' = (firewall_start, k', [])"
proof -
  have "rc = - 1 \<and> rules k' KNOCKD_CHAIN = Some []" by (rule init_jump_failed [OF ok init jump])
  moreover from this have "fw = firewall_start" using firewall_init_run(2) [OF ok init] by simp
  ultimately show ?thesis by (simp add: firewall_shutdown_def firewall_start_def)
qed

theorem init_failure_leaves_chain_witness:
  "demo_rules KNOCKD_CHAIN = None \<and>
   (\<exists>fw k ls. firewall_init demo_config sim_iptables True firewall_start (demo_rules, [0, 0, 1, 4]) = (- 1, fw, k, ls) \<and>
      fst k KNOCKD_CHAIN = Some [] \<and> firewall_shutdown demo_config sim_iptables fw k = (firewall_start, k, []))"
proof -
  obtain rc fw k ls where i: "firewall_init demo_config sim_iptables True firewall_start (demo_rules, [0, 0, 1, 4]) = (rc, fw, k, ls)"
    by (metis prod_cases4)
  then have "(LEVEL_ERROR, Jump_insert_failed) \<in> set ls" by (auto simp: firewall_eval)
  from init_failure_leaves_chain [OF sim_iptables_ok i this] i show ?thesis by (auto simp: demo_rules_def)
qed

end
