(* ===== verification/Sniffer.thy ===== *)
theory Sniffer
  imports Config "HOL-Library.Monad_Syntax"
begin

unbundle bit_operations_syntax

text \<open>
  \<open>src/sniffer.c\<close>: the raw socket and the parser that picks knocks out of captured frames.  A frame
  is the list of bytes that \<open>recvfrom\<close> stored; every access of the parser goes through \<open>byte_at\<close>,
  which is \<open>None\<close> outside of those bytes, so that an access out of bounds is visible as a value.
  Header fields have the offsets of the Linux structures on a little-endian host.
\<close>

section \<open>Constants and structures\<close>

definition PKT_BUF_SIZE :: nat where "PKT_BUF_SIZE = 65536"

definition ARPHRD_ETHER :: "16 word" where "ARPHRD_ETHER = 1"
definition ARPHRD_LOOPBACK :: "16 word" where "ARPHRD_LOOPBACK = 772"
definition ETH_P_IP :: "16 word" where "ETH_P_IP = 0x0800"
definition PACKET_OUTGOING :: byte where "PACKET_OUTGOING = 4"
definition IP_OFFMASK :: "16 word" where "IP_OFFMASK = 0x1fff"
definition IPPROTO_TCP :: byte where "IPPROTO_TCP = 6"
definition IPPROTO_UDP :: byte where "IPPROTO_UDP = 17"
definition ethhdr_size :: nat where "ethhdr_size = 14"
definition iphdr_size :: nat where "iphdr_size = 20"
definition tcphdr_size :: nat where "tcphdr_size = 20"
definition udphdr_size :: nat where "udphdr_size = 8"

record sockaddr_ll =
  sll_pkttype :: byte
  sll_ifindex :: "32 word"
  sll_hatype :: "16 word"

text \<open>What one \<open>recvfrom\<close> gives: an \<open>errno\<close>, or the returned length, the bytes stored and the
  link-layer address.\<close>

datatype recv = Recv_failed int | Received nat "byte list" sockaddr_ll

datatype sniffer_msg =
    Raw_socket_failed
  | Raw_sockets_need_root
  | No_receive_timeout
  | Unknown_interface string
  | Capturing_on string
  | Capturing_everywhere
  | Raw_socket_created int
  | Recvfrom_failed
  | Knock_seen string ipv4 port
  | Raw_socket_closed

section \<open>Reading a frame\<close>

definition byte_at :: "byte list \<Rightarrow> nat \<Rightarrow> byte option" where
  "byte_at buf i = (if i < length buf then Some (buf ! i) else None)"

definition load16 :: "byte list \<Rightarrow> nat \<Rightarrow> 16 word option" where
  "load16 buf i = do { b0 \<leftarrow> byte_at buf i; b1 \<leftarrow> byte_at buf (i + 1); Some (le16 b0 b1) }"

definition load32 :: "byte list \<Rightarrow> nat \<Rightarrow> 32 word option" where
  "load32 buf i = do { b0 \<leftarrow> byte_at buf i; b1 \<leftarrow> byte_at buf (i + 1); b2 \<leftarrow> byte_at buf (i + 2);
     b3 \<leftarrow> byte_at buf (i + 3); Some (le32 b0 b1 b2 b3) }"

definition is_knock_port :: "config \<Rightarrow> port \<Rightarrow> bool" where
  "is_knock_port cfg port \<longleftrightarrow> first_index (\<lambda>i. KNOCK_SEQUENCE cfg ! i = port) 0 (KNOCK_SEQ_LEN cfg) \<noteq> None"

text \<open>The offset of the IP header: the outer option is a bad access, the inner one the return
  value -1.  The bit fields \<open>version\<close> and \<open>ihl\<close> are the high and the low half of the first byte.\<close>

definition find_ip_offset :: "byte list \<Rightarrow> nat \<Rightarrow> 16 word \<Rightarrow> nat option option" where
  "find_ip_offset buf len hatype = do {
     start \<leftarrow> (if hatype = ARPHRD_ETHER \<or> hatype = ARPHRD_LOOPBACK
               then (if len < ethhdr_size then Some None
                     else do { h_proto \<leftarrow> load16 buf 12;
                               Some (if ntohs h_proto \<noteq> ETH_P_IP then None else Some ethhdr_size) })
               else Some (Some 0));
     (case start of
        None \<Rightarrow> Some None
      | Some ip_off \<Rightarrow>
          if len < ip_off + iphdr_size then Some None
          else do { b0 \<leftarrow> byte_at buf ip_off;
                    Some (if unat b0 div 16 \<noteq> 4 \<or> unat b0 mod 16 < 5 then None else Some ip_off) }) }"

datatype verdict = Skip | Report string ipv4 port

text \<open>The last part of the loop body, once the destination port is known.\<close>

definition report_knock :: "config \<Rightarrow> byte list \<Rightarrow> nat \<Rightarrow> string \<Rightarrow> port \<Rightarrow> verdict option" where
  "report_knock cfg buf ip_offset proto_name dport =
     (if \<not> is_knock_port cfg dport then Some Skip
      else do { saddr \<leftarrow> load32 buf (ip_offset + 12); Some (Report proto_name saddr dport) })"

definition transport_verdict :: "config \<Rightarrow> byte list \<Rightarrow> nat \<Rightarrow> nat \<Rightarrow> nat \<Rightarrow> byte \<Rightarrow> verdict option" where
  "transport_verdict cfg buf len ip_offset l4_offset protocol =
     (if protocol = IPPROTO_TCP
      then (if len < l4_offset + tcphdr_size then Some Skip
            else do { flags \<leftarrow> byte_at buf (l4_offset + 13);
                      if \<not> bit flags 1 \<or> bit flags 4 then Some Skip
                      else do { dest \<leftarrow> load16 buf (l4_offset + 2);
                                report_knock cfg buf ip_offset ''TCP SYN'' (ntohs dest) } })
      else if protocol = IPPROTO_UDP
      then (if len < l4_offset + udphdr_size then Some Skip
            else do { dest \<leftarrow> load16 buf (l4_offset + 2);
                      report_knock cfg buf ip_offset ''UDP'' (ntohs dest) })
      else Some Skip)"

text \<open>The loop body on \<open>len\<close> received bytes, and before that the clamp and the two checks on the
  link-layer address.\<close>

definition frame_verdict :: "config \<Rightarrow> byte list \<Rightarrow> nat \<Rightarrow> 16 word \<Rightarrow> verdict option" where
  "frame_verdict cfg buf len hatype = do {
     off \<leftarrow> find_ip_offset buf len hatype;
     (case off of
        None \<Rightarrow> Some Skip
      | Some ip_offset \<Rightarrow> do {
          b0 \<leftarrow> byte_at buf ip_offset;
          let ip_hdr_len = unat b0 mod 16 * 4;
          if ip_offset + ip_hdr_len > len then Some Skip
          else do {
            frag_off \<leftarrow> load16 buf (ip_offset + 6);
            if ntohs frag_off AND IP_OFFMASK \<noteq> 0 then Some Skip
            else do {
              protocol \<leftarrow> byte_at buf (ip_offset + 9);
              transport_verdict cfg buf len ip_offset (ip_offset + ip_hdr_len) protocol } } }) }"

definition packet_verdict :: "config \<Rightarrow> 32 word \<Rightarrow> nat \<Rightarrow> byte list \<Rightarrow> sockaddr_ll \<Rightarrow> verdict option" where
  "packet_verdict cfg g_ifindex pkt_len buf sll =
     (let len = (if pkt_len > PKT_BUF_SIZE then PKT_BUF_SIZE else pkt_len)
      in if sll_pkttype sll = PACKET_OUTGOING then Some Skip
         else if g_ifindex \<noteq> 0 \<and> sll_ifindex sll \<noteq> g_ifindex then Some Skip
         else frame_verdict cfg buf len (sll_hatype sll))"

section \<open>The socket\<close>

text \<open>\<open>sniffer_init\<close> is given what the system calls return: the socket or an \<open>errno\<close>, whether the
  receive timeout could be set, and the index of the interface name.  The result is the return
  value, \<open>g_ifindex\<close>, the descriptors closed and the log.\<close>

definition sniffer_init ::
  "config \<Rightarrow> (int, int) sum \<Rightarrow> bool \<Rightarrow> (string \<Rightarrow> 32 word) \<Rightarrow> 32 word \<Rightarrow>
   int \<times> 32 word \<times> int list \<times> sniffer_msg logs" where
  "sniffer_init cfg sock timeout_ok if_nametoindex g_ifindex = (case sock of
     Inl errno \<Rightarrow> (- 1, g_ifindex, [],
       [(LEVEL_ERROR, Raw_socket_failed)] @
       (if errno = EPERM \<or> errno = EACCES then [(LEVEL_ERROR, Raw_sockets_need_root)] else []))
   | Inr fd \<Rightarrow>
       (let l1 = (if timeout_ok then [] else [(LEVEL_WARN, No_receive_timeout)])
        in if KNOCK_INTERFACE cfg \<noteq> []
           then (let g_ifindex = if_nametoindex (KNOCK_INTERFACE cfg)
                 in if g_ifindex = 0
                    then (- 1, g_ifindex, [fd], l1 @ [(LEVEL_ERROR, Unknown_interface (KNOCK_INTERFACE cfg))])
                    else (fd, g_ifindex, [],
                          l1 @ [(LEVEL_INFO, Capturing_on (KNOCK_INTERFACE cfg)), (LEVEL_DEBUG, Raw_socket_created fd)]))
           else (fd, g_ifindex, [],
                 l1 @ [(LEVEL_DEBUG, Capturing_everywhere), (LEVEL_DEBUG, Raw_socket_created fd)])))"

datatype sniffer_rc = SNIFFER_OK ipv4 port | SNIFFER_AGAIN | SNIFFER_ERROR

text \<open>A call of \<open>sniffer_next_knock\<close> on what its successive \<open>recvfrom\<close> calls give: it returns and
  leaves the rest to later calls, it is still in its loop when the list ends, or it has made an
  access out of bounds.\<close>

datatype sniff = Returned sniffer_rc "recv list" "sniffer_msg logs" | Looping | Bad_access

fun sniffer_next_knock :: "config \<Rightarrow> 32 word \<Rightarrow> recv list \<Rightarrow> sniff" where
  "sniffer_next_knock cfg g_ifindex [] = Looping"
| "sniffer_next_knock cfg g_ifindex (Recv_failed errno # rs) =
     (if errno = EAGAIN \<or> errno = EWOULDBLOCK \<or> errno = EINTR then Returned SNIFFER_AGAIN rs []
      else Returned SNIFFER_ERROR rs [(LEVEL_ERROR, Recvfrom_failed)])"
| "sniffer_next_knock cfg g_ifindex (Received pkt_len buf sll # rs) =
     (case packet_verdict cfg g_ifindex pkt_len buf sll of
        None \<Rightarrow> Bad_access
      | Some Skip \<Rightarrow> sniffer_next_knock cfg g_ifindex rs
      | Some (Report proto_name src_ip dport) \<Rightarrow>
          Returned (SNIFFER_OK src_ip dport) rs
            (if LOG_LEVEL cfg \<ge> level_int LEVEL_DEBUG
             then [(LEVEL_DEBUG, Knock_seen proto_name src_ip dport)] else []))"

definition sniffer_close :: "int \<Rightarrow> int list \<times> sniffer_msg logs" where
  "sniffer_close sock_fd =
     (if sock_fd \<ge> 0 then ([sock_fd], [(LEVEL_DEBUG, Raw_socket_closed)]) else ([], []))"

section \<open>Bounds\<close>

lemma byte_at_ok: "i < length buf \<Longrightarrow> byte_at buf i = Some (buf ! i)"
  by (simp add: byte_at_def)

lemma load16_ok: "i + 1 < length buf \<Longrightarrow> load16 buf i = Some (le16 (buf ! i) (buf ! (i + 1)))"
  by (simp add: load16_def byte_at_ok)

lemma load32_ok:
  "i + 3 < length buf \<Longrightarrow> load32 buf i = Some (le32 (buf ! i) (buf ! (i + 1)) (buf ! (i + 2)) (buf ! (i + 3)))"
  by (simp add: load32_def byte_at_ok)

lemmas header_sizes = ethhdr_size_def iphdr_size_def tcphdr_size_def udphdr_size_def

lemma find_ip_offset_ok:
  assumes "len \<le> length buf"
  shows "find_ip_offset buf len hatype \<noteq> None"
    and "find_ip_offset buf len hatype = Some (Some off) \<Longrightarrow> off + 20 \<le> len \<and> 5 \<le> unat (buf ! off) mod 16"
  using assms
  by (auto simp: find_ip_offset_def header_sizes load16_ok byte_at_def Let_def split: if_splits option.splits)

lemma transport_verdict_ok:
  assumes "len \<le> length buf" "off + 20 \<le> len"
  shows "transport_verdict cfg buf len off l4 protocol \<noteq> None"
  using assms
  by (auto simp: transport_verdict_def report_knock_def header_sizes load16_ok load32_ok byte_at_ok)

lemma frame_verdict_ok:
  assumes len: "len \<le> length buf"
  shows "frame_verdict cfg buf len hatype \<noteq> None"
proof -
  note f = find_ip_offset_ok [OF len, of hatype]
  obtain r where r: "find_ip_offset buf len hatype = Some r" using f(1) by blast
  show ?thesis
  proof (cases r)
    case None
    with r show ?thesis by (simp add: frame_verdict_def)
  next
    case (Some off)
    with f(2) r have o: "off + 20 \<le> len" by simp
    then have reads: "byte_at buf off = Some (buf ! off)" "byte_at buf (off + 9) = Some (buf ! (off + 9))"
      "load16 buf (off + 6) = Some (le16 (buf ! (off + 6)) (buf ! (off + 6 + 1)))"
      using len by (simp_all add: byte_at_ok load16_ok)
    show ?thesis
      using r Some transport_verdict_ok [OF len o] by (simp add: frame_verdict_def Let_def reads)
  qed
qed

lemma packet_verdict_ok:
  "min pkt_len PKT_BUF_SIZE \<le> length buf \<Longrightarrow> packet_verdict cfg g_ifindex pkt_len buf sll \<noteq> None"
  by (auto simp: packet_verdict_def Let_def min_def frame_verdict_ok simp del: not_None_eq split: if_splits)

lemma is_knock_port_iff:
  "config_wf cfg \<Longrightarrow> is_knock_port cfg p \<longleftrightarrow> p \<in> set (knock_seq cfg)"
  by (auto simp: is_knock_port_def first_index_None_iff config_wf_def in_set_conv_nth)

section \<open>Building frames\<close>

text \<open>An IPv4 packet with a TCP or UDP payload, as a sender lays it out: multi-byte fields in
  network byte order.  Fields that the parser does not look at are left as bytes.\<close>

datatype transport =
    Tcp "byte list" port "byte list" byte "byte list"
  | Udp "byte list" port "byte list"

record ip_packet =
  ip_front :: "byte list"
  ip_frag :: "16 word"
  ip_ttl :: byte
  ip_check :: "byte list"
  ip_src :: "byte \<times> byte \<times> byte \<times> byte"
  ip_dst :: "byte list"
  ip_options :: "byte list"
  ip_transport :: transport

definition be16 :: "16 word \<Rightarrow> byte list" where
  "be16 w = [of_nat (unat w div 256), of_nat (unat w mod 256)]"

fun encode_transport :: "transport \<Rightarrow> byte list" where
  "encode_transport (Tcp sport dport mid flags rest) = sport @ be16 dport @ mid @ flags # rest"
| "encode_transport (Udp sport dport rest) = sport @ be16 dport @ rest"

fun transport_protocol :: "transport \<Rightarrow> byte" where
  "transport_protocol (Tcp _ _ _ _ _) = IPPROTO_TCP"
| "transport_protocol (Udp _ _ _) = IPPROTO_UDP"

fun transport_wf :: "transport \<Rightarrow> bool" where
  "transport_wf (Tcp sport dport mid flags rest) \<longleftrightarrow> length sport = 2 \<and> length mid = 9 \<and> 6 \<le> length rest"
| "transport_wf (Udp sport dport rest) \<longleftrightarrow> length sport = 2 \<and> 4 \<le> length rest"

definition packet_wf :: "ip_packet \<Rightarrow> bool" where
  "packet_wf p \<longleftrightarrow> length (ip_front p) = 5 \<and> length (ip_check p) = 2 \<and> length (ip_dst p) = 4 \<and>
     length (ip_options p) mod 4 = 0 \<and> length (ip_options p) \<le> 40 \<and> transport_wf (ip_transport p)"

definition encode_ip :: "ip_packet \<Rightarrow> byte list" where
  "encode_ip p = (case ip_src p of (s0, s1, s2, s3) \<Rightarrow>
     [of_nat (69 + length (ip_options p) div 4)] @ ip_front p @ be16 (ip_frag p) @
     [ip_ttl p, transport_protocol (ip_transport p)] @ ip_check p @ [s0, s1, s2, s3] @ ip_dst p @
     ip_options p @ encode_transport (ip_transport p))"

definition source_address :: "ip_packet \<Rightarrow> ipv4" where
  "source_address p = (case ip_src p of (s0, s1, s2, s3) \<Rightarrow> le32 s0 s1 s2 s3)"

definition link_header :: "16 word \<Rightarrow> byte list \<Rightarrow> byte list" where
  "link_header hatype macs =
     (if hatype = ARPHRD_ETHER \<or> hatype = ARPHRD_LOOPBACK then macs @ be16 ETH_P_IP else [])"

text \<open>The port that a packet knocks, if it is the kind of packet that can: a first fragment with a
  TCP connection attempt or a UDP datagram.\<close>

definition knocks :: "ip_packet \<Rightarrow> port option" where
  "knocks p = (if ip_frag p AND IP_OFFMASK \<noteq> 0 then None
     else (case ip_transport p of
             Tcp _ dport _ flags _ \<Rightarrow> if bit flags 1 \<and> \<not> bit flags 4 then Some dport else None
           | Udp _ dport _ \<Rightarrow> Some dport))"

lemma ntohs_be16: "be16 w = [b0, b1] \<Longrightarrow> ntohs (le16 b0 b1) = w"
proof -
  assume "be16 w = [b0, b1]"
  then have b: "b0 = of_nat (unat w div 256)" "b1 = of_nat (unat w mod 256)" by (simp_all add: be16_def)
  have lt: "unat w < 65536" using unsigned_less [of w, where 'a = nat] by simp
  have u: "unat b0 = unat w div 256" "unat b1 = unat w mod 256"
    using lt unfolding b by (simp_all add: unat_of_nat take_bit_nat_eq_self_iff)
  have "unat (le16 b1 b0) = unat w" unfolding unat_le16 u by simp
  then show ?thesis unfolding ntohs_le16 by (simp only: word_unat_eq_iff)
qed

lemma byte_at_append [simp]: "byte_at (xs @ ys) (length xs + i) = byte_at ys i"
  by (simp add: byte_at_def nth_append)

lemma load_append [simp]:
  "load16 (xs @ ys) (length xs + i) = load16 ys i" "load32 (xs @ ys) (length xs + i) = load32 ys i"
  by (simp_all add: load16_def load32_def byte_at_def nth_append)

lemma length2E: "length xs = 2 \<Longrightarrow> \<exists>a b. xs = [a, b]"
  by (auto simp: numeral_2_eq_2 length_Suc_conv)

lemma length4E: "length xs = 4 \<Longrightarrow> \<exists>a b c d. xs = [a, b, c, d]"
  by (auto simp: eval_nat_numeral length_Suc_conv)

lemma length5E: "length xs = 5 \<Longrightarrow> \<exists>a b c d e. xs = [a, b, c, d, e]"
  by (auto simp: eval_nat_numeral length_Suc_conv)

lemma length9E: "length xs = 9 \<Longrightarrow> \<exists>a b c d e f g h i. xs = [a, b, c, d, e, f, g, h, i]"
  by (auto simp: eval_nat_numeral length_Suc_conv)

lemma be16_pair: "\<exists>b0 b1. be16 w = [b0, b1] \<and> ntohs (le16 b0 b1) = w"
  using ntohs_be16 [of w] by (auto simp: be16_def)

text \<open>The transport header, read in place.\<close>

lemma transport_verdict_tcp:
  assumes "byte_at buf (l4 + 13) = Some flags" "load16 buf (l4 + 2) = Some d" "load32 buf (off + 12) = Some src"
    "l4 + 20 \<le> len"
  shows "transport_verdict cfg buf len off l4 IPPROTO_TCP =
    Some (if bit flags 1 \<and> \<not> bit flags 4 \<and> is_knock_port cfg (ntohs d) then Report ''TCP SYN'' src (ntohs d) else Skip)"
  using assms(4) unfolding transport_verdict_def report_knock_def assms(1-3) tcphdr_size_def bind.bind_lunit by simp

lemma transport_verdict_udp:
  assumes "load16 buf (l4 + 2) = Some d" "load32 buf (off + 12) = Some src" "l4 + 8 \<le> len"
  shows "transport_verdict cfg buf len off l4 IPPROTO_UDP =
    Some (if is_knock_port cfg (ntohs d) then Report ''UDP'' src (ntohs d) else Skip)"
proof -
  have ne: "IPPROTO_UDP \<noteq> IPPROTO_TCP" by (simp add: IPPROTO_TCP_def IPPROTO_UDP_def)
  show ?thesis
    using assms(3) ne unfolding transport_verdict_def report_knock_def assms(1,2) udphdr_size_def bind.bind_lunit by simp
qed

lemma transport_verdict_encode:
  assumes wf: "transport_wf t" and src: "load32 (pre @ encode_transport t @ rest) (ip_off + 12) = Some src"
  shows "transport_verdict cfg (pre @ encode_transport t @ rest) (length pre + length (encode_transport t @ rest)) ip_off
      (length pre) (transport_protocol t) =
    Some (case t of
       Tcp _ dport _ flags _ \<Rightarrow> if bit flags 1 \<and> \<not> bit flags 4 \<and> is_knock_port cfg dport then Report ''TCP SYN'' src dport else Skip
     | Udp _ dport _ \<Rightarrow> if is_knock_port cfg dport then Report ''UDP'' src dport else Skip)"
proof (cases t)
  case (Tcp sport dport mid flags more)
  from wf Tcp obtain s0 s1 where sp: "sport = [s0, s1]" using length2E [of sport] by auto
  from wf Tcp obtain m0 m1 m2 m3 m4 m5 m6 m7 m8 where mid: "mid = [m0, m1, m2, m3, m4, m5, m6, m7, m8]"
    using length9E [of mid] by auto
  obtain d0 d1 where d: "be16 dport = [d0, d1]" "ntohs (le16 d0 d1) = dport" using be16_pair by blast
  have rd: "byte_at (encode_transport t @ rest) 13 = Some flags"
    "load16 (encode_transport t @ rest) 2 = Some (le16 d0 d1)"
    unfolding Tcp by (simp_all add: sp mid d load16_def byte_at_def)
  have "length pre + 20 \<le> length pre + length (encode_transport t @ rest)"
    using wf unfolding Tcp by (simp add: sp mid d)
  from transport_verdict_tcp [OF trans [OF byte_at_append rd(1)] trans [OF load_append(1) rd(2)] src this]
  show ?thesis using d(2) unfolding Tcp by simp
next
  case (Udp sport dport more)
  from wf Udp obtain s0 s1 where sp: "sport = [s0, s1]" using length2E [of sport] by auto
  obtain d0 d1 where d: "be16 dport = [d0, d1]" "ntohs (le16 d0 d1) = dport" using be16_pair by blast
  have rd: "load16 (encode_transport t @ rest) 2 = Some (le16 d0 d1)"
    unfolding Udp by (simp add: sp d load16_def byte_at_def)
  have "length pre + 8 \<le> length pre + length (encode_transport t @ rest)"
    using wf unfolding Udp by (simp add: sp d)
  from transport_verdict_udp [OF trans [OF load_append(1) rd] src this]
  show ?thesis using d(2) unfolding Udp by simp
qed

text \<open>The IP header, read in place.\<close>

lemma encode_ip_fields:
  assumes "packet_wf p"
  obtains h where "encode_ip p = h @ encode_transport (ip_transport p)" "length h = 20 + length (ip_options p)"
    "\<forall>xs. byte_at (h @ xs) 0 = Some (of_nat (69 + length (ip_options p) div 4))"
    "\<forall>xs. byte_at (h @ xs) 9 = Some (transport_protocol (ip_transport p))"
    "\<forall>xs. map_option ntohs (load16 (h @ xs) 6) = Some (ip_frag p)"
    "\<forall>xs. load32 (h @ xs) 12 = Some (source_address p)"
proof -
  obtain s0 s1 s2 s3 where s: "ip_src p = (s0, s1, s2, s3)" by (metis prod_cases4)
  obtain f0 f1 f2 f3 f4 where f: "ip_front p = [f0, f1, f2, f3, f4]"
    using assms length5E [of "ip_front p"] by (auto simp: packet_wf_def)
  obtain c0 c1 where c: "ip_check p = [c0, c1]" using assms length2E [of "ip_check p"] by (auto simp: packet_wf_def)
  obtain d0 d1 d2 d3 where d: "ip_dst p = [d0, d1, d2, d3]"
    using assms length4E [of "ip_dst p"] by (auto simp: packet_wf_def)
  obtain g0 g1 where g: "be16 (ip_frag p) = [g0, g1]" "ntohs (le16 g0 g1) = ip_frag p" using be16_pair by blast
  define b0 :: byte where "b0 = of_nat (69 + length (ip_options p) div 4)"
  let ?h = "[b0, f0, f1, f2, f3, f4, g0, g1, ip_ttl p,
      transport_protocol (ip_transport p), c0, c1, s0, s1, s2, s3, d0, d1, d2, d3] @ ip_options p"
  have e: "encode_ip p = ?h @ encode_transport (ip_transport p)"
    by (simp add: encode_ip_def s f c d g(1) b0_def)
  have l: "load16 (?h @ xs) 6 = Some (le16 g0 g1)" "load32 (?h @ xs) 12 = Some (le32 s0 s1 s2 s3)" for xs
    by (simp_all add: load16_def load32_def byte_at_def)
  have b: "byte_at (?h @ xs) 0 = Some (of_nat (69 + length (ip_options p) div 4))"
    "byte_at (?h @ xs) 9 = Some (transport_protocol (ip_transport p))" for xs
    by (simp_all add: byte_at_def b0_def)
  have m: "map_option ntohs (load16 (?h @ xs) 6) = Some (ip_frag p)"
    "load32 (?h @ xs) 12 = Some (source_address p)" for xs
    by (simp_all only: l g(2) option.map source_address_def s prod.case)
  show ?thesis by (rule that [OF e _ allI [OF b(1)] allI [OF b(2)] allI [OF m(1)] allI [OF m(2)]]) simp
qed

lemma first_byte:
  assumes "n \<le> 10"
  shows "unat (of_nat (69 + n) :: byte) div 16 = 4" "unat (of_nat (69 + n) :: byte) mod 16 = 5 + n"
proof -
  have u: "unat (of_nat (69 + n) :: byte) = 69 + n"
    using assms by (simp add: unat_of_nat take_bit_nat_eq_self_iff del: of_nat_add)
  have "69 + n = (5 + n) + 16 * 4" "5 + n < 16" using assms by simp_all
  then have "(69 + n) div 16 = 4 \<and> (69 + n) mod 16 = 5 + n"
    by (simp only: div_mult_self2 mod_mult_self2 div_less mod_less) simp
  with u show "unat (of_nat (69 + n) :: byte) div 16 = 4" "unat (of_nat (69 + n) :: byte) mod 16 = 5 + n"
    by (simp_all only:)
qed

lemma find_ip_offset_link:
  assumes macs: "length macs = 12" and l: "l = link_header hatype macs"
    and b: "byte_at rest 0 = Some b0" "unat b0 div 16 = 4" "5 \<le> unat b0 mod 16" and len: "20 \<le> length rest"
  shows "find_ip_offset (l @ rest) (length (l @ rest)) hatype = Some (Some (length l))"
proof -
  have b': "byte_at (l @ rest) (length l) = Some b0" using byte_at_append [of l rest 0] b(1) by simp
  show ?thesis
  proof (cases "hatype = ARPHRD_ETHER \<or> hatype = ARPHRD_LOOPBACK")
    case True
    obtain e0 e1 where e: "be16 ETH_P_IP = [e0, e1]" "ntohs (le16 e0 e1) = ETH_P_IP" using be16_pair by blast
    have l': "l = macs @ [e0, e1]" using True e l by (simp add: link_header_def)
    then have "load16 (l @ rest) 12 = Some (le16 e0 e1)" and n: "length l = 14"
      using load_append(1) [of macs "[e0, e1] @ rest" 0] macs by (simp_all add: load16_def byte_at_def)
    with True e(2) len b' b(2,3) show ?thesis
      by (simp add: find_ip_offset_def header_sizes not_less)
  next
    case False
    with l have "l = []" by (simp add: link_header_def)
    with False len b' b(2,3) show ?thesis by (simp add: find_ip_offset_def header_sizes not_less)
  qed
qed

lemma frame_verdict_encode:
  assumes wf: "packet_wf p" and macs: "length macs = 12"
  shows "frame_verdict cfg (link_header hatype macs @ encode_ip p @ trailer)
      (length (link_header hatype macs @ encode_ip p @ trailer)) hatype =
    Some (case knocks p of
       None \<Rightarrow> Skip
     | Some port \<Rightarrow> if is_knock_port cfg port
         then Report (case ip_transport p of Tcp _ _ _ _ _ \<Rightarrow> ''TCP SYN'' | Udp _ _ _ \<Rightarrow> ''UDP'') (source_address p) port
         else Skip)"
proof -
  define l where "l = link_header hatype macs"
  let ?t = "encode_transport (ip_transport p)" and ?n = "length l"
  obtain h where h: "encode_ip p = h @ ?t" "length h = 20 + length (ip_options p)"
    and b0: "\<forall>xs. byte_at (h @ xs) 0 = Some (of_nat (69 + length (ip_options p) div 4))"
    and pr: "\<forall>xs. byte_at (h @ xs) 9 = Some (transport_protocol (ip_transport p))"
    and fr: "\<forall>xs. map_option ntohs (load16 (h @ xs) 6) = Some (ip_frag p)"
    and sa: "\<forall>xs. load32 (h @ xs) 12 = Some (source_address p)"
    by (rule encode_ip_fields [OF wf])
  define rest where "rest = h @ ?t @ trailer"
  have opts: "length (ip_options p) div 4 \<le> 10" "length (ip_options p) div 4 * 4 = length (ip_options p)"
    using wf by (auto simp: packet_wf_def)
  define b where "b = (of_nat (69 + length (ip_options p) div 4) :: byte)"
  note fb = first_byte [OF opts(1), folded b_def]
  have r: "byte_at rest 0 = Some b" "byte_at rest 9 = Some (transport_protocol (ip_transport p))"
    "load32 rest 12 = Some (source_address p)"
    using b0 pr sa by (simp_all add: rest_def b_def)
  obtain fo where fo: "load16 rest 6 = Some fo" "ntohs fo = ip_frag p"
    using fr by (auto simp: rest_def)
  have find: "find_ip_offset (l @ rest) (length (l @ rest)) hatype = Some (Some ?n)"
    by (rule find_ip_offset_link [OF macs l_def r(1)]) (use fb h(2) in \<open>simp_all add: rest_def\<close>)
  have at0: "byte_at (l @ rest) ?n = Some b" using byte_at_append [of l rest 0] r(1) by simp
  have l4: "?n + unat b mod 16 * 4 = length (l @ h)"
    unfolding fb using opts(2) h(2) by (simp add: algebra_simps)
  have src: "load32 ((l @ h) @ ?t @ trailer) (?n + 12) = Some (source_address p)"
    using load_append(2) [of l rest 12] r(3) by (simp add: rest_def)
  have "frame_verdict cfg (l @ rest) (length (l @ rest)) hatype = (if ip_frag p AND IP_OFFMASK \<noteq> 0 then Some Skip
     else transport_verdict cfg (l @ rest) (length (l @ rest)) ?n (length (l @ h)) (transport_protocol (ip_transport p)))"
    unfolding frame_verdict_def find bind.bind_lunit option.case at0 Let_def l4 load_append byte_at_append fo r(2)
    by (simp add: rest_def)
  also have "\<dots> = Some (case knocks p of
       None \<Rightarrow> Skip
     | Some port \<Rightarrow> if is_knock_port cfg port
         then Report (case ip_transport p of Tcp _ _ _ _ _ \<Rightarrow> ''TCP SYN'' | Udp _ _ _ \<Rightarrow> ''UDP'') (source_address p) port
         else Skip)"
    using transport_verdict_encode [OF _ src, of cfg] wf
    by (simp add: packet_wf_def rest_def knocks_def add.assoc split: transport.split)
  finally show ?thesis by (simp add: l_def rest_def h(1))
qed

section \<open>Calls of \<open>sniffer_next_knock\<close>\<close>

text \<open>\<open>recvfrom\<close> stored the bytes it says it did, as far as they fit the buffer.\<close>

fun recv_ok :: "recv \<Rightarrow> bool" where
  "recv_ok (Recv_failed errno) = True"
| "recv_ok (Received pkt_len buf sll) \<longleftrightarrow> min pkt_len PKT_BUF_SIZE \<le> length buf"

lemma next_knock_no_bad_access:
  "\<forall>r\<in>set rs. recv_ok r \<Longrightarrow> sniffer_next_knock cfg g_ifindex rs \<noteq> Bad_access"
proof (induction cfg g_ifindex rs rule: sniffer_next_knock.induct)
  case (3 cfg g_ifindex pkt_len buf sll rs)
  with packet_verdict_ok [of pkt_len buf cfg g_ifindex sll] show ?case by (auto split: verdict.splits)
qed auto

lemma report_knock_port: "report_knock cfg buf off name p = Some (Report n ip q) \<Longrightarrow> is_knock_port cfg q"
  by (auto simp: report_knock_def split: if_splits Option.bind_splits)

lemma packet_verdict_port:
  "packet_verdict cfg g_ifindex pkt_len buf sll = Some (Report n ip p) \<Longrightarrow>
   is_knock_port cfg p \<and> sll_pkttype sll \<noteq> PACKET_OUTGOING \<and> (g_ifindex = 0 \<or> sll_ifindex sll = g_ifindex)"
  by (auto simp: packet_verdict_def frame_verdict_def transport_verdict_def Let_def dest: report_knock_port
      split: if_splits option.splits Option.bind_splits)

text \<open>A frame that the loop passes over.\<close>

fun noise :: "config \<Rightarrow> 32 word \<Rightarrow> recv \<Rightarrow> bool" where
  "noise cfg g_ifindex (Received pkt_len buf sll) \<longleftrightarrow> packet_verdict cfg g_ifindex pkt_len buf sll = Some Skip"
| "noise cfg g_ifindex (Recv_failed errno) \<longleftrightarrow> False"

lemma next_knock_noise:
  "\<forall>r\<in>set rs. noise cfg g_ifindex r \<Longrightarrow> sniffer_next_knock cfg g_ifindex (rs @ rest) = sniffer_next_knock cfg g_ifindex rest"
  by (induction cfg g_ifindex rs rule: sniffer_next_knock.induct) auto

lemma next_knock_reported:
  assumes "sniffer_next_knock cfg g_ifindex rs = Returned (SNIFFER_OK ip p) rest ls"
  shows "\<exists>skipped pkt_len buf sll name. rs = skipped @ Received pkt_len buf sll # rest \<and>
    (\<forall>r\<in>set skipped. noise cfg g_ifindex r) \<and> packet_verdict cfg g_ifindex pkt_len buf sll = Some (Report name ip p)"
  using assms
proof (induction cfg g_ifindex rs rule: sniffer_next_knock.induct)
  case (3 cfg g_ifindex pkt_len buf sll rs)
  show ?case
  proof (cases "packet_verdict cfg g_ifindex pkt_len buf sll")
    case None
    with 3 show ?thesis by simp
  next
    case (Some v)
    show ?thesis
    proof (cases v)
      case Skip
      with "3.IH" [OF Some Skip] "3.prems" Some obtain skipped l b s n where
        "rs = skipped @ Received l b s # rest" "\<forall>r\<in>set skipped. noise cfg g_ifindex r"
        "packet_verdict cfg g_ifindex l b s = Some (Report n ip p)" by auto
      with Some Skip show ?thesis
        by (intro exI [of _ "Received pkt_len buf sll # skipped"]) auto
    next
      case (Report n i q)
      with "3.prems" Some show ?thesis by (intro exI [of _ "[]"]) auto
    qed
  qed
qed (auto split: if_splits)

section \<open>Properties\<close>

text \<open>
  C21.  Memory safety of the parser.  Whatever bytes arrive, on any interface type, truncated or
  malformed in any way, no field access leaves the bytes that were received.
\<close>

theorem parser_stays_in_bounds:
  assumes "\<forall>r\<in>set rs. recv_ok r"
  shows "sniffer_next_knock cfg g_ifindex rs \<noteq> Bad_access"
  by (rule next_knock_no_bad_access [OF assms])

theorem parser_stays_in_bounds_witness:
  "sniffer_next_knock demo_config 0
     [Received 34 (replicate 12 0 @ [8, 0, 0x4f] @ replicate 19 0) \<lparr>sll_pkttype = 0, sll_ifindex = 2, sll_hatype = 1\<rparr>] \<noteq> Bad_access"
  by (rule parser_stays_in_bounds) (simp add: PKT_BUF_SIZE_def)

text \<open>
  C22.  The parser reads what senders write.  For every IPv4 packet with a TCP or UDP payload, with
  any header options and any other field contents, in an Ethernet, loopback or bare frame with
  any padding, the verdict is the sender's: the source address and destination port if it is a
  connection attempt or a datagram to a knock port and not a later fragment, and to be skipped
  otherwise.
\<close>

theorem parse_encoded_packet:
  assumes wf: "packet_wf p" and macs: "length macs = 12"
    and frame: "buf = link_header (sll_hatype sll) macs @ encode_ip p @ trailer" and fits: "length buf \<le> PKT_BUF_SIZE"
    and sll: "sll_pkttype sll \<noteq> PACKET_OUTGOING" "g_ifindex = 0 \<or> sll_ifindex sll = g_ifindex"
    and cfg: "config_wf cfg"
  shows "packet_verdict cfg g_ifindex (length buf) buf sll =
    Some (case knocks p of
       None \<Rightarrow> Skip
     | Some port \<Rightarrow> if port \<in> set (knock_seq cfg)
         then Report (case ip_transport p of Tcp _ _ _ _ _ \<Rightarrow> ''TCP SYN'' | Udp _ _ _ \<Rightarrow> ''UDP'') (source_address p) port
         else Skip)"
  using frame_verdict_encode [OF wf macs, of cfg "sll_hatype sll" trailer] fits sll is_knock_port_iff [OF cfg]
  by (auto simp: packet_verdict_def Let_def frame split: option.split)

definition demo_packet :: "port \<Rightarrow> ip_packet" where
  "demo_packet dport = \<lparr>ip_front = [0, 0, 40, 1, 2], ip_frag = 0x4000, ip_ttl = 64, ip_check = [0, 0],
     ip_src = (10, 0, 0, 5), ip_dst = [10, 0, 0, 1], ip_options = [1, 1, 1, 1],
     ip_transport = Tcp [200, 1] dport [0, 0, 0, 1, 0, 0, 0, 0, 80] 2 [4, 0, 0, 0, 0, 0]\<rparr>"

theorem parse_encoded_packet_witness:
  "packet_verdict demo_config 0 (length (link_header 1 (replicate 12 0) @ encode_ip (demo_packet 7000)))
     (link_header 1 (replicate 12 0) @ encode_ip (demo_packet 7000)) \<lparr>sll_pkttype = 0, sll_ifindex = 2, sll_hatype = 1\<rparr> =
   Some (Report ''TCP SYN'' (le32 10 0 0 5) 7000)"
proof -
  let ?sll = "\<lparr>sll_pkttype = 0, sll_ifindex = 2, sll_hatype = 1\<rparr>"
  have wf: "packet_wf (demo_packet 7000)" by (simp add: packet_wf_def demo_packet_def)
  have k: "knocks (demo_packet 7000) = Some 7000" by (simp add: knocks_def demo_packet_def IP_OFFMASK_def bit_numeral_rec)
  have seq: "7000 \<in> set (knock_seq demo_config)" by (simp add: demo_config_def initial_config_def config_limits)
  have cfg: "config_wf demo_config" using demo_config_valid by (simp add: valid_config_def)
  have len: "length (link_header (sll_hatype ?sll) (replicate 12 0) @ encode_ip (demo_packet 7000) @ []) \<le> PKT_BUF_SIZE"
    by (simp add: link_header_def encode_ip_def demo_packet_def be16_def PKT_BUF_SIZE_def)
  show ?thesis
    using parse_encoded_packet [OF wf _ refl len _ _ cfg, of 0] k seq
    by (simp add: PACKET_OUTGOING_def) (simp add: demo_packet_def source_address_def)
qed

text \<open>
  C28.  Only knocks are reported.  When a call reports an address and a port, the frames before were
  passed over, the reporting frame was received from outside on a wanted interface, and the port
  is one of the sequence.
\<close>

theorem reports_only_knocks:
  assumes "config_wf cfg" and "sniffer_next_knock cfg g_ifindex rs = Returned (SNIFFER_OK ip p) rest ls"
  shows "p \<in> set (knock_seq cfg) \<and>
    (\<exists>skipped pkt_len buf sll. rs = skipped @ Received pkt_len buf sll # rest \<and> (\<forall>r\<in>set skipped. noise cfg g_ifindex r) \<and>
       sll_pkttype sll \<noteq> PACKET_OUTGOING \<and> (g_ifindex = 0 \<or> sll_ifindex sll = g_ifindex))"
proof -
  obtain skipped pkt_len buf sll name where r: "rs = skipped @ Received pkt_len buf sll # rest"
    "\<forall>r\<in>set skipped. noise cfg g_ifindex r"
    and v: "packet_verdict cfg g_ifindex pkt_len buf sll = Some (Report name ip p)"
    using next_knock_reported [OF assms(2)] by blast
  from packet_verdict_port [OF v] r is_knock_port_iff [OF assms(1)] show ?thesis by blast
qed

definition demo_frame :: "port \<Rightarrow> byte list" where
  "demo_frame p = link_header 1 (replicate 12 0) @ encode_ip (demo_packet p)"

definition demo_recv :: "port \<Rightarrow> recv" where
  "demo_recv p = Received (length (demo_frame p)) (demo_frame p) \<lparr>sll_pkttype = 0, sll_ifindex = 2, sll_hatype = 1\<rparr>"

lemma demo_recv_reported:
  assumes "p \<in> set (knock_seq demo_config)"
  shows "sniffer_next_knock demo_config 0 [demo_recv p] = Returned (SNIFFER_OK (le32 10 0 0 5) p) [] []"
proof -
  have wf: "packet_wf (demo_packet p)" by (simp add: packet_wf_def demo_packet_def)
  have k: "knocks (demo_packet p) = Some p" by (simp add: knocks_def demo_packet_def IP_OFFMASK_def bit_numeral_rec)
  have seq: "is_knock_port demo_config p"
    using is_knock_port_iff [of demo_config p] demo_config_valid assms by (simp add: valid_config_def)
  have len: "length (demo_frame p) \<le> PKT_BUF_SIZE"
    by (simp add: demo_frame_def link_header_def encode_ip_def demo_packet_def be16_def PKT_BUF_SIZE_def)
  have v: "frame_verdict demo_config (demo_frame p) (length (demo_frame p)) 1 = Some (Report ''TCP SYN'' (le32 10 0 0 5) p)"
    using frame_verdict_encode [OF wf, of "replicate 12 0" demo_config 1 "[]"] k seq
    by (simp add: demo_frame_def) (simp add: demo_packet_def source_address_def)
  have log: "\<not> 3 \<le> LOG_LEVEL demo_config" by (simp add: demo_config_def initial_config_def config_limits)
  show ?thesis using v len log by (simp add: demo_recv_def packet_verdict_def PACKET_OUTGOING_def)
qed

theorem reports_only_knocks_witness:
  "sniffer_next_knock demo_config 0 [demo_recv 7000] = Returned (SNIFFER_OK (le32 10 0 0 5) 7000) [] [] \<and>
   7000 \<in> set (knock_seq demo_config)"
proof -
  have "7000 \<in> set (knock_seq demo_config)" by (simp add: demo_config_def initial_config_def config_limits)
  note r = demo_recv_reported [OF this]
  have cfg: "config_wf demo_config" using demo_config_valid by (simp add: valid_config_def)
  from reports_only_knocks [OF cfg r] r show ?thesis by blast
qed

text \<open>
  C29.  A call does not return while other traffic keeps coming.  As long as every \<open>recvfrom\<close> yields
  a frame that is passed over, however many there are, the call stays in its loop: the receive
  timeout only ends it when no frame at all arrives in time, so that on a busy network the caller
  is not given a chance to notice that the daemon is stopping.
\<close>

theorem busy_network_never_returns:
  assumes "\<forall>r\<in>set rs. noise cfg g_ifindex r"
  shows "sniffer_next_knock cfg g_ifindex rs = Looping"
  using next_knock_noise [OF assms, of "[]"] by simp

theorem busy_network_never_returns_witness:
  "sniffer_next_knock demo_config 0
     (replicate 1000 (Received 0 [] \<lparr>sll_pkttype = 0, sll_ifindex = 2, sll_hatype = 1\<rparr>)) = Looping"
proof -
  have "noise demo_config 0 (Received 0 [] \<lparr>sll_pkttype = 0, sll_ifindex = 2, sll_hatype = 1\<rparr>)"
    by (simp add: packet_verdict_def frame_verdict_def find_ip_offset_def PACKET_OUTGOING_def ARPHRD_ETHER_def header_sizes)
  then show ?thesis by (intro busy_network_never_returns) (simp add: set_replicate_conv_if)
qed

text \<open>
  \<open>sniffer_init\<close> fails exactly when there is no socket or the configured interface does not
  exist; it reports every failure as an error, leaves no socket open when it fails, and otherwise
  captures on the configured interface, or on all of them if none is configured.
\<close>

theorem sniffer_init_spec:
  assumes init: "sniffer_init cfg sock timeout_ok if_nametoindex 0 = (rc, g_ifindex, closed, ls)"
    and fds: "\<And>fd. sock = Inr fd \<Longrightarrow> 0 \<le> fd"
  shows "(rc < 0 \<longleftrightarrow> (\<exists>e. sock = Inl e) \<or> KNOCK_INTERFACE cfg \<noteq> [] \<and> if_nametoindex (KNOCK_INTERFACE cfg) = 0) \<and>
    (rc < 0 \<longrightarrow> rc = - 1 \<and> (\<forall>fd. sock = Inr fd \<longrightarrow> closed = [fd]) \<and> (\<exists>m. (LEVEL_ERROR, m) \<in> set ls)) \<and>
    (0 \<le> rc \<longrightarrow> sock = Inr rc \<and> closed = [] \<and>
       g_ifindex = (if KNOCK_INTERFACE cfg = [] then 0 else if_nametoindex (KNOCK_INTERFACE cfg)))"
  using init fds by (auto simp: sniffer_init_def Let_def split: sum.splits if_splits)

theorem sniffer_init_spec_witness:
  "\<exists>g closed ls. sniffer_init (demo_config\<lparr>KNOCK_INTERFACE := ''eth7''\<rparr>) (Inr 5) True (\<lambda>_. 0) 0 = (- 1, g, closed, ls) \<and> closed = [5]"
proof -
  obtain rc g closed ls where i: "sniffer_init (demo_config\<lparr>KNOCK_INTERFACE := ''eth7''\<rparr>) (Inr 5) True (\<lambda>_. 0) 0 = (rc, g, closed, ls)"
    by (metis prod_cases4)
  from sniffer_init_spec [OF i] i show ?thesis by simp
qed

end
