(* ===== verification/Daemon.thy ===== *)
theory Daemon
  imports Knocker Firewall Sniffer Packet_Queue
begin

text \<open>
  \<open>src/main.c\<close>: command line, start-up, the two threads and shutdown.  The capture thread and the
  processor loop (on the main thread) are step functions of a program counter each; a step is what
  a thread does between two points where the other can interfere, which are the accesses to
  \<open>g_running\<close> and the queue.  Clock readings, received frames and timeouts are inputs of a step.
\<close>

section \<open>The command line\<close>

record options =
  opt_config_file :: string
  opt_config_explicit :: bool
  opt_verbose :: bool
  opt_use_syslog :: bool

datatype main_output =
    Out_usage string
  | Out_version string
  | Err_needs_path string
  | Err_unknown_option string
  | Err_needs_root string

definition DEFAULT_CONFIG_PATH :: string where "DEFAULT_CONFIG_PATH = ''/etc/knockd.conf''"

definition default_options :: options where
  "default_options = \<lparr>opt_config_file = DEFAULT_CONFIG_PATH, opt_config_explicit = False,
     opt_verbose = False, opt_use_syslog = False\<rparr>"

definition print_usage :: "string \<Rightarrow> string" where
  "print_usage progname =
     ''Usage: sudo '' @ progname @ '' [OPTIONS]'' @ [LF] @ [LF] @ ''Options:'' @ [LF] @
     ''  -c, --config <file>  Config file (default: '' @ DEFAULT_CONFIG_PATH @ '')'' @ [LF] @
     ''  -v, --verbose        Debug logging; overrides log_level'' @ [LF] @
     ''  -s, --syslog         Log to syslog instead of stderr'' @ [LF] @
     ''  -V, --version        Print the version and exit'' @ [LF] @
     ''  -h, --help           Print this help and exit'' @ [LF] @ [LF] @
     ''knockd runs in the foreground and is meant to be supervised by'' @ [LF] @
     ''systemd, which captures stderr into the journal. It needs root'' @ [LF] @
     ''for the raw capture socket and for iptables.'' @ [LF] @ [LF]"

text \<open>The argument loop: \<open>Inl\<close> the exit status and what was printed, \<open>Inr\<close> the settings.\<close>

fun parse_args :: "string \<Rightarrow> string \<Rightarrow> string list \<Rightarrow> options \<Rightarrow> (int \<times> main_output list) + options" where
  "parse_args prog version [] opts = Inr opts"
| "parse_args prog version (a # as) opts =
     (if a = ''-h'' \<or> a = ''--help'' then Inl (0, [Out_usage (print_usage prog)])
      else if a = ''-V'' \<or> a = ''--version'' then Inl (0, [Out_version version])
      else if a = ''-v'' \<or> a = ''--verbose'' then parse_args prog version as (opts\<lparr>opt_verbose := True\<rparr>)
      else if a = ''-s'' \<or> a = ''--syslog'' then parse_args prog version as (opts\<lparr>opt_use_syslog := True\<rparr>)
      else if a = ''-c'' \<or> a = ''--config''
      then (case as of
              [] \<Rightarrow> Inl (1, [Err_needs_path a])
            | f # as \<Rightarrow> parse_args prog version as (opts\<lparr>opt_config_file := f, opt_config_explicit := True\<rparr>))
      else Inl (1, [Err_unknown_option a, Out_usage (print_usage prog)]))"

datatype daemon_msg =
    Config_log config_msg
  | Queue_log queue_msg
  | Knocker_log knocker_msg
  | Firewall_log firewall_msg
  | Sniffer_log sniffer_msg
  | Refusing_default_sequence string
  | Debug_logging_enabled
  | Packet_capture_failed
  | Address_not_formatted
  | Completed_sequence ipv4
  | Completed_but_not_opened ipv4
  | Could_not_start_capture
  | Could_not_start_thread
  | Daemon_running nat int
  | Shutting_down
  | Daemon_stopped

definition logged :: "('m \<Rightarrow> daemon_msg) \<Rightarrow> 'm logs \<Rightarrow> daemon_msg logs" where
  "logged f ls = map (\<lambda>(l, m). (l, f m)) ls"

text \<open>\<open>main\<close> up to the point where start-up begins.  \<open>files\<close> gives what \<open>fopen\<close> finds at a path.\<close>

definition main_front ::
  "string \<Rightarrow> string \<Rightarrow> string list \<Rightarrow> nat \<Rightarrow> (string \<Rightarrow> config_file option) \<Rightarrow>
   (int \<times> main_output list \<times> daemon_msg logs) + (config \<times> logger_state \<times> daemon_msg logs)" where
  "main_front prog version args euid files = (case parse_args prog version args default_options of
     Inl (code, out) \<Rightarrow> Inl (code, out, [])
   | Inr opts \<Rightarrow>
       if euid \<noteq> 0 then Inl (1, [Err_needs_root prog], [])
       else
         (let (logger, _) = logger_init (opt_use_syslog opts);
              (rc, cfg, l1) = config_load (opt_config_file opts) (files (opt_config_file opts)) initial_config
          in if rc \<noteq> 0 \<and> opt_config_explicit opts
             then Inl (1, [], logged Config_log l1 @ [(LEVEL_ERROR, Refusing_default_sequence (opt_config_file opts))])
             else if opt_verbose opts
             then Inr (cfg\<lparr>LOG_LEVEL := level_int LEVEL_DEBUG\<rparr>, logger,
                       logged Config_log l1 @ [(LEVEL_INFO, Debug_logging_enabled)])
             else Inr (cfg, logger, logged Config_log l1)))"

section \<open>The banner\<close>

text \<open>The loop of \<open>format_knock_sequence\<close>: \<open>buf\<close> holds the \<open>off\<close> bytes written so far.\<close>

fun format_ports :: "nat \<Rightarrow> nat \<Rightarrow> string \<Rightarrow> port list \<Rightarrow> string" where
  "format_ports buflen i buf [] = buf"
| "format_ports buflen i buf (p # ps) =
     (let s = (if i = 0 then [] else '' -> '') @ dec_of_nat (unat p)
      in if length s \<ge> buflen - length buf then buf @ snprintf_store (buflen - length buf) s
         else format_ports buflen (Suc i) (buf @ s) ps)"

definition format_knock_sequence :: "config \<Rightarrow> nat \<Rightarrow> string" where
  "format_knock_sequence cfg buflen = (if buflen = 0 then [] else format_ports buflen 0 [] (knock_seq cfg))"

definition em_dash :: string where "em_dash = [CHR 0xE2, CHR 0x80, CHR 0x94]"

definition banner_sequence :: "config \<Rightarrow> string" where
  "banner_sequence cfg =
     (if LOG_LEVEL cfg \<ge> level_int LEVEL_DEBUG then format_knock_sequence cfg 160
      else snprintf_store 160 (dec_of_nat (KNOCK_SEQ_LEN cfg) @ '' ports (hidden '' @ em_dash @
             '' run with -v to show them)''))"

definition print_banner :: "string \<Rightarrow> config \<Rightarrow> string" where
  "print_banner version cfg =
     [LF] @ ''  knockd '' @ version @ [LF] @ ''  ---------------------------------'' @ [LF, LF] @
     ''    knock sequence   '' @ banner_sequence cfg @ [LF] @
     ''    protected port   '' @ dec_of_int (PROTECTED_PORT cfg) @ [LF] @
     ''    access window    '' @ dec_of_int (ACCESS_TIMEOUT cfg) @ ''s open, '' @
       dec_of_int (KNOCK_WINDOW cfg) @ ''s allowed between knocks'' @ [LF] @
     ''    client table     '' @ dec_of_int (MAX_CLIENTS cfg) @ '' slots'' @ [LF] @
     ''    capture on       '' @ (if KNOCK_INTERFACE cfg \<noteq> [] then KNOCK_INTERFACE cfg else ''every interface'') @ [LF, LF]"

section \<open>The state of the daemon\<close>

definition STALE_SCAN_INTERVAL :: int where "STALE_SCAN_INTERVAL = 5"

datatype capture_pc = C_Check | C_Sniff | C_Push knock_event_t | C_Leave | C_Done

datatype processor_pc = P_Check | P_Wait | P_Event knock_event_t | P_Pop | P_Tick | P_Sweep | P_Done

text \<open>The last two fields are not in the program: the events the queue has accepted, in order, and
  what the state machine answered to each that was processed, newest first.\<close>

record 'k daemon =
  g_running :: bool
  queue :: pktqueue
  clients :: "client_table option"
  fw :: firewall
  sys :: 'k
  ifindex :: "32 word"
  sock_fd :: int
  capture_started :: bool
  capture :: capture_pc
  processor :: processor_pc
  last_cleanup :: seconds
  accepted :: "knock_event_t list"
  history :: "knock_record list"

text \<open>A thread's step: the new state, or the thread cannot proceed (it is blocked in a call or has
  finished), or it has made an invalid memory access.\<close>

datatype 'k result = Step "'k daemon" "daemon_msg logs" | Blocked | Crash

definition signal_handler :: "'k daemon \<Rightarrow> 'k daemon" where
  "signal_handler d = d\<lparr>g_running := False\<rparr>"

section \<open>The threads\<close>

definition capture_thread :: "config \<Rightarrow> recv list \<Rightarrow> seconds \<Rightarrow> 'k daemon \<Rightarrow> 'k result" where
  "capture_thread cfg rs now d = (case capture d of
     C_Check \<Rightarrow> Step (d\<lparr>capture := if g_running d then C_Sniff else C_Leave\<rparr>) []
   | C_Sniff \<Rightarrow> (case sniffer_next_knock cfg (ifindex d) rs of
       Looping \<Rightarrow> Blocked
     | Bad_access \<Rightarrow> Crash
     | Returned rc _ ls \<Rightarrow> (case rc of
         SNIFFER_OK ip port \<Rightarrow> Step (d\<lparr>capture := C_Push \<lparr>src_ip = ip, dst_port = port\<rparr>\<rparr>) (logged Sniffer_log ls)
       | SNIFFER_AGAIN \<Rightarrow> Step (d\<lparr>capture := C_Check\<rparr>) (logged Sniffer_log ls)
       | SNIFFER_ERROR \<Rightarrow> Step (d\<lparr>g_running := False, capture := C_Leave\<rparr>)
           (logged Sniffer_log ls @ [(LEVEL_ERROR, Packet_capture_failed)])))
   | C_Push evt \<Rightarrow>
       (let (r, q, ls) = pktqueue_push now evt (queue d)
        in Step (d\<lparr>queue := q, capture := C_Check, accepted := accepted d @ (if r = 0 then [evt] else [])\<rparr>)
             (logged Queue_log ls))
   | C_Leave \<Rightarrow> Step (d\<lparr>queue := pktqueue_shutdown (queue d), capture := C_Done\<rparr>) []
   | C_Done \<Rightarrow> Blocked)"

text \<open>\<open>process_event\<close> with the clock readings of \<open>process_locked\<close>, \<open>alloc_client\<close> and
  \<open>firewall_open\<close>; \<open>None\<close> is an access through a null table.\<close>

definition process_event ::
  "config \<Rightarrow> 'k iptables \<Rightarrow> seconds \<times> seconds \<times> seconds \<Rightarrow> knock_event_t \<Rightarrow> 'k daemon \<Rightarrow>
   ('k daemon \<times> daemon_msg logs) option" where
  "process_event cfg ipt clk evt d = (case clk of (now, now_alloc, now_open) \<Rightarrow>
     (case knocker_process cfg now now_alloc (src_ip evt) (dst_port evt) (clients d) of
        None \<Rightarrow> None
      | Some (r, cl, l1) \<Rightarrow>
          (let d = d\<lparr>clients := cl, history := (now, src_ip evt, dst_port evt, r) # history d\<rparr>
           in if r \<noteq> KNOCK_COMPLETE then Some (d, logged Knocker_log l1)
              else if length (inet_ntop (src_ip evt)) \<ge> INET_ADDRSTRLEN
              then Some (d, logged Knocker_log l1 @ [(LEVEL_ERROR, Address_not_formatted)])
              else (let (rc, f, k, l2) = firewall_open cfg ipt now_open (src_ip evt) (fw d) (sys d)
                    in Some (d\<lparr>fw := f, sys := k\<rparr>,
                         logged Knocker_log l1 @ [(LEVEL_INFO, Completed_sequence (src_ip evt))] @ logged Firewall_log l2 @
                         (if rc < 0 then [(LEVEL_ERROR, Completed_but_not_opened (src_ip evt))] else []))))))"

text \<open>The processor loop.  At \<open>P_Wait\<close> the thread is in \<open>pktqueue_wait\<close>, which returns when the
  queue has something or is shutting down, or when the timed wait has expired (\<open>timedout\<close>); the
  \<open>do\<close> loop is \<open>P_Event\<close> and \<open>P_Pop\<close>.\<close>

definition run_processor ::
  "config \<Rightarrow> 'k iptables \<Rightarrow> bool \<Rightarrow> seconds \<times> seconds \<times> seconds \<Rightarrow> 'k daemon \<Rightarrow> 'k result" where
  "run_processor cfg ipt timedout clk d = (case processor d of
     P_Check \<Rightarrow> Step (d\<lparr>processor := if g_running d then P_Wait else P_Done\<rparr>) []
   | P_Wait \<Rightarrow> (case pktqueue_wait (queue d) (if timedout then [(True, queue d)] else []) of
       None \<Rightarrow> Blocked
     | Some (Some evt, q) \<Rightarrow> Step (d\<lparr>queue := q, processor := P_Event evt\<rparr>) []
     | Some (None, q) \<Rightarrow> Step (d\<lparr>queue := q, processor := P_Tick\<rparr>) [])
   | P_Event evt \<Rightarrow> (case process_event cfg ipt clk evt d of
       None \<Rightarrow> Crash
     | Some (d, ls) \<Rightarrow> Step (d\<lparr>processor := P_Pop\<rparr>) ls)
   | P_Pop \<Rightarrow> (case pktqueue_pop (queue d) of
       Some (evt, q) \<Rightarrow> Step (d\<lparr>queue := q, processor := P_Event evt\<rparr>) []
     | None \<Rightarrow> Step (d\<lparr>processor := P_Tick\<rparr>) [])
   | P_Tick \<Rightarrow>
       (let (f, k, ls) = firewall_tick cfg ipt (fst clk) (fw d) (sys d)
        in Step (d\<lparr>fw := f, sys := k, processor := P_Sweep\<rparr>) (logged Firewall_log ls))
   | P_Sweep \<Rightarrow> (case clk of (now, now_scan, _) \<Rightarrow>
       if now - last_cleanup d \<ge> STALE_SCAN_INTERVAL
       then (case knocker_cleanup_stale cfg now_scan (clients d) of
               None \<Rightarrow> Crash
             | Some (cl, ls) \<Rightarrow>
                 Step (d\<lparr>clients := cl, last_cleanup := now, processor := P_Check\<rparr>) (logged Knocker_log ls))
       else Step (d\<lparr>processor := P_Check\<rparr>) [])
   | P_Done \<Rightarrow> Blocked)"

section \<open>Start-up and clean-up\<close>

text \<open>What the system answers during start-up.\<close>

record boot_env =
  clients_calloc_ok :: bool
  grants_calloc_ok :: bool
  socket_result :: "int + int"
  rcvtimeo_ok :: bool
  nametoindex :: "string \<Rightarrow> 32 word"
  thread_ok :: bool
  start_time :: seconds

text \<open>From \<open>pktqueue_init\<close> to the start of the processor loop; \<open>False\<close> is the jump to \<open>cleanup\<close>.\<close>

definition daemon_startup ::
  "config \<Rightarrow> 'k iptables \<Rightarrow> boot_env \<Rightarrow> 'k \<Rightarrow> bool \<times> 'k daemon \<times> int list \<times> daemon_msg logs" where
  "daemon_startup cfg ipt env k =
     (let (q, l1) = pktqueue_init;
          d = \<lparr>g_running = True, queue = q, clients = None, fw = firewall_start, sys = k, ifindex = 0,
               sock_fd = - 1, capture_started = False, capture = C_Check, processor = P_Check,
               last_cleanup = 0, accepted = [], history = []\<rparr>;
          (rc_knocker, cl, l2) = knocker_init cfg (clients_calloc_ok env);
          d = d\<lparr>clients := cl\<rparr>;
          ls = logged Queue_log l1 @ logged Knocker_log l2
      in if rc_knocker \<noteq> 0 then (False, d, [], ls)
         else
           (let (rc_fw, f, k, l3) = firewall_init cfg ipt (grants_calloc_ok env) (fw d) (sys d);
                d = d\<lparr>fw := f, sys := k\<rparr>;
                ls = ls @ logged Firewall_log l3
            in if rc_fw \<noteq> 0 then (False, d, [], ls)
               else
                 (let (fd, ifi, closed, l4) =
                        sniffer_init cfg (socket_result env) (rcvtimeo_ok env) (nametoindex env) (ifindex d);
                      d = d\<lparr>sock_fd := fd, ifindex := ifi\<rparr>;
                      ls = ls @ logged Sniffer_log l4
                  in if fd < 0 then (False, d, closed, ls @ [(LEVEL_ERROR, Could_not_start_capture)])
                     else if \<not> thread_ok env then (False, d, closed, ls @ [(LEVEL_ERROR, Could_not_start_thread)])
                     else (True, d\<lparr>capture_started := True, last_cleanup := start_time env\<rparr>, closed,
                           ls @ [(LEVEL_INFO, Daemon_running (KNOCK_SEQ_LEN cfg) (PROTECTED_PORT cfg))]))))"

text \<open>The code after the label \<open>cleanup\<close>.  The first part ends in \<open>pthread_join\<close>, which returns only
  when the capture thread has finished; the second part follows it.\<close>

definition cleanup_request :: "'k daemon \<Rightarrow> 'k daemon \<times> daemon_msg logs" where
  "cleanup_request d =
     (d\<lparr>g_running := False, queue := pktqueue_shutdown (queue d)\<rparr>, [(LEVEL_INFO, Shutting_down)])"

definition join_returns :: "'k daemon \<Rightarrow> bool" where
  "join_returns d \<longleftrightarrow> (capture_started d \<longrightarrow> capture d = C_Done)"

definition cleanup_release ::
  "config \<Rightarrow> 'k iptables \<Rightarrow> 'k daemon \<Rightarrow> 'k daemon \<times> int list \<times> daemon_msg logs" where
  "cleanup_release cfg ipt d =
     (let (closed, l1) = sniffer_close (sock_fd d);
          (f, k, l2) = firewall_shutdown cfg ipt (fw d) (sys d)
      in (d\<lparr>fw := f, sys := k, clients := knocker_shutdown (clients d)\<rparr>, closed,
          logged Sniffer_log l1 @ logged Firewall_log l2 @ logged Queue_log pktqueue_destroy @
          [(LEVEL_INFO, Daemon_stopped)]))"

section \<open>Runs\<close>

text \<open>One step of the whole program: a signal arrives, or one of the threads moves.\<close>

inductive daemon_step :: "config \<Rightarrow> 'k iptables \<Rightarrow> 'k daemon \<Rightarrow> 'k daemon \<Rightarrow> bool"
  for cfg :: config and ipt :: "'k iptables" where
  signal: "daemon_step cfg ipt d (signal_handler d)"
| capture: "\<forall>r\<in>set rs. recv_ok r \<Longrightarrow> capture_thread cfg rs now d = Step d' ls \<Longrightarrow> daemon_step cfg ipt d d'"
| processor: "run_processor cfg ipt timedout clk d = Step d' ls \<Longrightarrow> daemon_step cfg ipt d d'"

inductive daemon_reach :: "config \<Rightarrow> 'k iptables \<Rightarrow> 'k daemon \<Rightarrow> 'k daemon \<Rightarrow> bool"
  for cfg :: config and ipt :: "'k iptables" where
  start: "daemon_reach cfg ipt d d"
| step: "daemon_reach cfg ipt d d' \<Longrightarrow> daemon_step cfg ipt d' d'' \<Longrightarrow> daemon_reach cfg ipt d d''"

inductive_cases daemon_stepE: "daemon_step cfg ipt d d'"

text \<open>A run of the program from its arguments to the value \<open>main\<close> returns: it ends before start-up,
  start-up fails and jumps to \<open>cleanup\<close> with \<open>exit_code\<close> still 1, or the processor loop ends,
  \<open>exit_code\<close> becomes 0 and \<open>cleanup\<close> follows.  The result is the exit code, the system state and the
  descriptors closed.\<close>

inductive main_run ::
  "string \<Rightarrow> string \<Rightarrow> string list \<Rightarrow> nat \<Rightarrow> (string \<Rightarrow> config_file option) \<Rightarrow> boot_env \<Rightarrow> 'k iptables \<Rightarrow> 'k \<Rightarrow>
   int \<Rightarrow> 'k \<Rightarrow> int list \<Rightarrow> bool"
  for prog version :: string and args :: "string list" and euid :: nat
    and files :: "string \<Rightarrow> config_file option" and env :: boot_env and ipt :: "'k iptables" and k0 :: 'k where
  no_front: "main_front prog version args euid files = Inl (exit_code, out, ls) \<Longrightarrow>
    main_run prog version args euid files env ipt k0 exit_code k0 []"
| no_start: "main_front prog version args euid files = Inr (cfg, logger, l1) \<Longrightarrow>
    daemon_startup cfg ipt env k0 = (False, d, closed, l2) \<Longrightarrow>
    cleanup_release cfg ipt (fst (cleanup_request d)) = (d2, fds, l3) \<Longrightarrow>
    main_run prog version args euid files env ipt k0 1 (sys d2) (closed @ fds)"
| served: "main_front prog version args euid files = Inr (cfg, logger, l1) \<Longrightarrow>
    daemon_startup cfg ipt env k0 = (True, d0, closed, l2) \<Longrightarrow>
    daemon_reach cfg ipt d0 d \<Longrightarrow> processor d = P_Done \<Longrightarrow>
    daemon_reach cfg ipt (fst (cleanup_request d)) d1 \<Longrightarrow> join_returns d1 \<Longrightarrow>
    cleanup_release cfg ipt d1 = (d2, fds, l3) \<Longrightarrow>
    main_run prog version args euid files env ipt k0 0 (sys d2) (closed @ fds)"

section \<open>The invariant\<close>

text \<open>The event the processor holds in its local variable, and the address and port of a record.\<close>

fun in_hand :: "processor_pc \<Rightarrow> knock_event_t list" where
  "in_hand (P_Event e) = [e]"
| "in_hand _ = []"

definition event_of :: "knock_record \<Rightarrow> knock_event_t" where
  "event_of rec = (case rec of (t, ip, p, r) \<Rightarrow> \<lparr>src_ip = ip, dst_port = p\<rparr>)"

fun pushing :: "capture_pc \<Rightarrow> knock_event_t list" where
  "pushing (C_Push e) = [e]"
| "pushing _ = []"

text \<open>An address has completed the sequence in a history: some knock of it was answered
  \<open>KNOCK_COMPLETE\<close>, and its knocks since its previous completion contain the whole sequence in
  order, each step within the window of the one before.\<close>

definition completed :: "config \<Rightarrow> knock_record list \<Rightarrow> ipv4 \<Rightarrow> bool" where
  "completed cfg h ip \<longleftrightarrow> (\<exists>h1 t p h0. h = h1 @ (t, ip, p, KNOCK_COMPLETE) # h0 \<and>
     knocked_prefix cfg (length (knock_seq cfg)) t ((t, p) # fresh_knocks ip h0))"

text \<open>What the invariant says of the tables and the firewall, and of the flow of events.\<close>

definition tables_ok :: "config \<Rightarrow> 'k iptables \<Rightarrow> 'k \<Rightarrow> 'k daemon \<Rightarrow> bool" where
  "tables_ok cfg ipt k0 d \<longleftrightarrow>
     (\<exists>tbl. clients d = Some tbl \<and> history_inv cfg (history d) tbl) \<and>
     (\<exists>cs ls. firewall_session cfg ipt cs k0 = Some ((fw d, sys d), ls) \<and>
        (\<forall>t ip. Open t ip \<in> set cs \<longrightarrow> completed cfg (history d) ip))"

definition flow_ok :: "config \<Rightarrow> 'k daemon \<Rightarrow> bool" where
  "flow_ok cfg d \<longleftrightarrow> queue_inv (queue d) \<and>
     map event_of (rev (history d)) @ in_hand (processor d) @ contents (queue d) = accepted d \<and>
     (\<forall>e\<in>set (pushing (capture d) @ accepted d). dst_port e \<in> set (knock_seq cfg))"

definition daemon_inv :: "config \<Rightarrow> 'k iptables \<Rightarrow> 'k \<Rightarrow> 'k daemon \<Rightarrow> bool" where
  "daemon_inv cfg ipt k0 d \<longleftrightarrow> tables_ok cfg ipt k0 d \<and> flow_ok cfg d"

lemma tables_ok_frame [simp]:
  "tables_ok cfg ipt k0 (d\<lparr>g_running := a\<rparr>) = tables_ok cfg ipt k0 d"
  "tables_ok cfg ipt k0 (d\<lparr>queue := q\<rparr>) = tables_ok cfg ipt k0 d"
  "tables_ok cfg ipt k0 (d\<lparr>capture := c\<rparr>) = tables_ok cfg ipt k0 d"
  "tables_ok cfg ipt k0 (d\<lparr>processor := p\<rparr>) = tables_ok cfg ipt k0 d"
  "tables_ok cfg ipt k0 (d\<lparr>last_cleanup := t\<rparr>) = tables_ok cfg ipt k0 d"
  "tables_ok cfg ipt k0 (d\<lparr>accepted := es\<rparr>) = tables_ok cfg ipt k0 d"
  by (simp_all add: tables_ok_def)

lemma flow_ok_frame [simp]:
  "flow_ok cfg (d\<lparr>g_running := a\<rparr>) = flow_ok cfg d"
  "flow_ok cfg (d\<lparr>clients := cl\<rparr>) = flow_ok cfg d"
  "flow_ok cfg (d\<lparr>fw := f\<rparr>) = flow_ok cfg d"
  "flow_ok cfg (d\<lparr>sys := k\<rparr>) = flow_ok cfg d"
  "flow_ok cfg (d\<lparr>last_cleanup := t\<rparr>) = flow_ok cfg d"
  by (simp_all add: flow_ok_def)

section \<open>Steps of the components inside the daemon\<close>

lemma firewall_session_snoc:
  assumes "firewall_session cfg ipt cs k0 = Some (s, ls)" "firewall_do cfg ipt c s = (s', l)"
  shows "\<exists>ls'. firewall_session cfg ipt (cs @ [c]) k0 = Some (s', ls')"
proof -
  obtain rc f k l0 where i: "firewall_init cfg ipt True firewall_start k0 = (rc, f, k, l0)" by (metis prod_cases4)
  from assms(1) i have "rc = 0" and "firewall_run cfg ipt cs (f, k) = (s, ls)"
    by (auto simp: firewall_session_def split: if_splits)
  with assms(2) i show ?thesis by (simp add: firewall_session_def run_append Let_def)
qed

lemma completed_Cons: "completed cfg h ip \<Longrightarrow> completed cfg (x # h) ip"
  unfolding completed_def by (metis append_Cons)

lemma completed_now: "justified cfg ((t, ip, p, KNOCK_COMPLETE) # h) \<Longrightarrow> completed cfg ((t, ip, p, KNOCK_COMPLETE) # h) ip"
  unfolding completed_def using justified_complete by (metis append_Nil)

text \<open>The processor's own part of the state: tables and firewall.\<close>

lemma process_event_keeps:
  assumes cfg: "valid_config cfg" and cl: "clients d = Some tbl" and h: "history_inv cfg (history d) tbl"
    and ses: "firewall_session cfg ipt cs k0 = Some ((fw d, sys d), ls)"
    and opn: "\<forall>t ip. Open t ip \<in> set cs \<longrightarrow> completed cfg (history d) ip"
  obtains d' l tbl' cs' ls' r where "process_event cfg ipt clk evt d = Some (d', l)"
    "clients d' = Some tbl'" "history_inv cfg (history d') tbl'"
    "firewall_session cfg ipt cs' k0 = Some ((fw d', sys d'), ls')"
    "\<forall>t ip. Open t ip \<in> set cs' \<longrightarrow> completed cfg (history d') ip"
    "history d' = (fst clk, src_ip evt, dst_port evt, r) # history d"
    "queue d' = queue d" "processor d' = processor d" "capture d' = capture d" "accepted d' = accepted d"
    "g_running d' = g_running d"
proof -
  obtain now na no where clk: "clk = (now, na, no)" by (metis prod_cases3)
  let ?ip = "src_ip evt" and ?p = "dst_port evt"
  obtain r tbl' l1 where p: "process_locked cfg now na ?ip ?p tbl = (r, tbl', l1)" by (metis prod_cases3)
  let ?h = "(now, ?ip, ?p, r) # history d"
  note h' = history_inv_knock [OF cfg h p]
  have kp: "knocker_process cfg now na ?ip ?p (clients d) = Some (r, Some tbl', l1)"
    by (simp add: knocker_process_def cl p)
  have old: "\<forall>t ip. Open t ip \<in> set cs \<longrightarrow> completed cfg ?h ip" using opn completed_Cons by blast
  show ?thesis
  proof (cases "r = KNOCK_COMPLETE")
    case False
    let ?d = "d\<lparr>clients := Some tbl', history := ?h\<rparr>"
    have "process_event cfg ipt clk evt d = Some (?d, logged Knocker_log l1)"
      using False by (simp add: process_event_def clk kp)
    then show ?thesis by (rule that [of ?d _ tbl' cs ls r]) (simp_all add: h' ses old clk)
  next
    case True
    obtain rc f k l2 where o: "firewall_open cfg ipt no ?ip (fw d) (sys d) = (rc, f, k, l2)" by (metis prod_cases4)
    let ?d = "d\<lparr>clients := Some tbl', history := ?h, fw := f, sys := k\<rparr>"
    obtain l where pe: "process_event cfg ipt clk evt d = Some (?d, l)"
      using True o length_inet_ntop [of ?ip] by (simp add: process_event_def clk kp not_le)
    have "firewall_do cfg ipt (Open no ?ip) (fw d, sys d) = ((f, k), l2)" by (simp add: o)
    from firewall_session_snoc [OF ses this] obtain ls' where
      ses': "firewall_session cfg ipt (cs @ [Open no ?ip]) k0 = Some ((f, k), ls')" by blast
    have "completed cfg ?h ?ip" using h' True by (simp add: history_inv_def completed_now del: justified.simps)
    with old have "\<forall>t ip. Open t ip \<in> set (cs @ [Open no ?ip]) \<longrightarrow> completed cfg ?h ip" by auto
    with pe show ?thesis by (intro that [of ?d l tbl' "cs @ [Open no ?ip]" ls' r]) (simp_all add: h' ses' clk)
  qed
qed

section \<open>Preservation\<close>

lemma event_eta: "\<lparr>src_ip = src_ip e, dst_port = dst_port e\<rparr> = (e :: knock_event_t)"
  by (cases e) simp

lemma sniffed_port:
  assumes "valid_config cfg" "sniffer_next_knock cfg ifi rs = Returned (SNIFFER_OK ip p) rest ls"
  shows "p \<in> set (knock_seq cfg)"
proof -
  have wf: "config_wf cfg" using assms(1) by (simp add: valid_config_def)
  obtain pkt_len buf sll name where "packet_verdict cfg ifi pkt_len buf sll = Some (Report name ip p)"
    using next_knock_reported [OF assms(2)] by blast
  from packet_verdict_port [OF this] show ?thesis by (simp add: is_knock_port_iff [OF wf])
qed

lemma capture_thread_keeps:
  assumes cfg: "valid_config cfg" and inv: "daemon_inv cfg ipt k0 d"
    and st: "capture_thread cfg rs now d = Step d' ls"
  shows "daemon_inv cfg ipt k0 d'"
proof -
  have t: "tables_ok cfg ipt k0 d" and f: "flow_ok cfg d" using inv by (simp_all add: daemon_inv_def)
  have "tables_ok cfg ipt k0 d'"
    using st t by (auto simp: capture_thread_def Let_def split: capture_pc.splits sniff.splits sniffer_rc.splits prod.splits)
  moreover have "flow_ok cfg d'"
  proof (cases "capture d")
    case C_Sniff
    then obtain rc rest l where n: "sniffer_next_knock cfg (ifindex d) rs = Returned rc rest l"
      using st by (cases "sniffer_next_knock cfg (ifindex d) rs") (auto simp: capture_thread_def)
    show ?thesis
    proof (cases rc)
      case (SNIFFER_OK ip p)
      have "p \<in> set (knock_seq cfg)" using sniffed_port [OF cfg] n SNIFFER_OK by blast
      with C_Sniff n SNIFFER_OK st f show ?thesis by (auto simp: capture_thread_def flow_ok_def)
    qed (use C_Sniff n st f in \<open>auto simp: capture_thread_def flow_ok_def\<close>)
  next
    case (C_Push e)
    obtain r q l where p: "pktqueue_push now e (queue d) = (r, q, l)" by (metis prod_cases3)
    have q: "queue_inv q \<and> contents q = contents (queue d) @ (if r = 0 then [e] else [])"
      using push_result [OF _ p] f by (simp add: flow_ok_def)
    have d': "d' = d\<lparr>queue := q, capture := C_Check, accepted := accepted d @ (if r = 0 then [e] else [])\<rparr>"
      using st C_Push p by (simp add: capture_thread_def)
    show ?thesis using f q C_Push unfolding d' flow_ok_def by auto
  next
    case C_Leave
    with st f show ?thesis by (auto simp: capture_thread_def flow_ok_def pktqueue_shutdown_def)
  qed (use st f in \<open>auto simp: capture_thread_def flow_ok_def split: if_splits\<close>)
  ultimately show ?thesis by (simp add: daemon_inv_def)
qed

lemma tables_ok_event:
  assumes cfg: "valid_config cfg" and t: "tables_ok cfg ipt k0 d"
  obtains d' l r where "process_event cfg ipt clk evt d = Some (d', l)" "tables_ok cfg ipt k0 d'"
    "history d' = (fst clk, src_ip evt, dst_port evt, r) # history d"
    "queue d' = queue d" "processor d' = processor d" "capture d' = capture d" "accepted d' = accepted d"
    "g_running d' = g_running d"
proof -
  obtain tbl cs l0 where cl: "clients d = Some tbl" and h: "history_inv cfg (history d) tbl"
    and ses: "firewall_session cfg ipt cs k0 = Some ((fw d, sys d), l0)"
    and opn: "\<forall>t ip. Open t ip \<in> set cs \<longrightarrow> completed cfg (history d) ip"
    using t unfolding tables_ok_def by blast
  obtain d1 l tbl1 cs1 l1 r where pe: "process_event cfg ipt clk evt d = Some (d1, l)"
    and t1: "clients d1 = Some tbl1" "history_inv cfg (history d1) tbl1"
      "firewall_session cfg ipt cs1 k0 = Some ((fw d1, sys d1), l1)"
      "\<forall>t ip. Open t ip \<in> set cs1 \<longrightarrow> completed cfg (history d1) ip"
    and e: "history d1 = (fst clk, src_ip evt, dst_port evt, r) # history d"
      "queue d1 = queue d" "processor d1 = processor d" "capture d1 = capture d" "accepted d1 = accepted d"
      "g_running d1 = g_running d"
    by (rule process_event_keeps [OF cfg cl h ses opn])
  have "tables_ok cfg ipt k0 d1" using t1 unfolding tables_ok_def by blast
  from that [OF pe this e] show ?thesis .
qed

lemma tables_ok_tick:
  assumes "tables_ok cfg ipt k0 d" "firewall_tick cfg ipt now (fw d) (sys d) = (f, k, l)"
  shows "tables_ok cfg ipt k0 (d\<lparr>fw := f, sys := k\<rparr>)"
proof -
  obtain cs l0 where ses: "firewall_session cfg ipt cs k0 = Some ((fw d, sys d), l0)"
    and opn: "\<forall>t ip. Open t ip \<in> set cs \<longrightarrow> completed cfg (history d) ip"
    using assms(1) unfolding tables_ok_def by blast
  have "firewall_do cfg ipt (Tick now) (fw d, sys d) = ((f, k), l)" using assms(2) by simp
  from firewall_session_snoc [OF ses this] obtain l1 where
    "firewall_session cfg ipt (cs @ [Tick now]) k0 = Some ((f, k), l1)" by blast
  moreover have "\<forall>t ip. Open t ip \<in> set (cs @ [Tick now]) \<longrightarrow> completed cfg (history d) ip" using opn by auto
  ultimately have "\<exists>cs ls. firewall_session cfg ipt cs k0 = Some ((f, k), ls) \<and>
      (\<forall>t ip. Open t ip \<in> set cs \<longrightarrow> completed cfg (history d) ip)" by blast
  then show ?thesis using assms(1) unfolding tables_ok_def by simp
qed

lemma tables_ok_sweep:
  assumes t: "tables_ok cfg ipt k0 d"
  obtains cl l where "knocker_cleanup_stale cfg now (clients d) = Some (cl, l)" "tables_ok cfg ipt k0 (d\<lparr>clients := cl\<rparr>)"
proof -
  obtain tbl where cl: "clients d = Some tbl" and h: "history_inv cfg (history d) tbl"
    using t unfolding tables_ok_def by blast
  obtain cl1 l where c: "knocker_cleanup_stale cfg now (Some tbl) = Some (cl1, l)"
    by (auto simp: knocker_cleanup_stale_def Let_def)
  obtain tbl1 where "cl1 = Some tbl1" "history_inv cfg (history d) tbl1" by (rule history_inv_cleanup [OF h c])
  with t have "tables_ok cfg ipt k0 (d\<lparr>clients := cl1\<rparr>)" unfolding tables_ok_def by simp
  with that c cl show ?thesis by metis
qed

lemma run_processor_keeps:
  assumes cfg: "valid_config cfg" and inv: "daemon_inv cfg ipt k0 d"
  shows "run_processor cfg ipt timedout clk d \<noteq> Crash \<and>
    (run_processor cfg ipt timedout clk d = Step d' ls \<longrightarrow> daemon_inv cfg ipt k0 d')"
proof -
  have t: "tables_ok cfg ipt k0 d" and f: "flow_ok cfg d" using inv by (simp_all add: daemon_inv_def)
  then have q: "queue_inv (queue d)" by (simp add: flow_ok_def)
  show ?thesis
  proof (cases "processor d")
    case P_Wait
    have "flow_ok cfg (d\<lparr>queue := q', processor := case eo of Some e \<Rightarrow> P_Event e | None \<Rightarrow> P_Tick\<rparr>)"
      if "pktqueue_wait (queue d) (if timedout then [(True, queue d)] else []) = Some (eo, q')" for eo q'
      using wait_result [OF that] pop_result [OF q] f P_Wait unfolding flow_ok_def by auto
    from this [of None] this [of "Some e" for e] t P_Wait show ?thesis
      by (auto simp: run_processor_def daemon_inv_def split: option.splits prod.splits)
  next
    case (P_Event e)
    obtain d1 l r where pe: "process_event cfg ipt clk e d = Some (d1, l)" and t1: "tables_ok cfg ipt k0 d1"
      and e: "history d1 = (fst clk, src_ip e, dst_port e, r) # history d"
      "queue d1 = queue d" "processor d1 = processor d" "capture d1 = capture d" "accepted d1 = accepted d"
      "g_running d1 = g_running d"
      by (rule tables_ok_event [OF cfg t])
    have "flow_ok cfg (d1\<lparr>processor := P_Pop\<rparr>)"
      using f P_Event e unfolding flow_ok_def by (simp add: event_of_def event_eta)
    with P_Event pe t1 show ?thesis by (auto simp: run_processor_def daemon_inv_def)
  next
    case P_Pop
    have "flow_ok cfg (d\<lparr>queue := q', processor := P_Event e\<rparr>)"
      if "pktqueue_pop (queue d) = Some (e, q')" for e q'
      using pop_result [OF q that] f P_Pop unfolding flow_ok_def by auto
    moreover have "flow_ok cfg (d\<lparr>processor := P_Tick\<rparr>)"
      using f P_Pop unfolding flow_ok_def by auto
    ultimately show ?thesis using P_Pop t by (auto simp: run_processor_def daemon_inv_def split: option.splits)
  next
    case P_Tick
    obtain f' k l where r: "firewall_tick cfg ipt (fst clk) (fw d) (sys d) = (f', k, l)" by (metis prod_cases3)
    have "flow_ok cfg (d\<lparr>processor := P_Sweep\<rparr>)" using f P_Tick unfolding flow_ok_def by simp
    then have "flow_ok cfg (d\<lparr>fw := f', sys := k, processor := P_Sweep\<rparr>)" by (simp add: flow_ok_def)
    with P_Tick r tables_ok_tick [OF t r] show ?thesis by (auto simp: run_processor_def daemon_inv_def)
  next
    case P_Sweep
    obtain now n2 n3 where clk: "clk = (now, n2, n3)" by (metis prod_cases3)
    obtain cl l where c: "knocker_cleanup_stale cfg n2 (clients d) = Some (cl, l)"
      and t1: "tables_ok cfg ipt k0 (d\<lparr>clients := cl\<rparr>)" by (rule tables_ok_sweep [OF t])
    have "flow_ok cfg (d\<lparr>processor := P_Check\<rparr>)" "flow_ok cfg (d\<lparr>clients := cl, last_cleanup := now, processor := P_Check\<rparr>)"
      using f P_Sweep unfolding flow_ok_def by simp_all
    with P_Sweep c clk t t1 show ?thesis by (auto simp: run_processor_def daemon_inv_def)
  qed (use t f in \<open>auto simp: run_processor_def daemon_inv_def flow_ok_def\<close>)
qed

lemma daemon_step_keeps:
  assumes "valid_config cfg" "daemon_inv cfg ipt k0 d" "daemon_step cfg ipt d d'"
  shows "daemon_inv cfg ipt k0 d'"
  using assms(3)
proof (elim daemon_stepE)
  assume "d' = signal_handler d"
  with assms(2) show ?thesis by (simp add: daemon_inv_def signal_handler_def)
qed (use capture_thread_keeps [OF assms(1,2)] run_processor_keeps [OF assms(1,2)] in blast)+

lemma daemon_reach_keeps:
  assumes cfg: "valid_config cfg"
  shows "daemon_reach cfg ipt d d' \<Longrightarrow> daemon_inv cfg ipt k0 d \<Longrightarrow> daemon_inv cfg ipt k0 d'"
proof (induction rule: daemon_reach.induct)
  case (step d d' d'')
  show ?case by (rule daemon_step_keeps [OF cfg step.IH [OF step.prems] step.hyps(2)])
qed

text \<open>The part of start-up before the sniffer.\<close>

lemma startup_inv:
  assumes up: "daemon_startup cfg ipt env k0 = (True, d, closed, ls)"
  shows "daemon_inv cfg ipt k0 d" and "processor d = P_Check" "capture d = C_Check" "g_running d"
    "\<not> shutting_down (queue d)" "capture_started d" "history d = []"
proof -
  obtain q l1 where q: "pktqueue_init = (q, l1)" by fastforce
  obtain rc1 cl l2 where k: "knocker_init cfg (clients_calloc_ok env) = (rc1, cl, l2)" by (metis prod_cases3)
  obtain rc2 f k1 l3 where i: "firewall_init cfg ipt (grants_calloc_ok env) firewall_start k0 = (rc2, f, k1, l3)"
    by (metis prod_cases4)
  obtain fd ifi cs l4 where n: "sniffer_init cfg (socket_result env) (rcvtimeo_ok env) (nametoindex env) 0 = (fd, ifi, cs, l4)"
    by (metis prod_cases4)
  have rc: "rc1 = 0" "rc2 = 0" and d: "d = \<lparr>g_running = True, queue = q, clients = cl, fw = f, sys = k1, ifindex = ifi,
       sock_fd = fd, capture_started = True, capture = C_Check, processor = P_Check,
       last_cleanup = start_time env, accepted = [], history = []\<rparr>"
    using up by (auto simp: daemon_startup_def Let_def q k i n split: if_splits)
  have cl: "cl = Some (replicate (nat (MAX_CLIENTS cfg)) zero_client)"
    using k rc by (simp add: knocker_init_def split: if_splits)
  have "grants_calloc_ok env" using i rc by (auto simp: firewall_init_def split: if_splits)
  then have "firewall_session cfg ipt [] k0 = Some ((f, k1), [])" using i rc by (simp add: firewall_session_def)
  then have "\<exists>cs ls. firewall_session cfg ipt cs k0 = Some ((f, k1), ls) \<and> (\<forall>t ip. Open t ip \<notin> set cs)"
    by (intro exI [of _ "[]"]) simp
  then have t: "tables_ok cfg ipt k0 d"
    using history_inv_init [of cfg] unfolding tables_ok_def d cl by auto
  have qi: "queue_inv q" "contents q = []" "\<not> shutting_down q"
    using pktqueue_init_inv q by (auto simp: pktqueue_init_def)
  then have "flow_ok cfg d" by (simp add: flow_ok_def d)
  with t show "daemon_inv cfg ipt k0 d" by (simp add: daemon_inv_def)
  show "processor d = P_Check" "capture d = C_Check" "g_running d" "\<not> shutting_down (queue d)"
    "capture_started d" "history d = []"
    using qi by (simp_all add: d)
qed

text \<open>A start-up that failed after the firewall was set up.\<close>

lemma grants_firewall_start [simp]: "grants firewall_start = None"
  by (simp add: firewall_start_def)

lemma firewall_init_failed: "firewall_init cfg ipt ok firewall_start k = (rc, f, k', ls) \<Longrightarrow> rc \<noteq> 0 \<Longrightarrow> grants f = None"
  by (auto simp: firewall_init_def Let_def firewall_start_def split: if_splits prod.splits)

lemma startup_failed:
  assumes up: "daemon_startup cfg ipt env k0 = (False, d, closed, ls)" and fw: "grants (fw d) \<noteq> None"
  shows "firewall_session cfg ipt [] k0 = Some ((fw d, sys d), [])"
    and "socket_result env = Inr fd \<Longrightarrow> 0 \<le> fd \<Longrightarrow> closed @ (if 0 \<le> sock_fd d then [sock_fd d] else []) = [fd]"
proof -
  obtain q l1 where q: "pktqueue_init = (q, l1)" by fastforce
  obtain rc1 cl l2 where k: "knocker_init cfg (clients_calloc_ok env) = (rc1, cl, l2)" by (metis prod_cases3)
  obtain rc2 f k1 l3 where i: "firewall_init cfg ipt (grants_calloc_ok env) firewall_start k0 = (rc2, f, k1, l3)"
    by (metis prod_cases4)
  obtain n ifi cs l4 where n: "sniffer_init cfg (socket_result env) (rcvtimeo_ok env) (nametoindex env) 0 = (n, ifi, cs, l4)"
    by (metis prod_cases4)
  have rc: "rc1 = 0" "rc2 = 0"
    using up fw firewall_init_failed [OF i] by (auto simp: daemon_startup_def Let_def q k i n split: if_splits)
  then have d: "fw d = f" "sys d = k1" "sock_fd d = n" "closed = cs"
    using up by (auto simp: daemon_startup_def Let_def q k i n split: if_splits)
  have "grants_calloc_ok env" using i rc by (auto simp: firewall_init_def split: if_splits)
  then show "firewall_session cfg ipt [] k0 = Some ((fw d, sys d), [])" using i rc d by (simp add: firewall_session_def)
  show "closed @ (if 0 \<le> sock_fd d then [sock_fd d] else []) = [fd]" if "socket_result env = Inr fd" "0 \<le> fd"
    using n that d by (auto simp: sniffer_init_def Let_def split: if_splits)
qed

section \<open>Stopping\<close>

text \<open>A bound on the steps left once \<open>g_running\<close> is false.\<close>

fun capture_rank :: "capture_pc \<Rightarrow> nat" where
  "capture_rank C_Done = 0"
| "capture_rank C_Leave = 1"
| "capture_rank C_Check = 2"
| "capture_rank (C_Push e) = 13"
| "capture_rank C_Sniff = 14"

fun processor_rank :: "processor_pc \<Rightarrow> nat" where
  "processor_rank P_Done = 0"
| "processor_rank P_Check = 1"
| "processor_rank P_Sweep = 2"
| "processor_rank P_Tick = 3"
| "processor_rank P_Pop = 4"
| "processor_rank (P_Event e) = 5"
| "processor_rank P_Wait = 6"

definition steps_left :: "'k daemon \<Rightarrow> nat" where
  "steps_left d = 10 * count (queue d) + capture_rank (capture d) + processor_rank (processor d)"

text \<open>A step of one of the threads.\<close>

definition thread_step :: "config \<Rightarrow> 'k iptables \<Rightarrow> 'k daemon \<Rightarrow> 'k daemon \<Rightarrow> bool" where
  "thread_step cfg ipt d d' \<longleftrightarrow>
     (\<exists>rs now ls. (\<forall>r\<in>set rs. recv_ok r) \<and> capture_thread cfg rs now d = Step d' ls) \<or>
     (\<exists>timedout clk ls. run_processor cfg ipt timedout clk d = Step d' ls)"

lemma push_count: "pktqueue_push now e q = (r, q', ls) \<Longrightarrow> count q' \<le> count q + 1"
  by (auto simp: pktqueue_push_def Let_def split: if_splits)

lemma pop_count: "pktqueue_pop q = Some (e, q') \<Longrightarrow> count q = count q' + 1"
  by (auto simp: pktqueue_pop_def split: if_splits)

lemma capture_steps_left:
  assumes "\<not> g_running d" "capture_thread cfg rs now d = Step d' ls"
  shows "\<not> g_running d' \<and> steps_left d' < steps_left d"
  using assms
  by (auto simp: capture_thread_def steps_left_def pktqueue_shutdown_def Let_def dest!: push_count
      split: capture_pc.splits sniff.splits sniffer_rc.splits prod.splits)

lemma process_event_frame:
  "process_event cfg ipt clk evt d = Some (d', ls) \<Longrightarrow>
   g_running d' = g_running d \<and> queue d' = queue d \<and> capture d' = capture d"
  by (auto simp: process_event_def Let_def split: prod.splits option.splits if_splits)

lemma processor_steps_left:
  assumes "\<not> g_running d" "run_processor cfg ipt timedout clk d = Step d' ls"
  shows "\<not> g_running d' \<and> steps_left d' < steps_left d"
proof (cases "processor d")
  case P_Wait
  have "count q' + (if eo = None then 0 else 1) = count (queue d)"
    if "pktqueue_wait (queue d) (if timedout then [(True, queue d)] else []) = Some (eo, q')" for eo q'
    using wait_result [OF that] pop_count by auto
  with assms P_Wait show ?thesis by (fastforce simp: run_processor_def steps_left_def split: option.splits)
next
  case (P_Event e)
  with assms show ?thesis
    by (auto simp: run_processor_def steps_left_def split: option.splits prod.splits dest!: process_event_frame)
next
  case P_Pop
  with assms show ?thesis
    by (auto simp: run_processor_def steps_left_def split: option.splits dest!: pop_count)
qed (use assms in \<open>auto simp: run_processor_def steps_left_def split: prod.splits option.splits if_splits\<close>)

lemma thread_step_left:
  "\<not> g_running d \<Longrightarrow> thread_step cfg ipt d d' \<Longrightarrow> \<not> g_running d' \<and> steps_left d' < steps_left d"
  unfolding thread_step_def using capture_steps_left processor_steps_left by blast

lemma processor_not_blocked:
  "processor d \<noteq> P_Done \<Longrightarrow> run_processor cfg ipt True clk d \<noteq> Blocked"
  by (auto simp: run_processor_def pktqueue_wait_def split: processor_pc.splits option.splits prod.splits if_splits)

text \<open>A system in which every step taken while \<open>live\<close> uses up some of a finite budget.\<close>

locale draining =
  fixes step :: "'s \<Rightarrow> 's \<Rightarrow> bool"
    and live :: "'s \<Rightarrow> bool"
    and budget :: "'s \<Rightarrow> nat"
  assumes drains: "live s \<Longrightarrow> step s s' \<Longrightarrow> live s' \<and> budget s' < budget s"
begin

lemma bounded_run:
  "live (hd ss) \<Longrightarrow> ss \<noteq> [] \<Longrightarrow> successively step ss \<Longrightarrow> length ss \<le> Suc (budget (hd ss))"
proof (induction ss rule: induct_list012)
  case (3 x y zs)
  have xy: "step x y" and rest: "successively step (y # zs)" using "3.prems"(3) by simp_all
  note d = drains [OF "3.prems"(1) [simplified] xy]
  have "length (y # zs) \<le> Suc (budget (hd (y # zs)))"
    by (rule "3.IH"(2)) (use d rest in simp_all)
  with d show ?case by simp
qed simp_all

lemma live_run: "live (hd ss) \<Longrightarrow> successively step ss \<Longrightarrow> s \<in> set ss \<Longrightarrow> live s"
proof (induction ss rule: induct_list012)
  case (3 x y zs)
  then show ?case using drains [of x y] by auto
qed simp_all

end

definition stopping_state :: "config \<Rightarrow> 'k iptables \<Rightarrow> 'k \<Rightarrow> 'k daemon \<Rightarrow> bool" where
  "stopping_state cfg ipt k0 d \<longleftrightarrow> \<not> g_running d \<and> valid_config cfg \<and> daemon_inv cfg ipt k0 d"

lemma thread_step_step: "thread_step cfg ipt d d' \<Longrightarrow> daemon_step cfg ipt d d'"
  by (auto simp: thread_step_def intro: daemon_step.intros)

interpretation stopping: draining "thread_step cfg ipt" "stopping_state cfg ipt k0" steps_left for cfg ipt k0
  by unfold_locales
    (unfold stopping_state_def, meson thread_step_left thread_step_step daemon_step_keeps)

lemma steps_left_bound:
  assumes "daemon_inv cfg ipt k0 d"
  shows "steps_left d \<le> 2580"
proof -
  have "capture_rank (capture d) \<le> 14" "processor_rank (processor d) \<le> 6"
    by (cases "capture d"; simp) (cases "processor d"; simp)
  then show ?thesis using assms by (simp add: steps_left_def daemon_inv_def flow_ok_def queue_inv_def QUEUE_CAPACITY_def)
qed

text \<open>Neither thread gets stuck: the wait for the queue and the wait for a frame both time out.\<close>

lemma processor_moves:
  assumes "valid_config cfg" "daemon_inv cfg ipt k0 d" "processor d \<noteq> P_Done"
  shows "\<exists>d' ls. run_processor cfg ipt True clk d = Step d' ls"
  using processor_not_blocked [OF assms(3), of cfg ipt clk] run_processor_keeps [OF assms(1,2), of True clk]
  by (cases "run_processor cfg ipt True clk d") auto

lemma capture_moves:
  "capture d \<noteq> C_Done \<Longrightarrow> \<exists>d' ls. capture_thread cfg [Recv_failed EAGAIN] now d = Step d' ls"
  by (cases "capture d") (auto simp: capture_thread_def split: prod.splits)

section \<open>Executable runs\<close>

datatype action = Do_signal | Do_capture "recv list" seconds | Do_process bool "seconds \<times> seconds \<times> seconds"

fun daemon_act :: "config \<Rightarrow> 'k iptables \<Rightarrow> action \<Rightarrow> 'k daemon \<Rightarrow> 'k result" where
  "daemon_act cfg ipt Do_signal d = Step (signal_handler d) []"
| "daemon_act cfg ipt (Do_capture rs now) d = capture_thread cfg rs now d"
| "daemon_act cfg ipt (Do_process timedout clk) d = run_processor cfg ipt timedout clk d"

fun daemon_exec :: "config \<Rightarrow> 'k iptables \<Rightarrow> action list \<Rightarrow> 'k daemon \<Rightarrow> 'k daemon option" where
  "daemon_exec cfg ipt [] d = Some d"
| "daemon_exec cfg ipt (a # as) d = (case daemon_act cfg ipt a d of
     Step d' ls \<Rightarrow> daemon_exec cfg ipt as d'
   | _ \<Rightarrow> None)"

fun action_ok :: "action \<Rightarrow> bool" where
  "action_ok (Do_capture rs now) \<longleftrightarrow> (\<forall>r\<in>set rs. recv_ok r)"
| "action_ok _ \<longleftrightarrow> True"

lemma daemon_act_step: "action_ok a \<Longrightarrow> daemon_act cfg ipt a d = Step d' ls \<Longrightarrow> daemon_step cfg ipt d d'"
  by (cases a) (auto intro: daemon_step.intros)

lemma daemon_exec_reach:
  "daemon_reach cfg ipt d0 d \<Longrightarrow> \<forall>a\<in>set as. action_ok a \<Longrightarrow> daemon_exec cfg ipt as d = Some d' \<Longrightarrow> daemon_reach cfg ipt d0 d'"
proof (induction as arbitrary: d)
  case (Cons a as)
  then obtain d1 ls where "daemon_act cfg ipt a d = Step d1 ls" "daemon_exec cfg ipt as d1 = Some d'"
    by (auto split: result.splits)
  with Cons show ?case by (meson daemon_act_step daemon_reach.step list.set_intros)
qed simp

section \<open>The banner\<close>

text \<open>The sequence written out in full.\<close>

fun arrow_ports :: "port list \<Rightarrow> string" where
  "arrow_ports [] = []"
| "arrow_ports (p # ps) = dec_of_nat (unat p) @ concat (map (\<lambda>q. '' -> '' @ dec_of_nat (unat q)) ps)"

lemma length_dec_port: "length (dec_of_nat (unat (p :: port))) \<le> 5"
  using length_dec_of_nat [of "unat p" 5] unsigned_less [of p, where 'a = nat] by simp

lemma format_ports_rest:
  "length buf + 9 * length ps < buflen \<Longrightarrow> 0 < i \<Longrightarrow>
   format_ports buflen i buf ps = buf @ concat (map (\<lambda>q. '' -> '' @ dec_of_nat (unat q)) ps)"
proof (induction ps arbitrary: i buf)
  case (Cons p ps)
  define s where "s = '' -> '' @ dec_of_nat (unat p)"
  have "length s \<le> 9" using length_dec_port [of p] by (simp add: s_def)
  with Cons.prems have "\<not> buflen - length buf \<le> length s" "length (buf @ s) + 9 * length ps < buflen" by simp_all
  with Cons.IH [of "buf @ s" "Suc i"] Cons.prems(2) show ?case by (simp add: Let_def s_def)
qed simp

lemma format_knock_sequence_full:
  assumes "valid_config cfg"
  shows "format_knock_sequence cfg 160 = arrow_ports (knock_seq cfg)"
proof -
  have l: "length (knock_seq cfg) \<le> 16"
    using assms by (simp add: valid_config_def config_wf_def MAX_KNOCK_SEQ_LEN_def)
  obtain p ps where s: "knock_seq cfg = p # ps"
    using valid_configD(1,5) [OF assms] by (cases "knock_seq cfg") force+
  note d = length_dec_port [of p]
  have "length ps \<le> 15" using l unfolding s by simp
  with d show ?thesis
    unfolding format_knock_sequence_def s by (simp add: Let_def format_ports_rest)
qed

section \<open>Facts for the properties of the whole daemon\<close>

lemma troubled_logged [simp]: "troubled (logged f ls) = troubled ls"
  by (induction ls) (auto simp: logged_def)

lemma capture_thread_no_crash: "\<forall>r\<in>set rs. recv_ok r \<Longrightarrow> capture_thread cfg rs now d \<noteq> Crash"
  using next_knock_no_bad_access [of rs cfg "ifindex d"]
  by (auto simp: capture_thread_def Let_def split: capture_pc.splits sniff.splits sniffer_rc.splits prod.splits)

lemma cleanup_request_inv: "daemon_inv cfg ipt k0 d \<Longrightarrow> daemon_inv cfg ipt k0 (fst (cleanup_request d))"
  by (simp add: cleanup_request_def daemon_inv_def flow_ok_def pktqueue_shutdown_def)

lemma reach_from_startup:
  assumes "valid_config cfg" "daemon_startup cfg ipt env k0 = (True, d0, closed, ls)" "daemon_reach cfg ipt d0 d"
  shows "daemon_inv cfg ipt k0 d"
  by (rule daemon_reach_keeps [OF assms(1,3) startup_inv(1) [OF assms(2)]])

text \<open>The configuration that \<open>main\<close> hands to the rest of the daemon.\<close>

lemma main_front_InrD:
  assumes "main_front prog version args euid files = Inr (cfg, logger, ls)"
  shows "\<exists>opts c l. parse_args prog version args default_options = Inr opts \<and> euid = 0 \<and>
    (\<exists>rc. config_load (opt_config_file opts) (files (opt_config_file opts)) initial_config = (rc, c, l) \<and>
      (opt_config_explicit opts \<longrightarrow> rc = 0)) \<and>
    cfg = (if opt_verbose opts then c\<lparr>LOG_LEVEL := 3\<rparr> else c)"
  using assms by (auto simp: main_front_def Let_def split: sum.splits prod.splits if_splits)

section \<open>Properties\<close>

text \<open>
  The start-up banner.  Unless debug logging is on it does not give the secret away: the text
  is the same for any two configurations that differ only in the ports of the sequence.  With
  debug logging the sequence is shown in full, the 160-byte buffer never cutting it short.
\<close>

theorem banner_secrecy:
  assumes "valid_config cfg"
  shows "if LOG_LEVEL cfg < 3 then print_banner version (cfg\<lparr>KNOCK_SEQUENCE := ps\<rparr>) = print_banner version cfg
         else banner_sequence cfg = arrow_ports (knock_seq cfg)"
  using format_knock_sequence_full [OF assms] by (simp add: print_banner_def banner_sequence_def)

theorem banner_secrecy_witness:
  "valid_config demo_config \<and>
   print_banner ''1.0'' (demo_config\<lparr>KNOCK_SEQUENCE := [1, 2, 3]\<rparr>) = print_banner ''1.0'' demo_config"
  using banner_secrecy [OF demo_config_valid, of "''1.0''" "[1, 2, 3]"] demo_config_valid by (simp add: demo_params)

end
