(* ===== verification/Demo_Run.thy ===== *)
theory Demo_Run
  imports Daemon
begin

text \<open>
  One complete run of the daemon for the witnesses: it starts on a host whose \<open>INPUT\<close> chain drops
  the protected port, three TCP connection attempts from 10.0.0.5 to the knock ports arrive as
  Ethernet frames, and the processor takes them off the queue and opens the firewall.
\<close>

definition demo_env :: boot_env where
  "demo_env = \<lparr>clients_calloc_ok = True, grants_calloc_ok = True, socket_result = Inr 5, rcvtimeo_ok = True,
     nametoindex = (\<lambda>_. 0), thread_ok = True, start_time = 100\<rparr>"

definition demo_booted :: "(ruleset \<times> nat list) daemon" where
  "demo_booted = \<lparr>g_running = True, queue = fst pktqueue_init, clients = Some [zero_client, zero_client],
     fw = \<lparr>grants = Some [zero_grant, zero_grant], g_added_jump = True\<rparr>,
     sys = (demo_rules(KNOCKD_CHAIN \<mapsto> [], ''INPUT'' \<mapsto> [jump_rule, [''-p'', ''tcp'', ''--dport'', ''22'', ''-j'', ''DROP'']]), []),
     ifindex = 0, sock_fd = 5, capture_started = True, capture = C_Check, processor = P_Check, last_cleanup = 100,
     accepted = [], history = []\<rparr>"

definition demo_knock :: "port \<Rightarrow> seconds \<Rightarrow> action list" where
  "demo_knock p t = [Do_capture [] t, Do_capture [demo_recv p] t, Do_capture [] t]"

definition demo_event :: "port \<Rightarrow> knock_event_t" where
  "demo_event p = \<lparr>src_ip = le32 10 0 0 5, dst_port = p\<rparr>"

lemma demo_boot: "\<exists>ls. daemon_startup demo_config sim_iptables demo_env (demo_rules, []) = (True, demo_booted, [], ls)"
proof -
  have "KNOCK_INTERFACE demo_config = []" by (simp add: demo_config_def initial_config_def)
  then show ?thesis
   by (simp add: daemon_startup_def demo_env_def knocker_init_def firewall_eval pktqueue_init_def sniffer_init_def demo_booted_def)
qed

lemma demo_knock_run:
  assumes "p \<in> set (knock_seq demo_config)" "capture d = C_Check" "g_running d" "ifindex d = 0" "queue_inv (queue d)" "count (queue d) < QUEUE_CAPACITY"
  shows "\<exists>q. queue_inv q \<and> contents q = contents (queue d) @ [demo_event p] \<and> count q = Suc (count (queue d)) \<and>
    daemon_exec demo_config ipt (demo_knock p t) d = Some (d\<lparr>queue := q, accepted := accepted d @ [demo_event p]\<rparr>)"
proof -
  obtain q' where q: "pktqueue_push t (demo_event p) (queue d) = (0, q', [])" "queue_inv q'" "contents q' = contents (queue d) @ [demo_event p]"
    using pktqueue_push_room [OF assms(5,6)] by blast
  have "count q' = Suc (count (queue d))" using q(3) length_contents [of q'] by simp
  moreover have "d\<lparr>queue := q', capture := C_Check, accepted := accepted d @ [demo_event p]\<rparr> = d\<lparr>queue := q', accepted := accepted d @ [demo_event p]\<rparr>"
    using assms(2) by (cases d) simp
  ultimately show ?thesis using q assms(2-4) demo_recv_reported [OF assms(1)]
    by (intro exI [of _ q']) (simp add: demo_knock_def capture_thread_def flip: demo_event_def)
qed

definition demo_client :: "nat \<Rightarrow> port \<Rightarrow> bool \<Rightarrow> knock_client_t" where
  "demo_client n p act = \<lparr>c_ip = le32 10 0 0 5, current_step = n, last_knock = 105, last_port = p, c_active = act\<rparr>"

lemma demo_seq: "KNOCK_SEQ_LEN demo_config = 3" "KNOCK_SEQUENCE demo_config ! 0 = 7000"
  "KNOCK_SEQUENCE demo_config ! 1 = 8000" "KNOCK_SEQUENCE demo_config ! 2 = 9000" "KNOCK_WINDOW demo_config = 15"
  by (simp_all add: demo_config_def initial_config_def config_limits)

lemmas knocker_eval = process_locked_def find_client_def alloc_client_def advance_client_def zero_client_def demo_client_def
  demo_params demo_seq KNOCK_DEDUP_WINDOW_def

lemma demo_process:
  "fst (process_locked demo_config 105 105 (le32 10 0 0 5) 7000 [zero_client, zero_client]) = KNOCK_IN_PROGRESS"
  "fst (snd (process_locked demo_config 105 105 (le32 10 0 0 5) 7000 [zero_client, zero_client])) = [demo_client 1 7000 True, zero_client]"
  by (simp_all add: knocker_eval)
lemma demo_process2:
  "fst (process_locked demo_config 105 105 (le32 10 0 0 5) 8000 [demo_client 1 7000 True, zero_client]) = KNOCK_IN_PROGRESS"
  "fst (snd (process_locked demo_config 105 105 (le32 10 0 0 5) 8000 [demo_client 1 7000 True, zero_client])) = [demo_client 2 8000 True, zero_client]"
  using demo_seq(3) by (simp_all add: knocker_eval)
lemma demo_process3:
  "fst (process_locked demo_config 105 105 (le32 10 0 0 5) 9000 [demo_client 2 8000 True, zero_client]) = KNOCK_COMPLETE"
  "fst (snd (process_locked demo_config 105 105 (le32 10 0 0 5) 9000 [demo_client 2 8000 True, zero_client])) = [demo_client 3 9000 False, zero_client]"
  by (simp_all add: knocker_eval)

lemma daemon_exec_append:
  "daemon_exec cfg ipt (as @ bs) d = Option.bind (daemon_exec cfg ipt as d) (daemon_exec cfg ipt bs)"
  by (induction as arbitrary: d) (auto split: result.split)

abbreviation demo_process_step :: action where
  "demo_process_step \<equiv> Do_process False (105, 105, 105)"

text \<open>The run up to the last knock, and the whole run.\<close>

definition demo_before_last :: "action list" where
  "demo_before_last = (demo_knock 7000 100 @ demo_knock 8000 102 @ demo_knock 9000 104) @ replicate 6 demo_process_step"

definition demo_actions :: "action list" where
  "demo_actions = demo_before_last @ [demo_process_step]"

lemma knocker_process_eq:
  "fst (process_locked cfg n m ip p tbl) = r \<Longrightarrow> fst (snd (process_locked cfg n m ip p tbl)) = tbl' \<Longrightarrow>
   \<exists>l. knocker_process cfg n m ip p (Some tbl) = Some (r, Some tbl', l)"
  by (auto simp: knocker_process_def split: prod.splits)

lemma demo_captured:
  obtains q where "queue_inv q" "contents q = [demo_event 7000, demo_event 8000, demo_event 9000]" "count q = 3"
    "daemon_exec demo_config sim_iptables (demo_knock 7000 100 @ demo_knock 8000 102 @ demo_knock 9000 104) demo_booted =
      Some (demo_booted\<lparr>queue := q, accepted := [demo_event 7000, demo_event 8000, demo_event 9000]\<rparr>)"
proof -
  have p: "7000 \<in> set (knock_seq demo_config)" "8000 \<in> set (knock_seq demo_config)" "9000 \<in> set (knock_seq demo_config)"
    by (simp_all add: demo_config_def initial_config_def config_limits)
  have b: "capture demo_booted = C_Check" "g_running demo_booted" "ifindex demo_booted = 0"
    "queue demo_booted = fst pktqueue_init" by (simp_all add: demo_booted_def)
  have c0: "count (fst pktqueue_init) = 0" by (simp add: pktqueue_init_def)
  obtain q1 where q1: "queue_inv q1" "contents q1 = [demo_event 7000]" "count q1 = 1" and
    r1: "daemon_exec demo_config sim_iptables (demo_knock 7000 100) demo_booted =
      Some (demo_booted\<lparr>queue := q1, accepted := [demo_event 7000]\<rparr>)"
    using demo_knock_run [OF p(1) b(1-3), of sim_iptables 100] b(4) pktqueue_init_inv c0
    by (auto simp: QUEUE_CAPACITY_def demo_booted_def)
  obtain q2 where q2: "queue_inv q2" "contents q2 = [demo_event 7000, demo_event 8000]" "count q2 = 2" and
    r2: "daemon_exec demo_config sim_iptables (demo_knock 8000 102) (demo_booted\<lparr>queue := q1, accepted := [demo_event 7000]\<rparr>) =
      Some (demo_booted\<lparr>queue := q2, accepted := [demo_event 7000, demo_event 8000]\<rparr>)"
    using demo_knock_run [OF p(2), of "demo_booted\<lparr>queue := q1, accepted := [demo_event 7000]\<rparr>" sim_iptables 102] b q1
    by (auto simp: QUEUE_CAPACITY_def)
  obtain q3 where q3: "queue_inv q3" "contents q3 = [demo_event 7000, demo_event 8000, demo_event 9000]" "count q3 = 3" and
    r3: "daemon_exec demo_config sim_iptables (demo_knock 9000 104) (demo_booted\<lparr>queue := q2, accepted := [demo_event 7000, demo_event 8000]\<rparr>) =
      Some (demo_booted\<lparr>queue := q3, accepted := [demo_event 7000, demo_event 8000, demo_event 9000]\<rparr>)"
    using demo_knock_run [OF p(3), of "demo_booted\<lparr>queue := q2, accepted := [demo_event 7000, demo_event 8000]\<rparr>" sim_iptables 104] b q2
    by (auto simp: QUEUE_CAPACITY_def)
  from q3 r1 r2 r3 show ?thesis by (intro that [of q3]) (simp_all add: daemon_exec_append)
qed

lemma demo_results:
  obtains l1 l2 l3 where
    "knocker_process demo_config 105 105 (le32 10 0 0 5) 7000 (Some [zero_client, zero_client]) =
       Some (KNOCK_IN_PROGRESS, Some [demo_client 1 7000 True, zero_client], l1)"
    "knocker_process demo_config 105 105 (le32 10 0 0 5) 8000 (Some [demo_client 1 7000 True, zero_client]) =
       Some (KNOCK_IN_PROGRESS, Some [demo_client 2 8000 True, zero_client], l2)"
    "knocker_process demo_config 105 105 (le32 10 0 0 5) 9000 (Some [demo_client 2 8000 True, zero_client]) =
       Some (KNOCK_COMPLETE, Some [demo_client 3 9000 False, zero_client], l3)"
  using knocker_process_eq [OF demo_process] knocker_process_eq [OF demo_process2] knocker_process_eq [OF demo_process3]
  by blast

text \<open>The state in which the last knock is about to be processed.\<close>

definition demo_last :: "pktqueue \<Rightarrow> (ruleset \<times> nat list) daemon" where
  "demo_last q = demo_booted\<lparr>queue := q, clients := Some [demo_client 2 8000 True, zero_client],
     processor := P_Event (demo_event 9000), accepted := [demo_event 7000, demo_event 8000, demo_event 9000],
     history := [(105, le32 10 0 0 5, 8000, KNOCK_IN_PROGRESS), (105, le32 10 0 0 5, 7000, KNOCK_IN_PROGRESS)]\<rparr>"

lemma demo_popped:
  assumes "queue_inv q3" "contents q3 = [demo_event 7000, demo_event 8000, demo_event 9000]" "count q3 = 3"
  obtains q4 q5 q6 where "pktqueue_wait q3 [] = Some (Some (demo_event 7000), q4)"
    "pktqueue_pop q4 = Some (demo_event 8000, q5)" "pktqueue_pop q5 = Some (demo_event 9000, q6)"
proof -
  obtain q4 where q4: "pktqueue_pop q3 = Some (demo_event 7000, q4)" "queue_inv q4" "contents q4 = [demo_event 8000, demo_event 9000]"
    using pktqueue_pop_some [OF assms(1)] assms by auto
  have c4: "count q4 = 2" using q4(3) length_contents [of q4] by simp
  obtain q5 where q5: "pktqueue_pop q4 = Some (demo_event 8000, q5)" "queue_inv q5" "contents q5 = [demo_event 9000]"
    using pktqueue_pop_some [OF q4(2)] q4 c4 by auto
  have c5: "count q5 = 1" using q5(3) length_contents [of q5] by simp
  obtain q6 where q6: "pktqueue_pop q5 = Some (demo_event 9000, q6)"
    using pktqueue_pop_some [OF q5(2)] q5 c5 by auto
  have "pktqueue_wait q3 [] = Some (Some (demo_event 7000), q4)" using assms(3) q4(1) by (simp add: pktqueue_wait_def)
  with q5 q6 that show ?thesis by blast
qed

lemma demo_processing:
  assumes "queue_inv q3" "contents q3 = [demo_event 7000, demo_event 8000, demo_event 9000]" "count q3 = 3"
  obtains q6 where "daemon_exec demo_config sim_iptables (replicate 6 demo_process_step)
    (demo_booted\<lparr>queue := q3, accepted := [demo_event 7000, demo_event 8000, demo_event 9000]\<rparr>) = Some (demo_last q6)"
proof -
  obtain q4 q5 q6 where q: "pktqueue_wait q3 [] = Some (Some (demo_event 7000), q4)"
    "pktqueue_pop q4 = Some (demo_event 8000, q5)" "pktqueue_pop q5 = Some (demo_event 9000, q6)"
    by (rule demo_popped [OF assms])
  obtain l1 l2 l3 where k: "knocker_process demo_config 105 105 (le32 10 0 0 5) 7000 (Some [zero_client, zero_client]) =
       Some (KNOCK_IN_PROGRESS, Some [demo_client 1 7000 True, zero_client], l1)"
    "knocker_process demo_config 105 105 (le32 10 0 0 5) 8000 (Some [demo_client 1 7000 True, zero_client]) =
       Some (KNOCK_IN_PROGRESS, Some [demo_client 2 8000 True, zero_client], l2)"
    by (rule demo_results)
  show ?thesis
    by (rule that [of q6])
      (simp add: numeral_eq_Suc run_processor_def process_event_def demo_booted_def demo_event_def demo_last_def
        q [unfolded demo_event_def] k [unfolded One_nat_def])
qed

lemma demo_before_last_run:
  obtains q where "daemon_exec demo_config sim_iptables demo_before_last demo_booted = Some (demo_last q)"
proof -
  obtain q3 where q3: "queue_inv q3" "contents q3 = [demo_event 7000, demo_event 8000, demo_event 9000]" "count q3 = 3" and
    r: "daemon_exec demo_config sim_iptables (demo_knock 7000 100 @ demo_knock 8000 102 @ demo_knock 9000 104) demo_booted =
      Some (demo_booted\<lparr>queue := q3, accepted := [demo_event 7000, demo_event 8000, demo_event 9000]\<rparr>)"
    by (rule demo_captured)
  obtain q6 where "daemon_exec demo_config sim_iptables (replicate 6 demo_process_step)
    (demo_booted\<lparr>queue := q3, accepted := [demo_event 7000, demo_event 8000, demo_event 9000]\<rparr>) = Some (demo_last q6)"
    by (rule demo_processing [OF q3])
  with r that show ?thesis by (simp add: demo_before_last_def daemon_exec_append [of _ _ "_ @ _ @ _"] del: append_assoc)
qed

lemma demo_run:
  "\<exists>d. daemon_exec demo_config sim_iptables demo_actions demo_booted = Some d \<and>
     knockd_rules (fst (sys d)) = [grant_rule demo_config (le32 10 0 0 5)]"
proof -
  obtain q where r: "daemon_exec demo_config sim_iptables demo_before_last demo_booted = Some (demo_last q)"
    by (rule demo_before_last_run)
  obtain l1 l2 l3 where k: "knocker_process demo_config 105 105 (le32 10 0 0 5) 9000 (Some [demo_client 2 8000 True, zero_client]) =
       Some (KNOCK_COMPLETE, Some [demo_client 3 9000 False, zero_client], l3)"
    by (rule demo_results)
  have len: "\<not> INET_ADDRSTRLEN \<le> length (inet_ntop (le32 10 0 0 5))" using length_inet_ntop by (simp add: not_le)
  show ?thesis
    unfolding demo_actions_def daemon_exec_append r bind.bind_lunit
    by (simp add: run_processor_def process_event_def demo_last_def demo_booted_def demo_event_def k len firewall_eval knockd_rules_def)
qed

lemma demo_actions_ok: "\<forall>a\<in>set demo_actions. action_ok a"
  by (auto simp: demo_actions_def demo_before_last_def demo_knock_def demo_recv_def)

end
