(* ===== verification/Service.thy ===== *)
theory Service
  imports Demo_Run
begin

text \<open>
  The daemon as its users see it: which calls of the state machine a run of the daemon makes, and
  that a client who follows the sequence is let in.
\<close>

section \<open>The calls a run makes\<close>

text \<open>What the processor thread asks of the state machine in one action, and in a whole run.\<close>

fun action_calls :: "action \<Rightarrow> 'k daemon \<Rightarrow> knocker_call list" where
  "action_calls (Do_process timedout (now, now_alloc, now_open)) d = (case processor d of
     P_Event e \<Rightarrow> [Knock now now_alloc (src_ip e) (dst_port e)]
   | P_Sweep \<Rightarrow> if now - last_cleanup d \<ge> STALE_SCAN_INTERVAL then [Cleanup now_alloc] else []
   | _ \<Rightarrow> [])"
| "action_calls _ d = []"

fun daemon_calls :: "config \<Rightarrow> 'k iptables \<Rightarrow> action list \<Rightarrow> 'k daemon \<Rightarrow> knocker_call list" where
  "daemon_calls cfg ipt [] d = []"
| "daemon_calls cfg ipt (a # as) d = (case daemon_act cfg ipt a d of
     Step d' ls \<Rightarrow> action_calls a d @ daemon_calls cfg ipt as d'
   | _ \<Rightarrow> [])"

lemma knocker_run_append:
  "knocker_run cfg (cs @ cs') s = Option.bind (knocker_run cfg cs s) (knocker_run cfg cs')"
  by (induction cfg cs s rule: knocker_run.induct) (auto split: option.split)

lemma action_calls_run:
  assumes "daemon_act cfg ipt a d = Step d' ls"
  shows "knocker_run cfg (action_calls a d) (history d, clients d) = Some (history d', clients d')"
proof (cases a)
  case (Do_process timedout clk)
  obtain now n2 n3 where "clk = (now, n2, n3)" by (metis prod_cases3)
  with assms Do_process show ?thesis
    by (auto simp: run_processor_def process_event_def Let_def
        split: processor_pc.splits option.splits prod.splits if_splits)
qed (use assms in \<open>auto simp: signal_handler_def capture_thread_def Let_def
      split: capture_pc.splits sniff.splits sniffer_rc.splits prod.splits\<close>)

lemma daemon_calls_run:
  "daemon_exec cfg ipt as d = Some d' \<Longrightarrow>
   knocker_run cfg (daemon_calls cfg ipt as d) (history d, clients d) = Some (history d', clients d')"
proof (induction as arbitrary: d)
  case (Cons a as)
  then obtain d1 ls where "daemon_act cfg ipt a d = Step d1 ls" "daemon_exec cfg ipt as d1 = Some d'"
    by (auto split: result.splits)
  with Cons.IH [OF this(2)] action_calls_run [OF this(1)] show ?case by (simp add: knocker_run_append)
qed simp

lemma daemon_calls_append:
  "daemon_calls cfg ipt (as @ bs) d = daemon_calls cfg ipt as d @
     (case daemon_exec cfg ipt as d of None \<Rightarrow> [] | Some d' \<Rightarrow> daemon_calls cfg ipt bs d')"
  by (induction as arbitrary: d) (auto split: result.split)

lemma capture_calls: "daemon_calls cfg ipt (demo_knock p t) d = []"
  by (auto simp: demo_knock_def split: result.split)

section \<open>Letting a client in\<close>

text \<open>The event that completes the sequence opens the firewall, or the failure is logged.\<close>

lemma completing_event:
  assumes ok: "iptables_ok ipt rules" and cfg: "valid_config cfg" and t: "tables_ok cfg ipt k0 d"
    and ev: "processor d = P_Event e"
    and comp: "knocker_process cfg now na (src_ip e) (dst_port e) (clients d) = Some (KNOCK_COMPLETE, cl, l1)"
  shows "\<exists>d' ls. run_processor cfg ipt timedout (now, na, no) d = Step d' ls \<and>
    history d' = (now, src_ip e, dst_port e, KNOCK_COMPLETE) # history d \<and>
    (open_for (fw d') (src_ip e) = Some (no + ACCESS_TIMEOUT cfg) \<and>
       grant_rule cfg (src_ip e) \<in> set (knockd_rules (rules (sys d'))) \<or>
     (LEVEL_ERROR, Completed_but_not_opened (src_ip e)) \<in> set ls)"
proof -
  let ?ip = "src_ip e"
  obtain cs l0 where ses: "firewall_session cfg ipt cs k0 = Some ((fw d, sys d), l0)"
    using t unfolding tables_ok_def by blast
  obtain rc f k l2 where o: "firewall_open cfg ipt no ?ip (fw d) (sys d) = (rc, f, k, l2)" by (metis prod_cases4)
  let ?d = "d\<lparr>clients := cl, history := (now, ?ip, dst_port e, KNOCK_COMPLETE) # history d, fw := f, sys := k, processor := P_Pop\<rparr>"
  obtain ls where st: "run_processor cfg ipt timedout (now, na, no) d = Step ?d ls"
    and ls: "rc < 0 \<Longrightarrow> (LEVEL_ERROR, Completed_but_not_opened ?ip) \<in> set ls"
    using ev comp o length_inet_ntop [of ?ip] by (simp add: run_processor_def process_event_def not_le)
  have "firewall_do cfg ipt (Open no ?ip) (fw d, sys d) = ((f, k), l2)" by (simp add: o)
  from firewall_session_snoc [OF ses this] obtain l3
    where ses': "firewall_session cfg ipt (cs @ [Open no ?ip]) k0 = Some ((f, k), l3)" by blast
  obtain gs where gs: "grants (fw d) = Some gs" and gi: "grants_inv cfg gs" by (rule session_table [OF ok ses])
  note eff = firewall_open_effect [OF ok gi gs o]
  show ?thesis
  proof (cases "rc < 0")
    case True
    with st ls show ?thesis by (intro exI [of _ ?d] exI [of _ ls]) simp
  next
    case False
    then have opn: "open_for f ?ip = Some (no + ACCESS_TIMEOUT cfg)" using eff by (auto split: if_splits)
    with session_agrees [OF ok ses', of ?ip] st show ?thesis by (intro exI [of _ ?d] exI [of _ ls]) simp
  qed
qed

section \<open>Properties\<close>

text \<open>
  C2.  Whoever knocks correctly gets in.  The daemon is in any reachable state in which an address
  has no entry and the client table has room for one.  In whatever way its threads are scheduled
  from then on and whatever else arrives, if the calls the processor makes contain that address's
  whole sequence in order within the window (with knocks of others, retransmits and sweeps in
  between), then processing the last knock answers \<open>KNOCK_COMPLETE\<close>, and the address has a grant
  for the access time and its rule in the chain, unless the failure to open is logged as an error.
\<close>

theorem knocking_opens_port:
  assumes ok: "iptables_ok ipt rules" and cfg: "valid_config cfg"
    and up: "daemon_startup cfg ipt env k0 = (True, d0, closed, l0)" and reach: "daemon_reach cfg ipt d0 d"
    and new: "clients d = Some tbl" "abs_table tbl ip = None" "\<not> table_full cfg now_alloc tbl"
    and run: "\<forall>a\<in>set as. action_ok a" "daemon_exec cfg ipt as d = Some d1" "processor d1 = P_Event e"
    and calls: "daemon_calls cfg ipt as d @ [Knock t ta (src_ip e) (dst_port e)] =
        Knock now now_alloc ip (hd (knock_seq cfg)) # calls"
    and rest: "follows cfg ip 1 now calls"
  shows "\<exists>d2 ls. run_processor cfg ipt timedout (t, ta, topen) d1 = Step d2 ls \<and>
    history d2 = (t, ip, dst_port e, KNOCK_COMPLETE) # history d1 \<and>
    (open_for (fw d2) ip = Some (topen + ACCESS_TIMEOUT cfg) \<and> grant_rule cfg ip \<in> set (knockd_rules (rules (sys d2))) \<or>
     (LEVEL_ERROR, Completed_but_not_opened ip) \<in> set ls)"
proof -
  have reach1: "daemon_reach cfg ipt d0 d1" by (rule daemon_exec_reach [OF reach run(1,2)])
  have t1: "tables_ok cfg ipt k0 d1" and h: "history_inv cfg (history d) tbl"
    using reach_from_startup [OF cfg up reach1] reach_from_startup [OF cfg up reach] new(1)
    by (auto simp: daemon_inv_def tables_ok_def)
  have "table_inv cfg tbl" using h by (simp add: history_inv_def)
  from attempt_completes [OF cfg this new(2,3) rest, of "history d"] obtain t' p h' tbl'
    where fin: "knocker_run cfg (daemon_calls cfg ipt as d @ [Knock t ta (src_ip e) (dst_port e)]) (history d, clients d) =
      Some ((t', ip, p, KNOCK_COMPLETE) # h', Some tbl')"
    unfolding calls new(1) by blast
  obtain l1 where "knocker_process cfg t ta (src_ip e) (dst_port e) (clients d1) = Some (KNOCK_COMPLETE, Some tbl', l1)"
    and ip: "src_ip e = ip"
    using fin daemon_calls_run [OF run(2)] by (auto simp: knocker_run_append split: option.splits)
  from completing_event [OF ok cfg t1 run(3) this(1)] show ?thesis unfolding ip .
qed

lemma demo_calls:
  "daemon_calls demo_config sim_iptables demo_before_last demo_booted =
     [Knock 105 105 (le32 10 0 0 5) 7000, Knock 105 105 (le32 10 0 0 5) 8000]"
proof -
  obtain q3 where q3: "queue_inv q3" "contents q3 = [demo_event 7000, demo_event 8000, demo_event 9000]" "count q3 = 3" and
    r: "daemon_exec demo_config sim_iptables (demo_knock 7000 100 @ demo_knock 8000 102 @ demo_knock 9000 104) demo_booted =
      Some (demo_booted\<lparr>queue := q3, accepted := [demo_event 7000, demo_event 8000, demo_event 9000]\<rparr>)"
    by (rule demo_captured)
  obtain q4 q5 q6 where q: "pktqueue_wait q3 [] = Some (Some (demo_event 7000), q4)"
    "pktqueue_pop q4 = Some (demo_event 8000, q5)" "pktqueue_pop q5 = Some (demo_event 9000, q6)"
    by (rule demo_popped [OF q3])
  obtain l1 l2 l3 where k: "knocker_process demo_config 105 105 (le32 10 0 0 5) 7000 (Some [zero_client, zero_client]) =
       Some (KNOCK_IN_PROGRESS, Some [demo_client 1 7000 True, zero_client], l1)"
    "knocker_process demo_config 105 105 (le32 10 0 0 5) 8000 (Some [demo_client 1 7000 True, zero_client]) =
       Some (KNOCK_IN_PROGRESS, Some [demo_client 2 8000 True, zero_client], l2)"
    by (rule demo_results)
  have "daemon_calls demo_config sim_iptables (demo_knock 7000 100 @ demo_knock 8000 102 @ demo_knock 9000 104) demo_booted = []"
    by (simp add: daemon_calls_append capture_calls split: option.split)
  then have "daemon_calls demo_config sim_iptables demo_before_last demo_booted =
      daemon_calls demo_config sim_iptables (replicate 6 demo_process_step)
        (demo_booted\<lparr>queue := q3, accepted := [demo_event 7000, demo_event 8000, demo_event 9000]\<rparr>)"
    unfolding demo_before_last_def daemon_calls_append [of _ _ "_ @ _ @ _"] r by simp
  also have "\<dots> = [Knock 105 105 (le32 10 0 0 5) 7000, Knock 105 105 (le32 10 0 0 5) 8000]"
    by (simp add: numeral_eq_Suc run_processor_def process_event_def demo_booted_def demo_event_def
        q [unfolded demo_event_def] k [unfolded One_nat_def])
  finally show ?thesis .
qed

theorem knocking_opens_port_witness:
  "\<exists>d1 d2 ls. daemon_exec demo_config sim_iptables demo_before_last demo_booted = Some d1 \<and>
     run_processor demo_config sim_iptables False (105, 105, 105) d1 = Step d2 ls \<and>
     hd (history d2) = (105, le32 10 0 0 5, 9000, KNOCK_COMPLETE)"
proof -
  let ?ip = "le32 10 0 0 5"
  obtain ls where boot: "daemon_startup demo_config sim_iptables demo_env (demo_rules, []) = (True, demo_booted, [], ls)"
    using demo_boot by blast
  obtain q where run: "daemon_exec demo_config sim_iptables demo_before_last demo_booted = Some (demo_last q)"
    by (rule demo_before_last_run)
  have seq: "knock_seq demo_config = [7000, 8000, 9000]" by (simp add: demo_config_def initial_config_def config_limits)
  have ev: "processor (demo_last q) = P_Event (demo_event 9000)" by (simp add: demo_last_def)
  have as: "\<forall>a\<in>set demo_before_last. action_ok a" using demo_actions_ok by (simp add: demo_actions_def)
  have tbl: "clients demo_booted = Some demo_table" "abs_table demo_table ?ip = None" "\<not> table_full demo_config 105 demo_table"
    by (simp_all add: demo_booted_def demo_table_def numeral_2_eq_2 abs_table_def table_full_def zero_client_def slot_map_None_iff)
  have calls: "daemon_calls demo_config sim_iptables demo_before_last demo_booted @
      [Knock 105 105 (src_ip (demo_event 9000)) (dst_port (demo_event 9000))] =
      Knock 105 105 ?ip (hd (knock_seq demo_config)) # [Knock 105 105 ?ip 8000, Knock 105 105 ?ip 9000]"
    by (simp add: demo_calls seq demo_event_def)
  have "follows demo_config ?ip 1 105 [Knock 105 105 ?ip 8000, Knock 105 105 ?ip 9000]"
    by (simp add: seq demo_seq(5) KNOCK_DEDUP_WINDOW_def)
  from knocking_opens_port [OF sim_iptables_ok demo_config_valid boot daemon_reach.start tbl as run ev calls this, of False 105]
  show ?thesis unfolding run by (fastforce simp: demo_event_def)
qed

end
