(* ===== verification/Log_Text.thy ===== *)
theory Log_Text
  imports Demo_Run
begin

text \<open>
  What the log says.  The components log messages as values; here are the texts that the \<open>printf\<close>
  formats of the sources give for them, in UTF-8.  \<open>err\<close> is what \<open>strerror(errno)\<close> returns at the call
  and \<open>version\<close> is \<open>KNOCKD_VERSION\<close>.
\<close>

section \<open>Formats\<close>

text \<open>A dash between words, and the dash of a range.\<close>

definition dash :: string where "dash = '' '' @ em_dash @ '' ''"
definition en_dash :: string where "en_dash = [CHR 0xE2, CHR 0x80, CHR 0x93]"

text \<open>\<open>%04o\<close>\<close>

fun oct_of_nat :: "nat \<Rightarrow> string" where
  "oct_of_nat n = (if n < 8 then [digit_char n] else oct_of_nat (n div 8) @ [digit_char (n mod 8)])"

declare oct_of_nat.simps [simp del]

definition oct4 :: "nat \<Rightarrow> string" where
  "oct4 n = (let s = oct_of_nat n in replicate (4 - length s) (CHR ''0'') @ s)"

abbreviation d_nat :: "nat \<Rightarrow> string" where "d_nat \<equiv> dec_of_nat"
abbreviation d_int :: "int \<Rightarrow> string" where "d_int \<equiv> dec_of_int"
abbreviation d_port :: "port \<Rightarrow> string" where "d_port p \<equiv> dec_of_nat (unat p)"

section \<open>The texts\<close>

fun config_text :: "string \<Rightarrow> config_msg \<Rightarrow> string" where
  "config_text err (Not_a_number key val) =
     ''Config: '' @ [CHR 0x27] @ key @ [CHR 0x27] @ '' value '' @ [CHR 0x22] @ val @ [CHR 0x22] @ '' is not a number'' @ dash @ ''ignored''"
| "config_text err (Int_out_of_range key val) =
     ''Config: '' @ [CHR 0x27] @ key @ [CHR 0x27] @ '' value '' @ [CHR 0x22] @ val @ [CHR 0x22] @ '' is out of range'' @ dash @ ''ignored''"
| "config_text err Sequence_too_long =
     ''Config: '' @ [CHR 0x27] @ ''sequence'' @ [CHR 0x27] @ '' is too long to parse'' @ dash @ ''rejected''"
| "config_text err Sequence_too_many_ports =
     ''Config: '' @ [CHR 0x27] @ ''sequence'' @ [CHR 0x27] @ '' has more than '' @ d_nat MAX_KNOCK_SEQ_LEN @ '' ports'' @ dash @ ''rejected''"
| "config_text err (Sequence_bad_entry tok) =
     ''Config: '' @ [CHR 0x27] @ ''sequence'' @ [CHR 0x27] @ '' entry '' @ [CHR 0x22] @ tok @ [CHR 0x22] @
     '' is not a port in 1'' @ en_dash @ ''65535'' @ dash @ ''sequence rejected''"
| "config_text err Sequence_empty =
     ''Config: '' @ [CHR 0x27] @ ''sequence'' @ [CHR 0x27] @ '' is empty'' @ dash @ ''rejected''"
| "config_text err (Interface_too_long val) =
     ''Config: '' @ [CHR 0x27] @ ''interface'' @ [CHR 0x27] @ '' name '' @ [CHR 0x22] @ val @ [CHR 0x22] @ '' is too long'' @ dash @ ''ignored''"
| "config_text err (Readable_by_others filepath mode) =
     ''Config: '' @ filepath @ '' is readable or writable by users other than its owner (mode '' @ oct4 mode @ '')'' @
     dash @ ''it holds the knock sequence. Run: chmod 600 '' @ filepath"
| "config_text err (Sequence_length_bad n) =
     ''Config: '' @ [CHR 0x27] @ ''sequence'' @ [CHR 0x27] @ '' must have 2'' @ en_dash @ d_nat MAX_KNOCK_SEQ_LEN @
     '' ports (got '' @ d_nat n @ '')'' @ dash @ ''using the default sequence''"
| "config_text err (Sequence_zero_port i) =
     ''Config: knock port '' @ d_nat i @ '' is 0'' @ dash @ ''using the default sequence''"
| "config_text err (Sequence_repeats p i j) =
     ''Config: '' @ [CHR 0x27] @ ''sequence'' @ [CHR 0x27] @ '' repeats port '' @ d_port p @ '' at positions '' @ d_nat i @
     '' and '' @ d_nat j @ '', which can never be completed'' @ dash @ ''using the default sequence''"
| "config_text err (Port_out_of_range p) =
     ''Config: '' @ [CHR 0x27] @ ''port'' @ [CHR 0x27] @ '' '' @ d_int p @ '' is out of range (1'' @ en_dash @ ''65535)'' @
     dash @ ''using '' @ d_int DEFAULT_PROTECTED_PORT"
| "config_text err (Port_is_knock_port p i) =
     ''Config: the protected port '' @ d_int p @ '' is also knock port '' @ d_nat i @
     ''. Connecting to the protected port will count as a knock'' @ dash @ ''pick a sequence that does not include it.''"
| "config_text err (Timeout_not_positive t) =
     ''Config: '' @ [CHR 0x27] @ ''timeout'' @ [CHR 0x27] @ '' must be greater than 0 (got '' @ d_int t @ '')'' @
     dash @ ''using '' @ d_int DEFAULT_ACCESS_TIMEOUT @ ''s''"
| "config_text err (Timeout_over_an_hour t) =
     ''Config: '' @ [CHR 0x27] @ ''timeout'' @ [CHR 0x27] @ '' of '' @ d_int t @
     ''s keeps the port open for over an hour after each knock'' @ dash @ ''keeping the value, but check that it is deliberate''"
| "config_text err (Window_not_positive w) =
     ''Config: '' @ [CHR 0x27] @ ''window'' @ [CHR 0x27] @ '' must be greater than 0 (got '' @ d_int w @ '')'' @
     dash @ ''using '' @ d_int DEFAULT_KNOCK_WINDOW @ ''s''"
| "config_text err (Max_clients_bad n) =
     ''Config: '' @ [CHR 0x27] @ ''max_clients'' @ [CHR 0x27] @ '' must be 1'' @ en_dash @ d_int MAX_SANE_CLIENTS @
     '' (got '' @ d_int n @ '')'' @ dash @ ''using '' @ d_int DEFAULT_MAX_CLIENTS"
| "config_text err (Log_level_bad n) =
     ''Config: '' @ [CHR 0x27] @ ''log_level'' @ [CHR 0x27] @ '' must be 0'' @ en_dash @ ''3 (got '' @ d_int n @ '')'' @
     dash @ ''using '' @ d_int DEFAULT_LOG_LEVEL"
| "config_text err Configuration_validated = ''Configuration validated''"
| "config_text err (Config.Could_not_open filepath) =
     ''Could not open '' @ filepath @ '' ('' @ err @ '')'' @ dash @
     ''falling back to the built-in defaults, including the published default knock sequence''"
| "config_text err (Line_without_equals ptr) =
     ''Config: ignoring line without '' @ [CHR 0x27] @ ''='' @ [CHR 0x27] @ '': '' @ ptr"
| "config_text err (Unknown_key key filepath) =
     ''Config: unknown key '' @ [CHR 0x27] @ key @ [CHR 0x27] @ '' in '' @ filepath @ dash @ ''ignored''"
| "config_text err (Read_error filepath) = ''Error reading '' @ filepath @ '': '' @ err"
| "config_text err (Configuration_loaded filepath) = ''Configuration loaded from '' @ filepath"

fun queue_text :: "queue_msg \<Rightarrow> string" where
  "queue_text (Queue_initialized n) = ''Packet queue initialized (capacity '' @ d_nat n @ '')''"
| "queue_text Queue_destroyed = ''Packet queue destroyed''"
| "queue_text (Queue_full_dropped n) = ''Packet queue full'' @ dash @ ''dropped '' @ d_nat (unat n) @ '' knock event(s)''"

text \<open>\<open>ip_to_str\<close> of \<open>knocker.c\<close>, which has a question mark for an address it cannot format.\<close>

definition ip_to_str_log :: "ipv4 \<Rightarrow> string" where
  "ip_to_str_log ip = (if length (inet_ntop ip) \<ge> INET_ADDRSTRLEN then ''?'' else inet_ntop ip)"

fun knocker_text :: "knocker_msg \<Rightarrow> string" where
  "knocker_text (Reusing_expired_entry ip) =
     ''Client table full'' @ dash @ ''reusing the expired entry for '' @ ip_to_str_log ip"
| "knocker_text (Does_not_start_sequence ip p) =
     ip_to_str_log ip @ '' knocked port '' @ d_port p @ '', which does not start the sequence'' @ dash @ ''ignored''"
| "knocker_text (Client_table_full ip) =
     ''Client table is full of sequences in progress'' @ dash @ ''ignoring the knock from '' @ ip_to_str_log ip"
| "knocker_text (Ignored_as_retransmit ip p) =
     ip_to_str_log ip @ '' repeated port '' @ d_port p @ '' within '' @ d_int KNOCK_DEDUP_WINDOW @ ''s'' @ dash @
     ''ignored as a retransmit''"
| "knocker_text (Gap_starting_over ip w) =
     ip_to_str_log ip @ '' left more than '' @ d_int w @ ''s between knocks'' @ dash @ ''starting over''"
| "knocker_text (At_step ip k n) = ip_to_str_log ip @ '' is at step '' @ d_nat k @ '' of '' @ d_nat n"
| "knocker_text (Restarted_at_first_step ip n) =
     ip_to_str_log ip @ '' knocked out of order'' @ dash @ ''restarted at step 1 of '' @ d_nat n"
| "knocker_text (Progress_discarded ip p) =
     ip_to_str_log ip @ '' knocked port '' @ d_port p @ '' out of order'' @ dash @ ''progress discarded''"
| "knocker_text (Client_table_alloc_failed n) = ''Could not allocate a client table for '' @ d_int n @ '' clients''"
| "knocker_text (State_machine_ready n) = ''Knock state machine ready ('' @ d_int n @ '' client slots)''"
| "knocker_text (Dropping_stale_entry ip) = ''Dropping the stale entry for '' @ ip_to_str_log ip"
| "knocker_text (Dropped_stale_entries n) = ''Dropped '' @ d_nat n @ '' stale client entries''"

fun firewall_text :: "string \<Rightarrow> firewall_msg \<Rightarrow> string" where
  "firewall_text err Inet_ntop_failed = ''inet_ntop() failed: '' @ err"
| "firewall_text err (Running cmd) = ''Running: '' @ cmd"
| "firewall_text err Fork_error = ''fork() failed: '' @ err"
| "firewall_text err Waitpid_error = ''waitpid() failed: '' @ err"
| "firewall_text err Could_not_execute = ''Could not execute '' @ IPTABLES_PATH @ dash @ ''is iptables installed there?''"
| "firewall_text err (Exited_with n) = IPTABLES_PATH @ '' exited with status '' @ d_nat n"
| "firewall_text err (Killed_by s) = IPTABLES_PATH @ '' was killed by signal '' @ d_nat s"
| "firewall_text err (Grant_table_alloc_failed n) = ''Could not allocate a grant table for '' @ d_int n @ '' clients''"
| "firewall_text err Chain_setup_failed =
     ''Could not create or flush the '' @ KNOCKD_CHAIN @ '' chain. Check that '' @ IPTABLES_PATH @ '' works and that we are root.''"
| "firewall_text err Jump_insert_failed = ''Could not insert the INPUT jump to '' @ KNOCKD_CHAIN"
| "firewall_text err Jump_inserted = ''Inserted INPUT -> '' @ KNOCKD_CHAIN @ '' at position 1''"
| "firewall_text err Jump_left_in_place = ''INPUT already jumps to '' @ KNOCKD_CHAIN @ dash @ ''leaving it in place''"
| "firewall_text err Firewall_ready = ''Firewall ready'' @ dash @ ''grants go into the '' @ KNOCKD_CHAIN @ '' chain''"
| "firewall_text err Open_before_init = ''firewall_open() before firewall_init()''"
| "firewall_text err (Grant_slots_in_use n ip) =
     ''All '' @ d_int n @ '' grant slots are in use'' @ dash @ ''refusing access for '' @ inet_ntop ip"
| "firewall_text err (Access_extended ip t) =
     ''Access for '' @ inet_ntop ip @ '' extended'' @ dash @ ''now expires in '' @ d_int t @ ''s''"
| "firewall_text err (Firewall.Could_not_open p ip) = ''Could not open port '' @ d_int p @ '' for '' @ inet_ntop ip"
| "firewall_text err (Port_open p ip t) =
     ''Port '' @ d_int p @ '' is open for '' @ inet_ntop ip @ dash @ ''closes in '' @ d_int t @ ''s''"
| "firewall_text err (No_grant_to_close ip) = ''No grant to close for '' @ inet_ntop ip"
| "firewall_text err (Could_not_remove_rule ip) =
     ''Could not remove the rule for '' @ inet_ntop ip @ dash @ ''check '' @ IPTABLES_PATH @ '' -S '' @ KNOCKD_CHAIN"
| "firewall_text err (Port_closed p ip) = ''Port '' @ d_int p @ '' is closed for '' @ inet_ntop ip"
| "firewall_text err (Access_expired ip p) =
     ''Access has expired for '' @ inet_ntop ip @ dash @ ''closing port '' @ d_int p"
| "firewall_text err (Could_not_remove_expired_rule ip) =
     ''Could not remove the expired rule for '' @ inet_ntop ip @ dash @ ''check '' @ IPTABLES_PATH @ '' -S '' @ KNOCKD_CHAIN"
| "firewall_text err Chain_flush_failed =
     ''Could not flush the '' @ KNOCKD_CHAIN @ '' chain'' @ dash @ ''grants may still be in place. Check '' @
     IPTABLES_PATH @ '' -S '' @ KNOCKD_CHAIN"
| "firewall_text err Jump_removal_failed = ''Could not remove the INPUT jump to '' @ KNOCKD_CHAIN"
| "firewall_text err Removed_firewall_rules = ''Removed the firewall rules knockd added''"

fun sniffer_text :: "string \<Rightarrow> sniffer_msg \<Rightarrow> string" where
  "sniffer_text err Raw_socket_failed = ''Failed to create raw socket: '' @ err"
| "sniffer_text err Raw_sockets_need_root = ''Raw sockets need root or CAP_NET_RAW. Try sudo.''"
| "sniffer_text err No_receive_timeout =
     ''Could not set a receive timeout on the raw socket ('' @ err @ '')'' @ dash @ ''shutdown may take longer''"
| "sniffer_text err (Unknown_interface name) =
     ''Unknown interface '' @ [CHR 0x27] @ name @ [CHR 0x27] @ '': '' @ err"
| "sniffer_text err (Capturing_on name) = ''Capturing on '' @ name @ '' only''"
| "sniffer_text err Capturing_everywhere = ''Capturing on every interface''"
| "sniffer_text err (Raw_socket_created fd) = ''Raw socket created (fd '' @ d_int fd @ '')''"
| "sniffer_text err Recvfrom_failed = ''recvfrom() failed: '' @ err"
| "sniffer_text err (Knock_seen proto ip p) = proto @ '' from '' @ inet_ntop ip @ '' to port '' @ d_port p"
| "sniffer_text err Raw_socket_closed = ''Raw socket closed''"

fun daemon_text :: "string \<Rightarrow> string \<Rightarrow> daemon_msg \<Rightarrow> string" where
  "daemon_text version err (Config_log m) = config_text err m"
| "daemon_text version err (Queue_log m) = queue_text m"
| "daemon_text version err (Knocker_log m) = knocker_text m"
| "daemon_text version err (Firewall_log m) = firewall_text err m"
| "daemon_text version err (Sniffer_log m) = sniffer_text err m"
| "daemon_text version err (Refusing_default_sequence f) =
     ''Could not read the config file given with -c ('' @ f @ '')'' @ dash @ ''refusing to start with the default knock sequence''"
| "daemon_text version err Debug_logging_enabled = ''Debug logging enabled (-v overrides log_level)''"
| "daemon_text version err Packet_capture_failed = ''Packet capture failed'' @ dash @ ''stopping the daemon''"
| "daemon_text version err Address_not_formatted =
     ''A sequence completed but its address could not be formatted'' @ dash @ ''ignoring it''"
| "daemon_text version err (Completed_sequence ip) = inet_ntop ip @ '' completed the knock sequence''"
| "daemon_text version err (Completed_but_not_opened ip) =
     inet_ntop ip @ '' completed the sequence but the firewall could not be opened''"
| "daemon_text version err Could_not_start_capture = ''Could not start packet capture''"
| "daemon_text version err Could_not_start_thread = ''Could not start the capture thread''"
| "daemon_text version err (Daemon_running n p) =
     ''knockd '' @ version @ '' is running'' @ dash @ d_nat n @ '' knock ports, protecting port '' @ d_int p"
| "daemon_text version err Shutting_down = ''Shutting down''"
| "daemon_text version err Daemon_stopped = ''knockd stopped''"

text \<open>What a log of messages puts on stderr or into syslog, with the error text and the time of each.\<close>

definition emitted ::
  "int \<Rightarrow> logger_state \<Rightarrow> string \<Rightarrow> string \<Rightarrow> (nat \<times> nat \<times> nat) option \<Rightarrow> daemon_msg logs \<Rightarrow> log_effect list" where
  "emitted level st version err tm ls =
     concat (map (\<lambda>(l, m). log_msg level st tm l (daemon_text version err m)) ls)"

section \<open>Lengths\<close>

lemma length_d_nat: "n \<le> 2147483648 \<Longrightarrow> length (dec_of_nat n) \<le> 10"
  by (rule length_dec_of_nat) simp_all

lemma length_d_int: "\<bar>n\<bar> \<le> 2147483648 \<Longrightarrow> length (dec_of_int n) \<le> 11"
  using length_d_nat [of "nat n"] length_d_nat [of "nat (- n)"] by (simp add: dec_of_int_def abs_if nat_le_iff split: if_splits)

lemma length_d_counter: "length (dec_of_nat (unat (n :: 64 word))) \<le> 20"
  using length_dec_of_nat [of "unat n" 20] unsigned_less [of n, where 'a = nat] by simp

lemma length_ntop: "length (inet_ntop ip) \<le> 15"
  using length_inet_ntop [of ip] by (simp add: INET_ADDRSTRLEN_def)

lemma ip_to_str_log_eq [simp]: "ip_to_str_log ip = inet_ntop ip"
  using length_inet_ntop [of ip] by (simp add: ip_to_str_log_def)

lemma length_oct_of_nat: "n < 8 ^ k \<Longrightarrow> 0 < k \<Longrightarrow> length (oct_of_nat n) \<le> k"
proof (induction n arbitrary: k rule: oct_of_nat.induct)
  case (1 n)
  show ?case
  proof (cases "n < 8")
    case True
    with "1.prems"(2) show ?thesis by (subst oct_of_nat.simps) simp
  next
    case False
    then obtain j where k: "k = Suc j" "0 < j" using "1.prems" by (cases k; cases "k - 1") auto
    with "1.prems"(1) have "n div 8 < 8 ^ j" by (simp add: less_mult_imp_div_less mult.commute)
    from "1.IH" [OF False this k(2)] False k(1) show ?thesis by (subst oct_of_nat.simps) simp
  qed
qed

lemma length_oct4: "n \<le> 2147483648 \<Longrightarrow> length (oct4 n) \<le> 11"
  using length_oct_of_nat [of n 11] by (simp add: oct4_def Let_def)

text \<open>The strings from outside that a message quotes, and the numbers in it.\<close>

fun quoted :: "daemon_msg \<Rightarrow> string list" where
  "quoted (Config_log (Not_a_number key val)) = [key, val]"
| "quoted (Config_log (Int_out_of_range key val)) = [key, val]"
| "quoted (Config_log (Sequence_bad_entry tok)) = [tok]"
| "quoted (Config_log (Interface_too_long val)) = [val]"
| "quoted (Config_log (Readable_by_others f m)) = [f]"
| "quoted (Config_log (Config.Could_not_open f)) = [f]"
| "quoted (Config_log (Line_without_equals l)) = [l]"
| "quoted (Config_log (Unknown_key key f)) = [key, f]"
| "quoted (Config_log (Read_error f)) = [f]"
| "quoted (Config_log (Configuration_loaded f)) = [f]"
| "quoted (Firewall_log (Running cmd)) = [cmd]"
| "quoted (Sniffer_log (Unknown_interface n)) = [n]"
| "quoted (Sniffer_log (Capturing_on n)) = [n]"
| "quoted (Sniffer_log (Knock_seen n ip p)) = [n]"
| "quoted (Refusing_default_sequence f) = [f]"
| "quoted _ = []"

fun numbers :: "daemon_msg \<Rightarrow> int list" where
  "numbers (Config_log (Readable_by_others f m)) = [int m]"
| "numbers (Config_log (Sequence_length_bad n)) = [int n]"
| "numbers (Config_log (Sequence_zero_port n)) = [int n]"
| "numbers (Config_log (Sequence_repeats p i j)) = [int i, int j]"
| "numbers (Config_log (Port_out_of_range n)) = [n]"
| "numbers (Config_log (Port_is_knock_port n i)) = [n, int i]"
| "numbers (Config_log (Timeout_not_positive n)) = [n]"
| "numbers (Config_log (Timeout_over_an_hour n)) = [n]"
| "numbers (Config_log (Window_not_positive n)) = [n]"
| "numbers (Config_log (Max_clients_bad n)) = [n]"
| "numbers (Config_log (Log_level_bad n)) = [n]"
| "numbers (Queue_log (Queue_initialized n)) = [int n]"
| "numbers (Knocker_log (Gap_starting_over ip w)) = [w]"
| "numbers (Knocker_log (At_step ip k n)) = [int k, int n]"
| "numbers (Knocker_log (Restarted_at_first_step ip n)) = [int n]"
| "numbers (Knocker_log (Client_table_alloc_failed n)) = [n]"
| "numbers (Knocker_log (State_machine_ready n)) = [n]"
| "numbers (Knocker_log (Dropped_stale_entries n)) = [int n]"
| "numbers (Firewall_log (Exited_with n)) = [int n]"
| "numbers (Firewall_log (Killed_by n)) = [int n]"
| "numbers (Firewall_log (Grant_table_alloc_failed n)) = [n]"
| "numbers (Firewall_log (Grant_slots_in_use n ip)) = [n]"
| "numbers (Firewall_log (Access_extended ip t)) = [t]"
| "numbers (Firewall_log (Firewall.Could_not_open p ip)) = [p]"
| "numbers (Firewall_log (Port_open p ip t)) = [p, t]"
| "numbers (Firewall_log (Port_closed p ip)) = [p]"
| "numbers (Firewall_log (Access_expired ip p)) = [p]"
| "numbers (Sniffer_log (Raw_socket_created fd)) = [fd]"
| "numbers (Daemon_running n p) = [int n, p]"
| "numbers _ = []"

fun addresses :: "daemon_msg \<Rightarrow> ipv4 list" where
  "addresses (Knocker_log (Reusing_expired_entry ip)) = [ip]"
| "addresses (Knocker_log (Does_not_start_sequence ip p)) = [ip]"
| "addresses (Knocker_log (Client_table_full ip)) = [ip]"
| "addresses (Knocker_log (Ignored_as_retransmit ip p)) = [ip]"
| "addresses (Knocker_log (Gap_starting_over ip w)) = [ip]"
| "addresses (Knocker_log (At_step ip k n)) = [ip]"
| "addresses (Knocker_log (Restarted_at_first_step ip n)) = [ip]"
| "addresses (Knocker_log (Progress_discarded ip p)) = [ip]"
| "addresses (Knocker_log (Dropping_stale_entry ip)) = [ip]"
| "addresses (Firewall_log (Grant_slots_in_use n ip)) = [ip]"
| "addresses (Firewall_log (Access_extended ip t)) = [ip]"
| "addresses (Firewall_log (Firewall.Could_not_open p ip)) = [ip]"
| "addresses (Firewall_log (Port_open p ip t)) = [ip]"
| "addresses (Firewall_log (No_grant_to_close ip)) = [ip]"
| "addresses (Firewall_log (Could_not_remove_rule ip)) = [ip]"
| "addresses (Firewall_log (Port_closed p ip)) = [ip]"
| "addresses (Firewall_log (Access_expired ip p)) = [ip]"
| "addresses (Firewall_log (Could_not_remove_expired_rule ip)) = [ip]"
| "addresses (Sniffer_log (Knock_seen n ip p)) = [ip]"
| "addresses (Completed_sequence ip) = [ip]"
| "addresses (Completed_but_not_opened ip) = [ip]"
| "addresses _ = []"

fun knock_ports :: "daemon_msg \<Rightarrow> port list" where
  "knock_ports (Config_log (Sequence_repeats p i j)) = [p]"
| "knock_ports (Knocker_log (Does_not_start_sequence ip p)) = [p]"
| "knock_ports (Knocker_log (Ignored_as_retransmit ip p)) = [p]"
| "knock_ports (Knocker_log (Progress_discarded ip p)) = [p]"
| "knock_ports (Sniffer_log (Knock_seen n ip p)) = [p]"
| "knock_ports _ = []"

text \<open>The quoted strings are at most as long as a configuration line and the numbers fit a C \<open>int\<close>.\<close>

definition modest :: "daemon_msg \<Rightarrow> bool" where
  "modest m \<longleftrightarrow> (\<forall>s\<in>set (quoted m). length s \<le> 255) \<and> (\<forall>n\<in>set (numbers m). \<bar>n\<bar> \<le> 2147483648)"

lemma modest_lengths:
  assumes "modest m"
  shows "\<forall>s\<in>set (quoted m). length s \<le> 255"
    and "\<forall>n\<in>set (numbers m). length (dec_of_int n) \<le> 11 \<and> length (dec_of_nat (nat n)) \<le> 10 \<and> length (oct4 (nat n)) \<le> 11"
    and "\<forall>ip\<in>set (addresses m). length (inet_ntop ip) \<le> 15"
    and "\<forall>p\<in>set (knock_ports m). length (dec_of_nat (unat p)) \<le> 5"
  using assms length_ntop length_dec_port
  by (auto simp: modest_def intro!: length_d_int length_d_nat length_oct4)

lemmas text_lengths = dash_def em_dash_def en_dash_def IPTABLES_PATH_def KNOCKD_CHAIN_def

lemma defaults_length:
  "length (dec_of_int DEFAULT_PROTECTED_PORT) \<le> 11" "length (dec_of_int DEFAULT_ACCESS_TIMEOUT) \<le> 11"
  "length (dec_of_int DEFAULT_KNOCK_WINDOW) \<le> 11" "length (dec_of_int DEFAULT_MAX_CLIENTS) \<le> 11"
  "length (dec_of_int DEFAULT_LOG_LEVEL) \<le> 11" "length (dec_of_int MAX_SANE_CLIENTS) \<le> 11"
  "length (dec_of_nat MAX_KNOCK_SEQ_LEN) \<le> 10" "length (dec_of_int KNOCK_DEDUP_WINDOW) \<le> 11"
  by (intro length_d_int length_d_nat; simp add: config_limits KNOCK_DEDUP_WINDOW_def)+

lemma config_text_fits:
  assumes "modest (Config_log m)" "length err \<le> 255"
  shows "length (config_text err m) \<le> 895"
  using modest_lengths [OF assms(1)] defaults_length assms(2) by (cases m) (simp_all add: text_lengths)

lemma knocker_text_fits:
  assumes "modest (Knocker_log m)"
  shows "length (knocker_text m) \<le> 895"
  using modest_lengths [OF assms(1)] defaults_length by (cases m) (simp_all add: text_lengths)

lemma queue_text_fits:
  assumes "modest (Queue_log m)"
  shows "length (queue_text m) \<le> 895"
proof (cases m)
  case (Queue_full_dropped n)
  with length_d_counter [of n] show ?thesis by (simp add: text_lengths)
qed (use modest_lengths [OF assms(1)] in simp_all)

lemma firewall_text_fits:
  assumes "modest (Firewall_log m)" "length err \<le> 255"
  shows "length (firewall_text err m) \<le> 895"
  using modest_lengths [OF assms(1)] assms(2) by (cases m) (simp_all add: text_lengths)

lemma sniffer_text_fits:
  assumes "modest (Sniffer_log m)" "length err \<le> 255"
  shows "length (sniffer_text err m) \<le> 895"
  using modest_lengths [OF assms(1)] assms(2) by (cases m) (simp_all add: text_lengths)

lemma daemon_text_fits:
  assumes "modest m" "length err \<le> 255" "length version \<le> 255"
  shows "length (daemon_text version err m) \<le> 895"
  using modest_lengths [OF assms(1)] assms config_text_fits knocker_text_fits queue_text_fits firewall_text_fits sniffer_text_fits
  by (cases m) (simp_all add: text_lengths)

section \<open>Lines\<close>

text \<open>No string that the message quotes holds a newline.\<close>

definition one_line :: "daemon_msg \<Rightarrow> bool" where
  "one_line m \<longleftrightarrow> (\<forall>s\<in>set (quoted m). LF \<notin> set s)"

lemma digit_not_LF: "isdigit c \<Longrightarrow> c \<noteq> LF"
  by (auto simp: isdigit_def LF_def)

lemma dec_no_LF [simp]: "LF \<notin> set (dec_of_nat n)" "LF \<notin> set (dec_of_int i)"
  using dec_of_nat_digits digit_not_LF by (auto simp: dec_of_int_def) (simp_all add: LF_def)

lemma ntop_no_LF [simp]: "LF \<notin> set (inet_ntop ip)" "LF \<notin> set (ip_to_str_log ip)"
  by (simp_all add: inet_ntop_def ip_to_str_log_def) (simp_all add: LF_def)

lemma oct_digits: "c \<in> set (oct_of_nat n) \<Longrightarrow> isdigit c"
proof (induction n rule: oct_of_nat.induct)
  case (1 n)
  then show ?case by (cases "n < 8") (auto simp: oct_of_nat.simps [of n])
qed

lemma oct4_no_LF [simp]: "LF \<notin> set (oct4 n)"
  using oct_digits [of LF n] digit_not_LF by (auto simp: oct4_def Let_def) (simp_all add: LF_def)

lemma prefix_no_LF: "LF \<notin> set (''[knockd '' @ timebuf tm @ '' '' @ level_tag l @ ''] '')"
proof -
  have "LF \<notin> set (two_digits n)" for n
    using digit_not_LF [of "digit_char (n div 10 mod 10)"] digit_not_LF [of "digit_char (n mod 10)"] by (auto simp: two_digits_def)
  then have "LF \<notin> set (timebuf tm)" by (cases tm rule: timebuf.cases) (auto simp: LF_def)
  then show ?thesis by (cases l) (auto simp: LF_def)
qed

lemma literal_no_LF: "LF \<noteq> Char b0 b1 b2 b3 b4 b5 b6 b7 \<longleftrightarrow> \<not> (\<not> b0 \<and> b1 \<and> \<not> b2 \<and> b3 \<and> \<not> b4 \<and> \<not> b5 \<and> \<not> b6 \<and> \<not> b7)"
  by (auto simp: LF_def)

lemma config_text_line:
  "one_line (Config_log m) \<Longrightarrow> LF \<notin> set err \<Longrightarrow> LF \<notin> set (config_text err m)"
  by (cases m) (simp_all add: one_line_def literal_no_LF text_lengths)

lemma knocker_text_line: "LF \<notin> set (knocker_text m)"
  by (cases m) (simp_all add: literal_no_LF text_lengths)

lemma queue_text_line: "LF \<notin> set (queue_text m)"
  by (cases m) (simp_all add: literal_no_LF text_lengths)

lemma firewall_text_line:
  "one_line (Firewall_log m) \<Longrightarrow> LF \<notin> set err \<Longrightarrow> LF \<notin> set (firewall_text err m)"
  by (cases m) (simp_all add: one_line_def literal_no_LF text_lengths)

lemma sniffer_text_line:
  "one_line (Sniffer_log m) \<Longrightarrow> LF \<notin> set err \<Longrightarrow> LF \<notin> set (sniffer_text err m)"
  by (cases m) (simp_all add: one_line_def literal_no_LF text_lengths)

lemma daemon_text_line:
  assumes "one_line m" "LF \<notin> set err" "LF \<notin> set version"
  shows "LF \<notin> set (daemon_text version err m)"
  using assms config_text_line knocker_text_line queue_text_line firewall_text_line sniffer_text_line
  by (cases m) (simp_all add: literal_no_LF text_lengths, simp_all add: one_line_def)

lemma emitted_whole:
  assumes "modest m" and "length err \<le> 255" and "length version \<le> 255" and "level_int l \<le> level" and "\<not> g_use_syslog st"
  shows "emitted level st version err tm [(l, m)] =
    [Fputs_stderr ((''[knockd '' @ timebuf tm @ '' '' @ level_tag l @ ''] '' @ daemon_text version err m) @ [LF])]"
proof -
  note fits = daemon_text_fits [OF assms(1-3)]
  have "snprintf_store LOG_MSG_MAX (daemon_text version err m) = daemon_text version err m"
    using fits by (intro snprintf_store_fits) (simp add: LOG_MSG_MAX_def)
  moreover have "snprintf_store LOG_LINE_MAX (''[knockd '' @ timebuf tm @ '' '' @ level_tag l @ ''] '' @ daemon_text version err m @ [LF]) =
      ''[knockd '' @ timebuf tm @ '' '' @ level_tag l @ ''] '' @ daemon_text version err m @ [LF]"
    using fits by (intro snprintf_store_fits) (simp add: LOG_LINE_MAX_def)
  ultimately show ?thesis using assms(4,5) by (simp add: emitted_def log_msg_def Let_def)
qed

section \<open>Where the knock ports appear\<close>

text \<open>The message with every knock port in it replaced.\<close>

fun rename_ports :: "(port \<Rightarrow> port) \<Rightarrow> daemon_msg \<Rightarrow> daemon_msg" where
  "rename_ports f (Config_log (Sequence_repeats p i j)) = Config_log (Sequence_repeats (f p) i j)"
| "rename_ports f (Knocker_log (Does_not_start_sequence ip p)) = Knocker_log (Does_not_start_sequence ip (f p))"
| "rename_ports f (Knocker_log (Ignored_as_retransmit ip p)) = Knocker_log (Ignored_as_retransmit ip (f p))"
| "rename_ports f (Knocker_log (Progress_discarded ip p)) = Knocker_log (Progress_discarded ip (f p))"
| "rename_ports f (Sniffer_log (Knock_seen n ip p)) = Sniffer_log (Knock_seen n ip (f p))"
| "rename_ports f m = m"

lemma rename_ports_id: "knock_ports m = [] \<Longrightarrow> rename_ports f m = m"
  by (induction f m rule: rename_ports.induct) simp_all

abbreviation rename_log :: "(port \<Rightarrow> port) \<Rightarrow> daemon_msg logs \<Rightarrow> daemon_msg logs" where
  "rename_log f ls \<equiv> map (\<lambda>(l, m). (l, rename_ports f m)) ls"

definition discreet :: "daemon_msg logs \<Rightarrow> bool" where
  "discreet ls \<longleftrightarrow> (\<forall>(l, m)\<in>set ls. knock_ports m \<noteq> [] \<longrightarrow> l = LEVEL_DEBUG)"

lemma discreet_append [simp]: "discreet (a @ b) \<longleftrightarrow> discreet a \<and> discreet b"
  and discreet_Nil [simp]: "discreet []"
  and discreet_Cons [simp]: "discreet ((l, m) # ls) \<longleftrightarrow> (knock_ports m \<noteq> [] \<longrightarrow> l = LEVEL_DEBUG) \<and> discreet ls"
  by (auto simp: discreet_def)

lemma discreet_logged:
  "discreet (logged Firewall_log ls)" "discreet (logged Queue_log ls')"
  "(\<And>l m. (l, m) \<in> set lk \<Longrightarrow> mentions_port m \<Longrightarrow> l = LEVEL_DEBUG) \<Longrightarrow> discreet (logged Knocker_log lk)"
proof -
  have "knock_ports (Knocker_log m) \<noteq> [] \<longleftrightarrow> mentions_port m" for m by (cases m) simp_all
  then show "(\<And>l m. (l, m) \<in> set lk \<Longrightarrow> mentions_port m \<Longrightarrow> l = LEVEL_DEBUG) \<Longrightarrow> discreet (logged Knocker_log lk)"
    by (auto simp: discreet_def logged_def)
qed (auto simp: discreet_def logged_def)

lemma sniffer_discreet: "sniffer_next_knock cfg ifi rs = Returned rc rest ls \<Longrightarrow> discreet (logged Sniffer_log ls)"
  by (induction cfg ifi rs rule: sniffer_next_knock.induct)
    (auto simp: logged_def split: if_splits option.splits verdict.splits)

lemma knocker_discreet:
  "knocker_process cfg now na ip p cl = Some (r, cl', ls) \<Longrightarrow> discreet (logged Knocker_log ls)"
  "knocker_cleanup_stale cfg now cl = Some (cl', ls) \<Longrightarrow> discreet (logged Knocker_log ls)"
  by (rule discreet_logged(3); auto simp: knocker_process_def knocker_cleanup_stale_def Let_def
      split: option.splits prod.splits if_splits dest: process_locked_log)+

lemma capture_discreet: "capture_thread cfg rs now d = Step d' ls \<Longrightarrow> discreet ls"
  by (auto simp: capture_thread_def Let_def discreet_logged dest!: sniffer_discreet
      split: capture_pc.splits sniff.splits sniffer_rc.splits prod.splits)

lemma processor_discreet: "run_processor cfg ipt timedout clk d = Step d' ls \<Longrightarrow> discreet ls"
  by (auto simp: run_processor_def process_event_def Let_def discreet_logged dest!: knocker_discreet
      split: processor_pc.splits option.splits prod.splits if_splits)

lemma log_msg_renamed:
  assumes "knock_ports m \<noteq> [] \<longrightarrow> l = LEVEL_DEBUG" "level \<le> 2"
  shows "log_msg level st tm l (daemon_text version err (rename_ports f m)) = log_msg level st tm l (daemon_text version err m)"
  using assms by (cases "knock_ports m = []") (simp_all add: rename_ports_id log_msg_def)

lemma emitted_renamed:
  assumes "discreet ls" "level \<le> 2"
  shows "emitted level st version err tm (rename_log f ls) = emitted level st version err tm ls"
  using assms by (induction ls) (auto simp: emitted_def log_msg_renamed)

section \<open>Properties\<close>

text \<open>
  The log keeps the sequence secret while the daemon runs.  Below debug level the bytes that
  any step of either thread writes to the log are the same as if every knock port in its messages
  were replaced by another.
\<close>

theorem log_hides_ports:
  assumes "capture_thread cfg rs now d = Step d' ls \<or> run_processor cfg ipt timedout clk d = Step d' ls"
    and "LOG_LEVEL cfg \<le> 2"
  shows "emitted (LOG_LEVEL cfg) st version err tm ls =
    emitted (LOG_LEVEL cfg) st version err tm (map (\<lambda>(l, m). (l, rename_ports f m)) ls)"
  using assms capture_discreet processor_discreet emitted_renamed by metis

theorem log_hides_ports_witness:
  "\<exists>d' ls. run_processor demo_config sim_iptables False (100, 100, 100) (demo_booted\<lparr>processor := P_Event (demo_event 8000)\<rparr>) = Step d' ls \<and>
     ls = [(LEVEL_DEBUG, Knocker_log (Does_not_start_sequence (le32 10 0 0 5) 8000))] \<and>
     emitted (LOG_LEVEL demo_config) \<lparr>g_use_syslog = False\<rparr> ''1.0'' [] None ls =
       emitted (LOG_LEVEL demo_config) \<lparr>g_use_syslog = False\<rparr> ''1.0'' [] None
         [(LEVEL_DEBUG, Knocker_log (Does_not_start_sequence (le32 10 0 0 5) 0))]"
proof -
  let ?d = "demo_booted\<lparr>processor := P_Event (demo_event 8000)\<rparr>"
  let ?ls = "[(LEVEL_DEBUG, Knocker_log (Does_not_start_sequence (le32 10 0 0 5) 8000))]"
  obtain d' where st: "run_processor demo_config sim_iptables False (100, 100, 100) ?d = Step d' ?ls"
    by (simp add: run_processor_def process_event_def knocker_process_def demo_booted_def demo_event_def knocker_eval logged_def)
  have "LOG_LEVEL demo_config \<le> 2" by (simp add: demo_config_def initial_config_def config_limits)
  from log_hides_ports [OF disjI2 [OF st] this, of "\<lparr>g_use_syslog = False\<rparr>" "''1.0''" "[]" None "\<lambda>_. 0"] st show ?thesis by simp
qed

text \<open>
  C13.  No message is cut short, and none but a quoted newline breaks the line.  If the strings a
  message quotes are at most as long as a configuration line and its numbers fit a C \<open>int\<close>, its text
  fits the 896-byte buffer, and one write takes the prefix, the whole text and the newline to stderr.
  If moreover neither those strings nor the error text and the version hold a newline, the one at
  the end is the only one: the write is exactly one complete line.
\<close>

theorem log_messages_fit:
  assumes "modest m" and "length err \<le> 255" and "length version \<le> 255" and "level_int l \<le> level" and "\<not> g_use_syslog st"
  shows "\<exists>text. text = ''[knockd '' @ timebuf tm @ '' '' @ level_tag l @ ''] '' @ daemon_text version err m \<and>
    emitted level st version err tm [(l, m)] = [Fputs_stderr (text @ [LF])] \<and>
    (one_line m \<and> LF \<notin> set err \<and> LF \<notin> set version \<longrightarrow> LF \<notin> set text)"
proof -
  have "LF \<notin> set (''[knockd '' @ timebuf tm @ '' '' @ level_tag l @ ''] '' @ daemon_text version err m)"
    if "one_line m \<and> LF \<notin> set err \<and> LF \<notin> set version"
    using daemon_text_line [of m err version] that prefix_no_LF [of tm l] by simp
  with emitted_whole [OF assms, of tm] show ?thesis by simp
qed

theorem log_messages_fit_witness:
  "\<exists>text. emitted 2 \<lparr>g_use_syslog = False\<rparr> ''1.0'' [] None [(LEVEL_INFO, Firewall_log (Port_open 22 (le32 10 0 0 5) 30))] =
      [Fputs_stderr (text @ [LF])] \<and> LF \<notin> set text \<and>
    text = ''[knockd --:--:-- INFO ] Port '' @ dec_of_int 22 @ '' is open for '' @ inet_ntop (le32 10 0 0 5) @ '' '' @ em_dash @
       '' closes in '' @ dec_of_int 30 @ ''s''"
proof -
  let ?m = "Firewall_log (Port_open 22 (le32 10 0 0 5) 30)"
  have "modest ?m" by (simp add: modest_def)
  moreover have "one_line ?m" by (simp add: one_line_def)
  moreover have "LF \<notin> set ''1.0''" by (simp add: LF_def)
  ultimately show ?thesis
    using log_messages_fit [of ?m "[]" "''1.0''" LEVEL_INFO 2 "\<lparr>g_use_syslog = False\<rparr>" None] by (simp add: dash_def)
qed

text \<open>
  The exception.  A line of the file that has text but no equals sign is quoted together with the
  newline \<open>fgets\<close> left in the buffer, so that the one write carries two newlines: the line and an
  empty one.
\<close>

theorem unparsed_line_is_two_lines:
  assumes "ptr = dropWhile is_blank buf" and "ptr \<noteq> []" and "hd ptr \<noteq> CHR ''#''" and "set buf \<inter> {LF, CR, NUL, CHR ''=''} = {}"
    and "length buf \<le> 254" and "length err \<le> 255" and "length version \<le> 255" and "1 \<le> level" and "\<not> g_use_syslog st"
  shows "config_line filepath c (buf @ [LF]) = (c, [(LEVEL_WARN, Line_without_equals (ptr @ [LF]))]) \<and>
    (\<exists>text. emitted level st version err tm [(LEVEL_WARN, Config_log (Line_without_equals (ptr @ [LF])))] =
      [Fputs_stderr (text @ [LF, LF])])"
proof
  have ne: "\<exists>x\<in>set buf. \<not> is_blank x" using assms(1,2) by (auto simp: dropWhile_eq_Nil_conv)
  then have drop: "dropWhile is_blank (buf @ [LF]) = ptr @ [LF]" using assms(1) by (auto simp: dropWhile_append1)
  have sub: "set ptr \<subseteq> set buf" using assms(1) by (simp add: set_dropWhileD subsetI)
  have cs: "cstr (buf @ [LF]) = buf @ [LF]"
    using assms(4) special_chars_distinct(6) by (auto simp: cstr_def takeWhile_eq_all_conv)
  have "CHR ''='' \<notin> set (ptr @ [LF])" using sub assms(4) special_chars_distinct(2) by auto
  then have "strchr (ptr @ [LF]) (CHR ''='') = None" by (metis strchr_None_iff)
  moreover have "hd (ptr @ [LF]) \<notin> {CHR ''#'', LF, CR}" using assms(2-4) sub by (cases ptr) auto
  ultimately show "config_line filepath c (buf @ [LF]) = (c, [(LEVEL_WARN, Line_without_equals (ptr @ [LF]))])"
    by (simp add: config_line_def Let_def cs drop)
  have "length ptr \<le> 254" using assms(1,5) length_dropWhile_le [of is_blank buf] by simp
  then have "modest (Config_log (Line_without_equals (ptr @ [LF])))" by (simp add: modest_def)
  from emitted_whole [OF this assms(6,7) _ assms(9), of LEVEL_WARN level tm] assms(8)
  have "emitted level st version err tm [(LEVEL_WARN, Config_log (Line_without_equals (ptr @ [LF])))] =
    [Fputs_stderr ((''[knockd '' @ timebuf tm @ '' '' @ level_tag LEVEL_WARN @ ''] '' @
       ''Config: ignoring line without '' @ [CHR 0x27] @ ''='' @ [CHR 0x27] @ '': '' @ ptr) @ [LF, LF])]" by simp
  then show "\<exists>text. emitted level st version err tm [(LEVEL_WARN, Config_log (Line_without_equals (ptr @ [LF])))] =
      [Fputs_stderr (text @ [LF, LF])]" by (rule exI)
qed

theorem unparsed_line_is_two_lines_witness:
  "\<exists>text. config_line ''knockd.conf'' initial_config (''port 22'' @ [LF]) =
      (initial_config, [(LEVEL_WARN, Line_without_equals (''port 22'' @ [LF]))]) \<and>
    emitted 2 \<lparr>g_use_syslog = False\<rparr> ''1.0'' [] None [(LEVEL_WARN, Config_log (Line_without_equals (''port 22'' @ [LF])))] =
      [Fputs_stderr (text @ [LF, LF])]"
  using unparsed_line_is_two_lines [of "''port 22''" "''port 22''" "[]" "''1.0''" 2 "\<lparr>g_use_syslog = False\<rparr>" "''knockd.conf''" initial_config None]
  by (simp add: is_blank_def TAB_def LF_def CR_def NUL_def)

end
