(* ===== verification/Program.thy ===== *)
theory Program
  imports Log_Text Service
begin

text \<open>
  The process: \<open>main\<close> statement by statement from its arguments to its exit status, the two threads,
  the dispositions of the signals, and everything written to stdout, stderr and syslog.  It is an
  executable model of the program as the operating system sees it.
\<close>

section \<open>Output\<close>

text \<open>A write of \<open>main\<close> itself, or an effect of the logger.\<close>

datatype written = Printf string | Fprintf_stderr string | Logger log_effect

fun main_print :: "main_output \<Rightarrow> written list" where
  "main_print (Out_usage s) = [Printf s]"
| "main_print (Out_version v) = [Printf (''knockd '' @ v @ [LF])]"
| "main_print (Err_needs_path a) = [Fprintf_stderr (''Error: '' @ a @ '' needs a file path.'' @ [LF])]"
| "main_print (Err_unknown_option a) =
     [Fprintf_stderr (''Error: unknown option '' @ [CHR 0x27] @ a @ [CHR 0x27] @ ''.'' @ [LF])]"
| "main_print (Err_needs_root prog) =
     [Fprintf_stderr (''Error: knockd needs root for the raw capture socket and for iptables.'' @ [LF]),
      Fprintf_stderr (''Try: sudo '' @ prog @ [LF])]"

text \<open>\<open>ctx i\<close> is what \<open>strerror(errno)\<close> and the local time are at the \<open>i\<close>-th call of the logger.\<close>

type_synonym log_context = "nat \<Rightarrow> string \<times> (nat \<times> nat \<times> nat) option"

fun spoken :: "int \<Rightarrow> logger_state \<Rightarrow> string \<Rightarrow> log_context \<Rightarrow> nat \<Rightarrow> daemon_msg logs \<Rightarrow> written list" where
  "spoken level st version ctx i [] = []"
| "spoken level st version ctx i ((l, m) # ls) =
     map Logger (log_msg level st (snd (ctx i)) l (daemon_text version (fst (ctx i)) m)) @
     spoken level st version ctx (Suc i) ls"

text \<open>The log of \<open>config_load\<close> in parts, each with the \<open>LOG_LEVEL\<close> in force when it is written: a
  \<open>log_level\<close> line takes effect for the lines after it.\<close>

function line_parts :: "string \<Rightarrow> config \<Rightarrow> string \<Rightarrow> (int \<times> config_msg logs) list" where
  "line_parts filepath c input =
     (case fgets LINE_SIZE input of
        None \<Rightarrow> []
      | Some (line, rest) \<Rightarrow>
          (LOG_LEVEL c, snd (config_line filepath c line)) # line_parts filepath (fst (config_line filepath c line)) rest)"
  by pat_completeness auto
termination
  by (relation "measure (\<lambda>(p, c, s). length s)") (auto simp: LINE_SIZE_def dest: fgets_SomeD(3))

declare line_parts.simps [simp del]

definition load_parts :: "string \<Rightarrow> config_file option \<Rightarrow> config \<Rightarrow> (int \<times> config_msg logs) list" where
  "load_parts filepath file c = (case file of
     None \<Rightarrow> (LOG_LEVEL c, [(LEVEL_WARN, Config.Could_not_open filepath)]) # snd (validate_parts c)
   | Some f \<Rightarrow>
       (let c' = fst (read_lines filepath c (file_bytes f))
        in [(LOG_LEVEL c, warn_if_world_readable filepath (file_mode f))] @
           line_parts filepath c (file_bytes f) @
           [(LOG_LEVEL c', (if file_error f then [(LEVEL_WARN, Read_error filepath)] else []) @
              [(LEVEL_INFO, Configuration_loaded filepath)])] @
           snd (validate_parts c')))"

section \<open>The process\<close>

datatype signal = SIGINT | SIGTERM | SIGPIPE

datatype disposition = SIG_DFL | SIG_IGN | Handled

text \<open>Where the main thread is in \<open>main\<close>: about to look at the arguments, at the statement that is
  named, about to say that the daemon is running, in the processor loop, at the label \<open>cleanup\<close>, in
  \<open>pthread_join\<close>, releasing, returning.\<close>

datatype main_pc = M_Args | M_Load | M_Verbose | M_Banner | M_Sigint | M_Sigterm | M_Sigpipe | M_Start
  | M_Announce | M_Loop | M_Cleanup | M_Join | M_Release | M_Close

record 'k process =
  p_pc :: main_pc
  p_opts :: options
  p_disp :: "signal \<Rightarrow> disposition"
  p_conf :: config
  p_logger :: logger_state
  p_dmn :: "'k daemon"
  p_exit :: int
  p_fds :: "int list"
  p_out :: "written list"
  p_calls :: nat

text \<open>What surrounds the process: its arguments, its user, the files, the answers of the system
  during start-up, iptables, and the contexts of the log calls.\<close>

record 'k world =
  w_prog :: string
  w_version :: string
  w_args :: "string list"
  w_euid :: nat
  w_files :: "string \<Rightarrow> config_file option"
  w_boot :: boot_env
  w_ipt :: "'k iptables"
  w_ctx :: log_context

datatype 'k status = Alive "'k process" | Terminated int "'k process" | Killed signal "'k process" | Segfault "'k process"

text \<open>The static data when \<open>main\<close> is entered.  Nothing reads the queue before \<open>pktqueue_init\<close>.\<close>

definition static_daemon :: "'k \<Rightarrow> 'k daemon" where
  "static_daemon k = \<lparr>g_running = True, queue = fst pktqueue_init, clients = None, fw = firewall_start, sys = k,
     ifindex = 0, sock_fd = - 1, capture_started = False, capture = C_Check, processor = P_Check,
     last_cleanup = 0, accepted = [], history = []\<rparr>"

definition process_entry :: "'k \<Rightarrow> 'k process" where
  "process_entry k = \<lparr>p_pc = M_Args, p_opts = default_options, p_disp = (\<lambda>_. SIG_DFL), p_conf = initial_config,
     p_logger = \<lparr>g_use_syslog = False\<rparr>, p_dmn = static_daemon k, p_exit = 1, p_fds = [], p_out = [], p_calls = 0\<rparr>"

definition emit :: "written list \<Rightarrow> 'k process \<Rightarrow> 'k process" where
  "emit os p = p\<lparr>p_out := p_out p @ os\<rparr>"

definition say_at :: "'k world \<Rightarrow> int \<Rightarrow> daemon_msg logs \<Rightarrow> 'k process \<Rightarrow> 'k process" where
  "say_at w level ls p =
     p\<lparr>p_out := p_out p @ spoken level (p_logger p) (w_version w) (w_ctx w) (p_calls p) ls,
       p_calls := p_calls p + length ls\<rparr>"

abbreviation say :: "'k world \<Rightarrow> daemon_msg logs \<Rightarrow> 'k process \<Rightarrow> 'k process" where
  "say w ls p \<equiv> say_at w (LOG_LEVEL (p_conf p)) ls p"

fun say_parts :: "'k world \<Rightarrow> (int \<times> config_msg logs) list \<Rightarrow> 'k process \<Rightarrow> 'k process" where
  "say_parts w [] p = p"
| "say_parts w ((level, ls) # parts) p = say_parts w parts (say_at w level (logged Config_log ls) p)"

text \<open>\<open>logger_init\<close> and \<open>logger_close\<close> on the process.\<close>

definition open_logger :: "bool \<Rightarrow> 'k process \<Rightarrow> 'k process" where
  "open_logger use_syslog p = (let (st, es) = logger_init use_syslog in emit (map Logger es) (p\<lparr>p_logger := st\<rparr>))"

definition close_logger :: "'k process \<Rightarrow> 'k process" where
  "close_logger p = (let (st, es) = logger_close (p_logger p) in emit (map Logger es) (p\<lparr>p_logger := st\<rparr>))"

section \<open>The main thread\<close>

definition jump_to :: "main_pc \<Rightarrow> 'k process \<Rightarrow> 'k process" where
  "jump_to l p = p\<lparr>p_pc := l\<rparr>"

definition main_args :: "'k world \<Rightarrow> 'k process \<Rightarrow> 'k status" where
  "main_args w p = (case parse_args (w_prog w) (w_version w) (w_args w) (p_opts p) of
     Inl (code, os) \<Rightarrow> Terminated code (emit (concat (map main_print os)) p)
   | Inr opts \<Rightarrow>
       if w_euid w \<noteq> 0 then Terminated 1 (emit (main_print (Err_needs_root (w_prog w))) p)
       else Alive (jump_to M_Load (open_logger (opt_use_syslog opts) (p\<lparr>p_opts := opts\<rparr>))))"

definition main_load :: "'k world \<Rightarrow> 'k process \<Rightarrow> 'k status" where
  "main_load w p =
     (let path = opt_config_file (p_opts p); file = w_files w path;
          (rc, cfg, _) = config_load path file (p_conf p);
          p = say_parts w (load_parts path file (p_conf p)) p;
          p = p\<lparr>p_conf := cfg\<rparr>
      in if rc \<noteq> 0 \<and> opt_config_explicit (p_opts p)
         then Terminated 1 (close_logger (say w [(LEVEL_ERROR, Refusing_default_sequence path)] p))
         else Alive (jump_to M_Verbose p))"

definition main_verbose :: "'k world \<Rightarrow> 'k process \<Rightarrow> 'k process" where
  "main_verbose w p =
     (if opt_verbose (p_opts p)
      then (let p = p\<lparr>p_conf := p_conf p\<lparr>LOG_LEVEL := level_int LEVEL_DEBUG\<rparr>\<rparr>
            in jump_to M_Banner (say w [(LEVEL_INFO, Debug_logging_enabled)] p))
      else jump_to M_Banner p)"

text \<open>\<open>g_running\<close> is static: a signal that came before start-up is not forgotten by it.  The last message
  of a successful start-up comes after \<open>pthread_create\<close>, so the capture thread can log before it.\<close>

definition main_start :: "'k world \<Rightarrow> 'k process \<Rightarrow> 'k process" where
  "main_start w p =
     (let (ok, d, closed, ls) = daemon_startup (p_conf p) (w_ipt w) (w_boot w) (sys (p_dmn p));
          p = say w (if ok then butlast ls else ls)
            (p\<lparr>p_dmn := d\<lparr>g_running := g_running (p_dmn p)\<rparr>, p_fds := p_fds p @ closed\<rparr>)
      in jump_to (if ok then M_Announce else M_Cleanup) p)"

definition main_announce :: "'k world \<Rightarrow> 'k process \<Rightarrow> 'k process" where
  "main_announce w p =
     jump_to M_Loop (say w [(LEVEL_INFO, Daemon_running (KNOCK_SEQ_LEN (p_conf p)) (PROTECTED_PORT (p_conf p)))] p)"

definition main_release :: "'k world \<Rightarrow> 'k process \<Rightarrow> 'k process" where
  "main_release w p =
     (let (d, fds, ls) = cleanup_release (p_conf p) (w_ipt w) (p_dmn p)
      in jump_to M_Close (say w ls (p\<lparr>p_dmn := d, p_fds := p_fds p @ fds\<rparr>)))"

definition handle_signal :: "signal \<Rightarrow> disposition \<Rightarrow> 'k process \<Rightarrow> 'k process" where
  "handle_signal s h p = p\<lparr>p_disp := (p_disp p)(s := h)\<rparr>"

text \<open>One step of the main thread outside the processor loop; \<open>None\<close>: it is inside the loop or waits
  in \<open>pthread_join\<close>.\<close>

definition main_step :: "'k world \<Rightarrow> 'k process \<Rightarrow> 'k status option" where
  "main_step w p = (case p_pc p of
     M_Args \<Rightarrow> Some (main_args w p)
   | M_Load \<Rightarrow> Some (main_load w p)
   | M_Verbose \<Rightarrow> Some (Alive (main_verbose w p))
   | M_Banner \<Rightarrow> Some (Alive (jump_to M_Sigint (emit [Fprintf_stderr (print_banner (w_version w) (p_conf p))] p)))
   | M_Sigint \<Rightarrow> Some (Alive (jump_to M_Sigterm (handle_signal SIGINT Handled p)))
   | M_Sigterm \<Rightarrow> Some (Alive (jump_to M_Sigpipe (handle_signal SIGTERM Handled p)))
   | M_Sigpipe \<Rightarrow> Some (Alive (jump_to M_Start (handle_signal SIGPIPE SIG_IGN p)))
   | M_Start \<Rightarrow> Some (Alive (main_start w p))
   | M_Announce \<Rightarrow> Some (Alive (main_announce w p))
   | M_Loop \<Rightarrow> if processor (p_dmn p) = P_Done then Some (Alive (jump_to M_Cleanup (p\<lparr>p_exit := 0\<rparr>))) else None
   | M_Cleanup \<Rightarrow>
       (let (d, ls) = cleanup_request (p_dmn p)
        in Some (Alive (jump_to M_Join (say w ls (p\<lparr>p_dmn := d\<rparr>)))))
   | M_Join \<Rightarrow> if join_returns (p_dmn p) then Some (Alive (jump_to M_Release p)) else None
   | M_Release \<Rightarrow> Some (Alive (main_release w p))
   | M_Close \<Rightarrow> Some (Terminated (p_exit p) (close_logger p)))"

section \<open>All that can happen to the process\<close>

datatype event = Ev_main | Ev_signal signal | Ev_capture "recv list" seconds | Ev_process bool "seconds \<times> seconds \<times> seconds"

definition deliver :: "signal \<Rightarrow> 'k process \<Rightarrow> 'k status" where
  "deliver s p = (case p_disp p s of
     SIG_DFL \<Rightarrow> Killed s p
   | SIG_IGN \<Rightarrow> Alive p
   | Handled \<Rightarrow> Alive (p\<lparr>p_dmn := signal_handler (p_dmn p)\<rparr>))"

definition thread_result :: "'k world \<Rightarrow> 'k process \<Rightarrow> 'k result \<Rightarrow> 'k status option" where
  "thread_result w p r = (case r of
     Step d ls \<Rightarrow> Some (Alive (say w ls (p\<lparr>p_dmn := d\<rparr>)))
   | Blocked \<Rightarrow> None
   | Crash \<Rightarrow> Some (Segfault p))"

text \<open>The capture thread exists once it was created; the processor runs in \<open>run_processor\<close> only.\<close>

fun process_act :: "'k world \<Rightarrow> event \<Rightarrow> 'k process \<Rightarrow> 'k status option" where
  "process_act w Ev_main p = main_step w p"
| "process_act w (Ev_signal s) p = Some (deliver s p)"
| "process_act w (Ev_capture rs now) p =
     (if capture_started (p_dmn p) then thread_result w p (capture_thread (p_conf p) rs now (p_dmn p)) else None)"
| "process_act w (Ev_process timedout clk) p =
     (if p_pc p = M_Loop then thread_result w p (run_processor (p_conf p) (w_ipt w) timedout clk (p_dmn p)) else None)"

fun event_ok :: "event \<Rightarrow> bool" where
  "event_ok (Ev_capture rs now) \<longleftrightarrow> (\<forall>r\<in>set rs. recv_ok r)"
| "event_ok _ \<longleftrightarrow> True"

inductive process_reach :: "'k world \<Rightarrow> 'k process \<Rightarrow> 'k status \<Rightarrow> bool" for w :: "'k world" and p0 :: "'k process" where
  enter: "process_reach w p0 (Alive p0)"
| act: "process_reach w p0 (Alive p) \<Longrightarrow> event_ok e \<Longrightarrow> process_act w e p = Some s \<Longrightarrow> process_reach w p0 s"

fun process_exec :: "'k world \<Rightarrow> event list \<Rightarrow> 'k status \<Rightarrow> 'k status option" where
  "process_exec w [] s = Some s"
| "process_exec w (e # es) (Alive p) = Option.bind (process_act w e p) (process_exec w es)"
| "process_exec w (e # es) _ = None"

section \<open>The log of config_load\<close>

lemma line_parts_log: "concat (map snd (line_parts filepath c input)) = snd (read_lines filepath c input)"
proof (induction filepath c input rule: line_parts.induct)
  case (1 filepath c input)
  then show ?case
    by (auto simp: line_parts.simps [of filepath c input] read_lines.simps [of filepath c input] Let_def
        split: option.splits prod.splits)
qed

lemma validate_parts_log: "concat (map snd (snd (validate_parts c))) = snd (config_validate c)"
  by (simp add: config_validate_def Let_def split_def)

lemma load_parts_log: "concat (map snd (load_parts filepath file c)) = snd (snd (config_load filepath file c))"
  by (auto simp: load_parts_def config_load_def line_parts_log validate_parts_log Let_def split: option.splits prod.splits)

section \<open>What the steps of main leave alone\<close>

lemmas process_ops = emit_def say_at_def jump_to_def handle_signal_def open_logger_def close_logger_def
  logger_init_def logger_close_def

lemma spoken_append:
  "spoken level st version ctx i (a @ b) = spoken level st version ctx i a @ spoken level st version ctx (i + length a) b"
  by (induction level st version ctx i a rule: spoken.induct) simp_all

lemma say_parts_frame: "\<exists>os n. say_parts w parts p = p\<lparr>p_out := p_out p @ os, p_calls := n\<rparr>"
proof (induction w parts p rule: say_parts.induct)
  case (1 w p)
  show ?case by (intro exI [of _ "[]"] exI [of _ "p_calls p"]) simp
next
  case (2 w level ls parts p)
  then show ?case by (auto simp: say_at_def)
qed

text \<open>Below level 0 nothing is written at all.\<close>

lemma spoken_below: "level < 0 \<Longrightarrow> spoken level st version ctx i ls = []"
proof (induction level st version ctx i ls rule: spoken.induct)
  case (2 level st version ctx i l m ls)
  then show ?case by (cases l) (simp_all add: log_msg_def)
qed simp

lemma say_parts_below: "\<forall>part\<in>set parts. fst part < 0 \<Longrightarrow> p_out (say_parts w parts p) = p_out p"
  by (induction w parts p rule: say_parts.induct) (simp_all add: say_at_def spoken_below)

lemma signal_handler_again: "signal_handler (signal_handler d) = signal_handler d"
  by (simp add: signal_handler_def)

lemma reach_signal: "daemon_reach cfg ipt d (signal_handler d)"
  by (rule daemon_reach.step [OF daemon_reach.start daemon_step.signal])

lemma cleanup_request_signal:
  "cleanup_request (signal_handler d) = cleanup_request d"
  "signal_handler (fst (cleanup_request d)) = fst (cleanup_request d)"
  by (simp_all add: cleanup_request_def signal_handler_def)

lemma startup_failed_no_thread: "daemon_startup cfg ipt env k = (False, d, closed, ls) \<Longrightarrow> \<not> capture_started d"
  by (auto simp: daemon_startup_def Let_def split: prod.splits if_splits)

lemma startup_log:
  "daemon_startup cfg ipt env k = (True, d, closed, ls) \<Longrightarrow>
   ls = butlast ls @ [(LEVEL_INFO, Daemon_running (KNOCK_SEQ_LEN cfg) (PROTECTED_PORT cfg))]"
  by (auto simp: daemon_startup_def Let_def butlast_append split: prod.splits if_splits)

lemma startup_running: "daemon_startup cfg ipt env k = (ok, d, closed, ls) \<Longrightarrow> g_running d"
  by (auto simp: daemon_startup_def Let_def split: prod.splits if_splits)

lemma main_front_valid: "main_front prog version args euid files = Inr (cfg, logger, ls) \<Longrightarrow> valid_config cfg"
  using config_load_ok [OF initial_config_wf]
  by (fastforce dest!: main_front_InrD simp: valid_config_def config_wf_def c_int_def c_int_limits)

section \<open>The invariant of the process\<close>

fun pc_order :: "main_pc \<Rightarrow> nat" where
  "pc_order M_Args = 0"
| "pc_order M_Load = 1"
| "pc_order M_Verbose = 2"
| "pc_order M_Banner = 3"
| "pc_order M_Sigint = 4"
| "pc_order M_Sigterm = 5"
| "pc_order M_Sigpipe = 6"
| "pc_order M_Start = 7"
| "pc_order M_Announce = 8"
| "pc_order M_Loop = 9"
| "pc_order M_Cleanup = 10"
| "pc_order M_Join = 11"
| "pc_order M_Release = 12"
| "pc_order M_Close = 13"

text \<open>The dispositions of the signals at each point of \<open>main\<close>.\<close>

fun disposition_at :: "main_pc \<Rightarrow> signal \<Rightarrow> disposition" where
  "disposition_at l SIGINT = (if pc_order l \<le> 4 then SIG_DFL else Handled)"
| "disposition_at l SIGTERM = (if pc_order l \<le> 5 then SIG_DFL else Handled)"
| "disposition_at l SIGPIPE = (if pc_order l \<le> 6 then SIG_DFL else SIG_IGN)"

abbreviation parsed :: "'k world \<Rightarrow> (int \<times> main_output list) + options" where
  "parsed w \<equiv> parse_args (w_prog w) (w_version w) (w_args w) default_options"

abbreviation front :: "'k world \<Rightarrow> (int \<times> main_output list \<times> daemon_msg logs) + (config \<times> logger_state \<times> daemon_msg logs)" where
  "front w \<equiv> main_front (w_prog w) (w_version w) (w_args w) (w_euid w) (w_files w)"

abbreviation finishes :: "'k world \<Rightarrow> 'k \<Rightarrow> int \<Rightarrow> 'k \<Rightarrow> int list \<Rightarrow> bool" where
  "finishes w \<equiv> main_run (w_prog w) (w_version w) (w_args w) (w_euid w) (w_files w) (w_boot w) (w_ipt w)"

definition untouched :: "'k \<Rightarrow> 'k process \<Rightarrow> bool" where
  "untouched k0 p \<longleftrightarrow> p_dmn p \<in> {static_daemon k0, signal_handler (static_daemon k0)} \<and> p_fds p = [] \<and> p_exit p = 1"

text \<open>Start-up ended in \<open>ok\<close>, and the daemon has since come to the state \<open>d\<close>.\<close>

definition started :: "'k world \<Rightarrow> 'k \<Rightarrow> 'k process \<Rightarrow> bool \<Rightarrow> 'k daemon \<Rightarrow> bool" where
  "started w k0 p ok d \<longleftrightarrow> (\<exists>d0 ls. daemon_startup (p_conf p) (w_ipt w) (w_boot w) k0 = (ok, d0, p_fds p, ls) \<and>
     (if ok then daemon_reach (p_conf p) (w_ipt w) d0 d else d \<in> {d0, signal_handler d0}))"

definition cleaning :: "'k world \<Rightarrow> 'k \<Rightarrow> 'k process \<Rightarrow> bool" where
  "cleaning w k0 p \<longleftrightarrow> (\<exists>d. started w k0 p (p_exit p = 0) d \<and> p_exit p \<in> {0, 1} \<and>
     (if p_exit p = 0 then processor d = P_Done \<and> daemon_reach (p_conf p) (w_ipt w) (fst (cleanup_request d)) (p_dmn p)
      else p_dmn p = fst (cleanup_request d)))"

definition progress :: "'k world \<Rightarrow> 'k \<Rightarrow> 'k process \<Rightarrow> bool" where
  "progress w k0 p \<longleftrightarrow> (case p_pc p of
     M_Args \<Rightarrow> untouched k0 p \<and> p_opts p = default_options \<and> p_conf p = initial_config
   | M_Load \<Rightarrow> untouched k0 p \<and> parsed w = Inr (p_opts p) \<and> w_euid w = 0 \<and> p_conf p = initial_config
   | M_Verbose \<Rightarrow> untouched k0 p \<and> parsed w = Inr (p_opts p) \<and> w_euid w = 0 \<and>
       (\<exists>rc ls. config_load (opt_config_file (p_opts p)) (w_files w (opt_config_file (p_opts p))) initial_config = (rc, p_conf p, ls) \<and>
          \<not> (rc \<noteq> 0 \<and> opt_config_explicit (p_opts p)))
   | M_Announce \<Rightarrow> p_exit p = 1 \<and> started w k0 p True (p_dmn p)
   | M_Loop \<Rightarrow> p_exit p = 1 \<and> started w k0 p True (p_dmn p)
   | M_Cleanup \<Rightarrow> p_exit p \<in> {0, 1} \<and> started w k0 p (p_exit p = 0) (p_dmn p) \<and> (p_exit p = 0 \<longrightarrow> processor (p_dmn p) = P_Done)
   | M_Join \<Rightarrow> cleaning w k0 p
   | M_Release \<Rightarrow> cleaning w k0 p \<and> join_returns (p_dmn p)
   | M_Close \<Rightarrow> finishes w k0 (p_exit p) (sys (p_dmn p)) (p_fds p) \<and> join_returns (p_dmn p)
   | _ \<Rightarrow> untouched k0 p)"

definition process_inv :: "'k world \<Rightarrow> 'k \<Rightarrow> 'k process \<Rightarrow> bool" where
  "process_inv w k0 p \<longleftrightarrow> p_disp p = disposition_at (p_pc p) \<and> progress w k0 p \<and>
     (3 \<le> pc_order (p_pc p) \<longrightarrow> (\<exists>lg ls. front w = Inr (p_conf p, lg, ls)))"

definition status_inv :: "'k world \<Rightarrow> 'k \<Rightarrow> 'k status \<Rightarrow> bool" where
  "status_inv w k0 s \<longleftrightarrow> (case s of
     Alive p \<Rightarrow> process_inv w k0 p
   | Terminated code p \<Rightarrow> finishes w k0 code (sys (p_dmn p)) (p_fds p)
   | Killed sg p \<Rightarrow> process_inv w k0 p \<and> p_disp p sg = SIG_DFL
   | Segfault p \<Rightarrow> False)"

lemma disposition_eqI: "f SIGINT = g SIGINT \<Longrightarrow> f SIGTERM = g SIGTERM \<Longrightarrow> f SIGPIPE = g SIGPIPE \<Longrightarrow> f = g"
  by (metis (full_types) ext signal.exhaust)

lemma main_args_inv:
  assumes "process_inv w k0 p" "p_pc p = M_Args"
  shows "status_inv w k0 (main_args w p)"
proof -
  have u: "untouched k0 p" "p_opts p = default_options" "p_conf p = initial_config" "p_disp p = disposition_at M_Args"
    using assms by (simp_all add: process_inv_def progress_def)
  then have k: "sys (p_dmn p) = k0" "p_fds p = []" by (auto simp: untouched_def static_daemon_def signal_handler_def)
  have d: "disposition_at M_Args = disposition_at M_Load" by (rule disposition_eqI) simp_all
  show ?thesis
  proof (cases "parsed w")
    case (Inl r)
    then obtain code os where r: "r = (code, os)" by fastforce
    then have "front w = Inl (code, os, [])" using Inl by (simp add: main_front_def)
    from main_run.no_front [OF this] show ?thesis
      using Inl r u k by (simp add: main_args_def status_inv_def emit_def)
  next
    case (Inr opts)
    show ?thesis
    proof (cases "w_euid w = 0")
      case True
      with Inr u d show ?thesis
        by (simp add: main_args_def status_inv_def process_ops process_inv_def progress_def untouched_def)
    next
      case False
      then have "front w = Inl (1, [Err_needs_root (w_prog w)], [])" using Inr by (simp add: main_front_def)
      from main_run.no_front [OF this] show ?thesis
        using Inr u k False by (simp add: main_args_def status_inv_def emit_def)
    qed
  qed
qed

lemma main_load_inv:
  assumes "process_inv w k0 p" "p_pc p = M_Load"
  shows "status_inv w k0 (main_load w p)"
proof -
  let ?path = "opt_config_file (p_opts p)"
  have u: "untouched k0 p" "parsed w = Inr (p_opts p)" "w_euid w = 0" "p_conf p = initial_config" "p_disp p = disposition_at M_Load"
    using assms by (simp_all add: process_inv_def progress_def)
  then have k: "sys (p_dmn p) = k0" "p_fds p = []" by (auto simp: untouched_def static_daemon_def signal_handler_def)
  have d: "disposition_at M_Load = disposition_at M_Verbose" by (rule disposition_eqI) simp_all
  obtain rc cfg ls where load: "config_load ?path (w_files w ?path) initial_config = (rc, cfg, ls)" by (metis prod_cases3)
  obtain os n where parts: "say_parts w (load_parts ?path (w_files w ?path) initial_config) p = p\<lparr>p_out := p_out p @ os, p_calls := n\<rparr>"
    using say_parts_frame by blast
  show ?thesis
  proof (cases "rc \<noteq> 0 \<and> opt_config_explicit (p_opts p)")
    case True
    then have "front w = Inl (1, [], logged Config_log ls @ [(LEVEL_ERROR, Refusing_default_sequence ?path)])"
      using u load by (simp add: main_front_def Let_def logger_init_def)
    from main_run.no_front [OF this] show ?thesis
      using True u k load parts by (simp add: main_load_def Let_def status_inv_def process_ops)
  next
    case False
    with u load parts d show ?thesis
      by (auto simp: main_load_def Let_def status_inv_def process_ops process_inv_def progress_def untouched_def)
  qed
qed

lemma main_verbose_inv:
  assumes "process_inv w k0 p" "p_pc p = M_Verbose"
  shows "process_inv w k0 (main_verbose w p)"
proof -
  have u: "untouched k0 p" "parsed w = Inr (p_opts p)" "w_euid w = 0" "p_disp p = disposition_at M_Verbose"
    using assms by (simp_all add: process_inv_def progress_def)
  have d: "disposition_at M_Verbose = disposition_at M_Banner" by (rule disposition_eqI) simp_all
  obtain rc ls where load: "config_load (opt_config_file (p_opts p)) (w_files w (opt_config_file (p_opts p))) initial_config = (rc, p_conf p, ls)"
    and rc: "\<not> (rc \<noteq> 0 \<and> opt_config_explicit (p_opts p))"
    using assms by (auto simp: process_inv_def progress_def)
  have "\<exists>lg l. front w = Inr (if opt_verbose (p_opts p) then p_conf p\<lparr>LOG_LEVEL := 3\<rparr> else p_conf p, lg, l)"
    using u load rc by (simp add: main_front_def Let_def logger_init_def)
  with u d show ?thesis
    by (auto simp: main_verbose_def Let_def process_ops process_inv_def progress_def untouched_def split: if_splits)
qed

lemma main_start_inv:
  assumes "process_inv w k0 p" "p_pc p = M_Start"
  shows "process_inv w k0 (main_start w p)"
proof -
  have u: "untouched k0 p" "p_disp p = disposition_at M_Start" and f: "\<exists>lg ls. front w = Inr (p_conf p, lg, ls)"
    using assms by (simp_all add: process_inv_def progress_def)
  have k: "sys (p_dmn p) = k0" "p_fds p = []" "p_exit p = 1"
    using u by (auto simp: untouched_def static_daemon_def signal_handler_def)
  have d: "disposition_at M_Start = disposition_at M_Announce" "disposition_at M_Start = disposition_at M_Cleanup"
    by (rule disposition_eqI; simp)+
  obtain ok d closed ls where up: "daemon_startup (p_conf p) (w_ipt w) (w_boot w) k0 = (ok, d, closed, ls)" by (metis prod_cases4)
  let ?d = "d\<lparr>g_running := g_running (p_dmn p)\<rparr>"
  have d': "?d \<in> {d, signal_handler d}"
    using startup_running [OF up] by (cases "g_running (p_dmn p)") (simp_all add: signal_handler_def)
  then have r: "daemon_reach (p_conf p) (w_ipt w) d ?d" using daemon_reach.start reach_signal by force
  show ?thesis
    using u(2) f k d d' r by (auto simp: main_start_def Let_def up process_ops process_inv_def progress_def started_def)
qed

lemma main_release_inv:
  assumes "process_inv w k0 p" "p_pc p = M_Release"
  shows "process_inv w k0 (main_release w p)"
proof -
  have c: "cleaning w k0 p" "join_returns (p_dmn p)" "p_disp p = disposition_at M_Release"
    using assms by (simp_all add: process_inv_def progress_def)
  obtain lg l1 where f: "front w = Inr (p_conf p, lg, l1)" using assms by (auto simp: process_inv_def)
  have d: "disposition_at M_Release = disposition_at M_Close" by (rule disposition_eqI) simp_all
  obtain dr fds l3 where rel: "cleanup_release (p_conf p) (w_ipt w) (p_dmn p) = (dr, fds, l3)" by (metis prod_cases3)
  obtain dm where st: "started w k0 p (p_exit p = 0) dm" and e: "p_exit p \<in> {0, 1}" and
    cl: "if p_exit p = 0 then processor dm = P_Done \<and> daemon_reach (p_conf p) (w_ipt w) (fst (cleanup_request dm)) (p_dmn p)
      else p_dmn p = fst (cleanup_request dm)"
    using c(1) unfolding cleaning_def by blast
  obtain d0 l2 where up: "daemon_startup (p_conf p) (w_ipt w) (w_boot w) k0 = (p_exit p = 0, d0, p_fds p, l2)"
    and dm: "if p_exit p = 0 then daemon_reach (p_conf p) (w_ipt w) d0 dm else dm \<in> {d0, signal_handler d0}"
    using st unfolding started_def by blast
  have "finishes w k0 (p_exit p) (sys dr) (p_fds p @ fds)"
  proof (cases "p_exit p = 0")
    case True
    with cl dm up main_run.served [OF f _ _ _ _ c(2) rel] show ?thesis by simp
  next
    case False
    then have "p_dmn p = fst (cleanup_request d0)" using cl dm by (auto simp: cleanup_request_signal)
    with False e up rel main_run.no_start [OF f] show ?thesis by force
  qed
  moreover have "join_returns dr" using c(2) rel by (auto simp: cleanup_release_def join_returns_def split: prod.splits)
  ultimately show ?thesis using c(3) d f
    by (auto simp: main_release_def Let_def rel process_ops process_inv_def progress_def)
qed

lemma main_step_inv:
  assumes inv: "process_inv w k0 p" and st: "main_step w p = Some s"
  shows "status_inv w k0 s"
proof (cases "p_pc p")
  case M_Args
  with main_args_inv [OF inv] st show ?thesis by (simp add: main_step_def)
next
  case M_Load
  with main_load_inv [OF inv] st show ?thesis by (simp add: main_step_def)
next
  case M_Verbose
  with main_verbose_inv [OF inv] st show ?thesis by (auto simp: main_step_def status_inv_def)
next
  case M_Start
  with main_start_inv [OF inv] st show ?thesis by (auto simp: main_step_def status_inv_def)
next
  case M_Announce
  have "disposition_at M_Announce = disposition_at M_Loop" by (rule disposition_eqI) simp_all
  with M_Announce inv st show ?thesis
    by (auto simp: main_step_def main_announce_def status_inv_def process_inv_def progress_def process_ops started_def)
next
  case M_Release
  with main_release_inv [OF inv] st show ?thesis by (auto simp: main_step_def status_inv_def)
next
  case M_Loop
  have "disposition_at M_Loop = disposition_at M_Cleanup" by (rule disposition_eqI) simp_all
  with M_Loop inv st show ?thesis
    by (auto simp: main_step_def status_inv_def process_inv_def progress_def jump_to_def started_def split: if_splits)
next
  case M_Cleanup
  have "disposition_at M_Cleanup = disposition_at M_Join" by (rule disposition_eqI) simp_all
  moreover obtain d ls where "cleanup_request (p_dmn p) = (d, ls)" by fastforce
  ultimately show ?thesis using M_Cleanup inv st
    by (auto simp: main_step_def status_inv_def process_inv_def progress_def process_ops cleaning_def started_def
        daemon_reach.start intro!: exI [of _ "p_dmn p"])
next
  case M_Join
  have "disposition_at M_Join = disposition_at M_Release" by (rule disposition_eqI) simp_all
  with M_Join inv st show ?thesis
    by (auto simp: main_step_def status_inv_def process_inv_def progress_def jump_to_def cleaning_def started_def split: if_splits)
next
  case M_Close
  with inv st show ?thesis
    by (auto simp: main_step_def status_inv_def process_inv_def progress_def close_logger_def logger_close_def emit_def)
next
  case M_Banner
  have "disposition_at M_Banner = disposition_at M_Sigint" by (rule disposition_eqI) simp_all
  with M_Banner inv st show ?thesis
    by (auto simp: main_step_def status_inv_def process_inv_def progress_def process_ops untouched_def)
next
  case M_Sigint
  have "(disposition_at M_Sigint)(SIGINT := Handled) = disposition_at M_Sigterm" by (rule disposition_eqI) simp_all
  with M_Sigint inv st show ?thesis
    by (auto simp: main_step_def status_inv_def process_inv_def progress_def process_ops untouched_def)
next
  case M_Sigterm
  have "(disposition_at M_Sigterm)(SIGTERM := Handled) = disposition_at M_Sigpipe" by (rule disposition_eqI) simp_all
  with M_Sigterm inv st show ?thesis
    by (auto simp: main_step_def status_inv_def process_inv_def progress_def process_ops untouched_def)
next
  case M_Sigpipe
  have "(disposition_at M_Sigpipe)(SIGPIPE := SIG_IGN) = disposition_at M_Start" by (rule disposition_eqI) simp_all
  with M_Sigpipe inv st show ?thesis
    by (auto simp: main_step_def status_inv_def process_inv_def progress_def process_ops untouched_def)
qed

lemma process_inv_signal:
  assumes inv: "process_inv w k0 p"
  shows "process_inv w k0 (p\<lparr>p_dmn := signal_handler (p_dmn p)\<rparr>)"
proof -
  have sig: "daemon_reach cfg ipt d0 d \<Longrightarrow> daemon_reach cfg ipt d0 (signal_handler d)" for cfg and ipt :: "'a iptables" and d0 d
    by (rule daemon_reach.step [OF _ daemon_step.signal])
  have pr: "processor (signal_handler d) = processor d" "sys (signal_handler d) = sys d"
    "join_returns (signal_handler d) = join_returns d" for d :: "'a daemon"
    by (simp_all add: signal_handler_def join_returns_def)
  show ?thesis
    using inv unfolding process_inv_def progress_def
    by (cases "p_pc p")
      (auto simp: untouched_def signal_handler_again started_def cleaning_def cleanup_request_signal pr intro: sig split: if_splits)
qed

text \<open>Steps of the threads.\<close>

lemma started_frame: "p_conf p' = p_conf p \<Longrightarrow> p_fds p' = p_fds p \<Longrightarrow> started w k0 p' ok d = started w k0 p ok d"
  by (simp add: started_def)

lemma started_step:
  assumes "started w k0 p ok d" "capture_started d" "daemon_step (p_conf p) (w_ipt w) d d'"
  shows "ok \<and> started w k0 p True d'"
proof -
  have ok: ok using assms(1,2) unfolding started_def
    by (cases ok) (auto simp: signal_handler_def dest: startup_failed_no_thread)
  with assms(1,3) show ?thesis unfolding started_def by (auto intro: daemon_reach.step)
qed

lemma reach_capture_started:
  "daemon_reach cfg ipt d d' \<Longrightarrow> capture_started d' = capture_started d"
proof (induction rule: daemon_reach.induct)
  case (step d d' d'')
  from step(2) have "capture_started d'' = capture_started d'"
    by (cases rule: daemon_stepE)
      (auto simp: signal_handler_def capture_thread_def run_processor_def process_event_def Let_def
        split: capture_pc.splits sniff.splits sniffer_rc.splits processor_pc.splits prod.splits option.splits if_splits)
  with step show ?case by simp
qed simp

lemma cleaning_step:
  assumes c: "cleaning w k0 p" and run: "capture_started (p_dmn p)" and st: "daemon_step (p_conf p) (w_ipt w) (p_dmn p) d"
    and p': "p_dmn p' = d" "p_conf p' = p_conf p" "p_fds p' = p_fds p" "p_exit p' = p_exit p"
  shows "cleaning w k0 p'"
proof -
  obtain dm where dm: "started w k0 p (p_exit p = 0) dm" "p_exit p \<in> {0, 1}" and
    cl: "if p_exit p = 0 then processor dm = P_Done \<and> daemon_reach (p_conf p) (w_ipt w) (fst (cleanup_request dm)) (p_dmn p)
      else p_dmn p = fst (cleanup_request dm)"
    using c unfolding cleaning_def by blast
  have e: "p_exit p = 0"
  proof (rule ccontr)
    assume "p_exit p \<noteq> 0"
    with cl run have "capture_started dm" by (simp add: cleanup_request_def)
    with started_step [OF dm(1) _ daemon_step.signal] \<open>p_exit p \<noteq> 0\<close> show False by blast
  qed
  with cl have "daemon_reach (p_conf p) (w_ipt w) (fst (cleanup_request dm)) d" by (auto intro: daemon_reach.step [OF _ st])
  with dm cl e p' started_frame [OF p'(2,3)] show ?thesis unfolding cleaning_def by auto
qed

lemma process_inv_capture:
  assumes inv: "process_inv w k0 p" and rs: "\<forall>r\<in>set rs. recv_ok r" and run: "capture_started (p_dmn p)"
    and st: "capture_thread (p_conf p) rs now (p_dmn p) = Step d ls"
  shows "process_inv w k0 (say w ls (p\<lparr>p_dmn := d\<rparr>))"
proof -
  let ?p = "say w ls (p\<lparr>p_dmn := d\<rparr>)"
  have f: "p_dmn ?p = d" "p_conf ?p = p_conf p" "p_fds ?p = p_fds p" "p_exit ?p = p_exit p" "p_pc ?p = p_pc p" "p_disp ?p = p_disp p"
    by (simp_all add: say_at_def)
  have ds: "daemon_step (p_conf p) (w_ipt w) (p_dmn p) d" by (rule daemon_step.capture [OF rs st])
  have pr: "processor d = processor (p_dmn p)" and nd: "capture (p_dmn p) \<noteq> C_Done"
    using st by (auto simp: capture_thread_def Let_def split: capture_pc.splits sniff.splits sniffer_rc.splits prod.splits)
  have nu: "\<not> untouched k0 p" using run by (auto simp: untouched_def static_daemon_def signal_handler_def)
  have nj: "\<not> join_returns (p_dmn p)" using run nd by (simp add: join_returns_def)
  have "p_exit p = 0" if "p_pc p = M_Cleanup"
    using inv that started_step [OF _ run ds] by (auto simp: process_inv_def progress_def)
  then have "progress w k0 ?p"
    using inv nu nj started_step [OF _ run ds] cleaning_step [OF _ run ds f(1-4)]
    unfolding process_inv_def progress_def f pr started_frame [OF f(2,3)] by (cases "p_pc p") auto
  with inv show ?thesis unfolding process_inv_def f by blast
qed

lemma loop_running:
  assumes "process_inv w k0 p" "p_pc p = M_Loop"
  shows "valid_config (p_conf p)" "daemon_inv (p_conf p) (w_ipt w) k0 (p_dmn p)" "capture_started (p_dmn p)"
proof -
  obtain d0 closed ls where up: "daemon_startup (p_conf p) (w_ipt w) (w_boot w) k0 = (True, d0, closed, ls)"
    and r: "daemon_reach (p_conf p) (w_ipt w) d0 (p_dmn p)"
    using assms by (auto simp: process_inv_def progress_def started_def)
  show v: "valid_config (p_conf p)" using assms main_front_valid by (fastforce simp: process_inv_def)
  show "daemon_inv (p_conf p) (w_ipt w) k0 (p_dmn p)" by (rule reach_from_startup [OF v up r])
  show "capture_started (p_dmn p)" using startup_inv(6) [OF up] reach_capture_started [OF r] by simp
qed

lemma process_act_inv:
  assumes inv: "process_inv w k0 p" and e: "event_ok e" and act: "process_act w e p = Some s"
  shows "status_inv w k0 s"
proof (cases e)
  case Ev_main
  with main_step_inv [OF inv] act show ?thesis by simp
next
  case (Ev_signal sg)
  with act inv process_inv_signal [OF inv] show ?thesis
    by (auto simp: deliver_def status_inv_def split: disposition.splits)
next
  case (Ev_capture rs now)
  then have rs: "\<forall>r\<in>set rs. recv_ok r" and run: "capture_started (p_dmn p)" using e act by (auto split: if_splits)
  have "thread_result w p (capture_thread (p_conf p) rs now (p_dmn p)) = Some s" using act Ev_capture run by simp
  with capture_thread_no_crash [OF rs] process_inv_capture [OF inv rs run] show ?thesis
    by (auto simp: thread_result_def status_inv_def split: result.splits)
next
  case (Ev_process timedout clk)
  then have pc: "p_pc p = M_Loop" using act by (simp split: if_splits)
  note lr = loop_running [OF inv pc]
  have "thread_result w p (run_processor (p_conf p) (w_ipt w) timedout clk (p_dmn p)) = Some s" using act Ev_process pc by simp
  moreover have "run_processor (p_conf p) (w_ipt w) timedout clk (p_dmn p) \<noteq> Crash"
    using run_processor_keeps [OF lr(1,2)] by blast
  ultimately obtain d ls where st: "run_processor (p_conf p) (w_ipt w) timedout clk (p_dmn p) = Step d ls"
    and s: "s = Alive (say w ls (p\<lparr>p_dmn := d\<rparr>))" by (auto simp: thread_result_def split: result.splits)
  have "started w k0 p True (p_dmn p)" using inv pc by (simp add: process_inv_def progress_def)
  from started_step [OF this lr(3) daemon_step.processor [OF st]] inv pc show ?thesis
    by (simp add: s status_inv_def process_inv_def progress_def say_at_def started_def)
qed

lemma process_entry_inv: "process_inv w k0 (process_entry k0)"
proof -
  have "(\<lambda>_. SIG_DFL) = disposition_at M_Args" by (rule disposition_eqI) simp_all
  then show ?thesis by (simp add: process_entry_def process_inv_def progress_def untouched_def)
qed

lemma process_reach_inv: "process_reach w (process_entry k0) s \<Longrightarrow> status_inv w k0 s"
proof (induction rule: process_reach.induct)
  case enter
  show ?case using process_entry_inv by (simp add: status_inv_def)
next
  case (act p e s)
  then show ?case using process_act_inv by (fastforce simp: status_inv_def)
qed

section \<open>Every run of main is a run of the process\<close>

lemma reach_main: "process_reach w p0 (Alive p) \<Longrightarrow> main_step w p = Some s \<Longrightarrow> process_reach w p0 s"
  by (rule process_reach.act [where e = Ev_main]) simp_all

lemma reach_load:
  assumes "parsed w = Inr opts" "w_euid w = 0"
  shows "\<exists>p. process_reach w (process_entry k0) (Alive p) \<and> p_pc p = M_Load \<and> p_dmn p = static_daemon k0"
  using assms reach_main [OF process_reach.enter, of w "process_entry k0"]
  by (auto simp: main_step_def main_args_def process_entry_def process_ops)

lemma reach_refused:
  assumes front: "front w = Inl (code, out, ls)"
  shows "\<exists>p. process_reach w (process_entry k0) (Terminated code p) \<and> sys (p_dmn p) = k0 \<and> p_fds p = []"
proof (cases "\<exists>opts. parsed w = Inr opts \<and> w_euid w = 0")
  case False
  then have "\<exists>p. main_step w (process_entry k0) = Some (Terminated code p) \<and> sys (p_dmn p) = k0 \<and> p_fds p = []"
    using front by (auto simp: main_front_def main_step_def main_args_def process_entry_def emit_def static_daemon_def split: sum.splits)
  then show ?thesis using reach_main [OF process_reach.enter] by blast
next
  case True
  then obtain opts where opts: "parsed w = Inr opts" "w_euid w = 0" by blast
  obtain p where p: "process_reach w (process_entry k0) (Alive p)" "p_pc p = M_Load" "p_dmn p = static_daemon k0"
    using reach_load [OF opts] by blast
  let ?path = "opt_config_file opts"
  have o: "p_opts p = opts" "p_conf p = initial_config" "p_fds p = []"
    using process_reach_inv [OF p(1)] p opts by (simp_all add: status_inv_def process_inv_def progress_def untouched_def)
  obtain rc c l where c: "config_load ?path (w_files w ?path) initial_config = (rc, c, l)" by (metis prod_cases3)
  have refused: "rc \<noteq> 0 \<and> opt_config_explicit opts" "code = 1"
    using front opts c by (auto simp: main_front_def Let_def split: if_splits prod.splits)
  obtain os n where parts: "say_parts w (load_parts ?path (w_files w ?path) initial_config) p = p\<lparr>p_out := p_out p @ os, p_calls := n\<rparr>"
    using say_parts_frame by blast
  have "\<exists>p'. main_step w p = Some (Terminated code p') \<and> sys (p_dmn p') = k0 \<and> p_fds p' = []"
    using p o c refused parts by (simp add: main_step_def main_load_def Let_def process_ops static_daemon_def)
  with reach_main [OF p(1)] show ?thesis by blast
qed

lemma reach_start:
  assumes front: "front w = Inr (cfg, lg, ls)"
  shows "\<exists>p. process_reach w (process_entry k0) (Alive p) \<and> p_pc p = M_Start \<and> p_dmn p = static_daemon k0 \<and> p_conf p = cfg"
proof -
  let ?R = "\<lambda>l p. process_reach w (process_entry k0) (Alive p) \<and> p_pc p = l \<and> p_dmn p = static_daemon k0"
  obtain opts where "parsed w = Inr opts" "w_euid w = 0" using main_front_InrD [OF front] by blast
  note load = reach_load [OF this, of k0]
  have verbose: "\<exists>p. ?R M_Verbose p"
  proof -
    obtain p where p: "?R M_Load p" using load by blast
    let ?path = "opt_config_file (p_opts p)"
    have o: "parsed w = Inr (p_opts p)" "p_conf p = initial_config"
      using process_reach_inv [of w k0 "Alive p"] p by (simp_all add: status_inv_def process_inv_def progress_def)
    obtain rc c l where c: "config_load ?path (w_files w ?path) initial_config = (rc, c, l)"
      and rc: "\<not> (rc \<noteq> 0 \<and> opt_config_explicit (p_opts p))"
      using main_front_InrD [OF front] o by auto
    obtain os n where parts: "say_parts w (load_parts ?path (w_files w ?path) initial_config) p = p\<lparr>p_out := p_out p @ os, p_calls := n\<rparr>"
      using say_parts_frame by blast
    have "main_step w p = Some (Alive (jump_to M_Verbose (p\<lparr>p_out := p_out p @ os, p_calls := n, p_conf := c\<rparr>)))"
      using p o c rc parts by (auto simp: main_step_def main_load_def Let_def)
    from reach_main [OF _ this] p show ?thesis
      by (intro exI [of _ "jump_to M_Verbose (p\<lparr>p_out := p_out p @ os, p_calls := n, p_conf := c\<rparr>)"]) (simp add: jump_to_def)
  qed
  have onward: "\<exists>p. ?R l' p" if "\<exists>p. ?R l p"
    "\<And>p. p_pc p = l \<Longrightarrow> \<exists>p'. main_step w p = Some (Alive p') \<and> p_pc p' = l' \<and> p_dmn p' = p_dmn p" for l l'
    using that reach_main by metis
  have "\<exists>p. ?R M_Banner p" by (rule onward [OF verbose]) (simp add: main_step_def main_verbose_def Let_def process_ops)
  then have "\<exists>p. ?R M_Sigint p" by (rule onward) (simp add: main_step_def process_ops)
  then have "\<exists>p. ?R M_Sigterm p" by (rule onward) (simp add: main_step_def process_ops)
  then have "\<exists>p. ?R M_Sigpipe p" by (rule onward) (simp add: main_step_def process_ops)
  then have "\<exists>p. ?R M_Start p" by (rule onward) (simp add: main_step_def process_ops)
  then obtain p where p: "?R M_Start p" by blast
  then have "p_conf p = cfg"
    using process_reach_inv [of w k0 "Alive p"] front by (auto simp: status_inv_def process_inv_def)
  with p show ?thesis by blast
qed

lemma reach_threads:
  assumes reach: "daemon_reach (p_conf p) (w_ipt w) (p_dmn p) d"
    and p: "process_reach w (process_entry k0) (Alive p)" "p_pc p \<in> {M_Loop, M_Join}" "capture_started (p_dmn p)"
    and join: "p_pc p = M_Join \<Longrightarrow> processor (p_dmn p) = P_Done"
  shows "\<exists>p'. process_reach w (process_entry k0) (Alive p') \<and> p_dmn p' = d \<and> p_pc p' = p_pc p \<and> p_conf p' = p_conf p \<and>
    p_fds p' = p_fds p \<and> p_exit p' = p_exit p \<and> (p_pc p = M_Join \<longrightarrow> processor d = P_Done)"
  using reach
proof (induction "p_dmn p" d rule: daemon_reach.induct)
  case start
  show ?case using p(1) join by (intro exI [of _ p]) simp
next
  case (step d' d'')
  then obtain p' where p': "process_reach w (process_entry k0) (Alive p')" "p_dmn p' = d'" "p_pc p' = p_pc p" "p_conf p' = p_conf p"
    "p_fds p' = p_fds p" "p_exit p' = p_exit p" and j: "p_pc p = M_Join \<longrightarrow> processor d' = P_Done" by blast
  have run: "capture_started d'" using reach_capture_started [OF step(1)] p(3) by simp
  from step(3) show ?case
  proof (cases rule: daemon_step.cases)
    case signal
    have "p_disp p' SIGTERM = Handled"
      using process_reach_inv [OF p'(1)] p(2) p'(3) by (auto simp: status_inv_def process_inv_def)
    then have "process_act w (Ev_signal SIGTERM) p' = Some (Alive (p'\<lparr>p_dmn := d''\<rparr>))"
      using signal p' by (simp add: deliver_def)
    from process_reach.act [OF p'(1) _ this] p' j signal show ?thesis
      by (intro exI [of _ "p'\<lparr>p_dmn := d''\<rparr>"]) (simp add: signal_handler_def)
  next
    case (capture rs now ls)
    then have "process_act w (Ev_capture rs now) p' = Some (Alive (say w ls (p'\<lparr>p_dmn := d''\<rparr>)))"
      using p' run by (simp add: thread_result_def)
    moreover have "processor d'' = processor d'"
      using capture by (auto simp: capture_thread_def Let_def split: capture_pc.splits sniff.splits sniffer_rc.splits prod.splits)
    ultimately show ?thesis using process_reach.act [OF p'(1), of "Ev_capture rs now"] p' j capture
      by (intro exI [of _ "say w ls (p'\<lparr>p_dmn := d''\<rparr>)"]) (simp add: say_at_def)
  next
    case (processor timedout clk ls)
    then have l: "p_pc p = M_Loop" using p(2) j by (auto simp: run_processor_def)
    with processor have "process_act w (Ev_process timedout clk) p' = Some (Alive (say w ls (p'\<lparr>p_dmn := d''\<rparr>)))"
      using p' by (simp add: thread_result_def)
    then show ?thesis using process_reach.act [OF p'(1), of "Ev_process timedout clk"] p' l
      by (intro exI [of _ "say w ls (p'\<lparr>p_dmn := d''\<rparr>)"]) (simp add: say_at_def)
  qed
qed

lemma reach_finish:
  assumes p: "process_reach w (process_entry k0) (Alive p)" "p_pc p = M_Join" "join_returns (p_dmn p)"
    and rel: "cleanup_release (p_conf p) (w_ipt w) (p_dmn p) = (d2, fds, ls)"
  shows "\<exists>p'. process_reach w (process_entry k0) (Terminated (p_exit p) p') \<and> sys (p_dmn p') = sys d2 \<and> p_fds p' = p_fds p @ fds"
proof -
  let ?p1 = "jump_to M_Release p"
  let ?p2 = "main_release w ?p1"
  have r1: "process_reach w (process_entry k0) (Alive ?p1)" by (rule reach_main [OF p(1)]) (simp add: main_step_def p)
  have r2: "process_reach w (process_entry k0) (Alive ?p2)" by (rule reach_main [OF r1]) (simp add: main_step_def jump_to_def)
  have p2: "p_pc ?p2 = M_Close" "p_exit ?p2 = p_exit p" "p_dmn ?p2 = d2" "p_fds ?p2 = p_fds p @ fds"
    by (simp_all add: main_release_def jump_to_def rel say_at_def)
  have "process_reach w (process_entry k0) (Terminated (p_exit p) (close_logger ?p2))"
    by (rule reach_main [OF r2]) (simp add: main_step_def p2)
  then show ?thesis using p2 by (intro exI [of _ "close_logger ?p2"]) (simp add: close_logger_def logger_close_def emit_def)
qed

lemma reach_cleanup:
  assumes p: "process_reach w (process_entry k0) (Alive p)" "p_pc p = M_Cleanup"
  shows "\<exists>p'. process_reach w (process_entry k0) (Alive p') \<and> p_pc p' = M_Join \<and> p_dmn p' = fst (cleanup_request (p_dmn p)) \<and>
    p_conf p' = p_conf p \<and> p_fds p' = p_fds p \<and> p_exit p' = p_exit p"
proof -
  obtain d ls where c: "cleanup_request (p_dmn p) = (d, ls)" by fastforce
  have "process_reach w (process_entry k0) (Alive (jump_to M_Join (say w ls (p\<lparr>p_dmn := d\<rparr>))))"
    by (rule reach_main [OF p(1)]) (simp add: main_step_def p c)
  with c show ?thesis by (intro exI [of _ "jump_to M_Join (say w ls (p\<lparr>p_dmn := d\<rparr>))"]) (simp add: jump_to_def say_at_def)
qed

lemma reach_started:
  assumes front: "front w = Inr (cfg, lg, l1)" and up: "daemon_startup cfg (w_ipt w) (w_boot w) k0 = (ok, d, closed, l2)"
  shows "\<exists>p. process_reach w (process_entry k0) (Alive p) \<and> p_pc p = (if ok then M_Loop else M_Cleanup) \<and> p_dmn p = d \<and>
    p_conf p = cfg \<and> p_fds p = closed \<and> p_exit p = 1"
proof -
  obtain p where p: "process_reach w (process_entry k0) (Alive p)" "p_pc p = M_Start" "p_dmn p = static_daemon k0" "p_conf p = cfg"
    using reach_start [OF front] by blast
  have u: "p_fds p = []" "p_exit p = 1"
    using process_reach_inv [OF p(1)] p(2) by (simp_all add: status_inv_def process_inv_def progress_def untouched_def)
  have k: "sys (p_dmn p) = k0" "g_running (p_dmn p)" by (simp_all add: p static_daemon_def)
  let ?p1 = "main_start w p"
  have r: "process_reach w (process_entry k0) (Alive ?p1)" by (rule reach_main [OF p(1)]) (simp add: main_step_def p)
  have p1: "p_pc ?p1 = (if ok then M_Announce else M_Cleanup)" "p_dmn ?p1 = d" "p_conf ?p1 = cfg" "p_fds ?p1 = closed" "p_exit ?p1 = 1"
    using p(4) u k up startup_running [OF up] by (simp_all add: main_start_def jump_to_def say_at_def)
  show ?thesis
  proof (cases ok)
    case True
    have "process_reach w (process_entry k0) (Alive (main_announce w ?p1))"
      by (rule reach_main [OF r]) (simp add: main_step_def p1 True)
    with p1 True show ?thesis by (intro exI [of _ "main_announce w ?p1"]) (simp add: main_announce_def jump_to_def say_at_def)
  next
    case False
    with r p1 show ?thesis by (intro exI [of _ ?p1]) simp
  qed
qed

lemma run_reached:
  assumes "finishes w k0 code k fds"
  shows "\<exists>p. process_reach w (process_entry k0) (Terminated code p) \<and> sys (p_dmn p) = k \<and> p_fds p = fds"
  using assms
proof (cases rule: main_run.cases)
  case (no_front out ls)
  then show ?thesis using reach_refused [of w code out ls k0] by simp
next
  case (no_start cfg logger l1 d closed l2 d2 fds' l3)
  obtain p where p: "process_reach w (process_entry k0) (Alive p)" "p_pc p = M_Cleanup" "p_dmn p = d" "p_conf p = cfg"
      "p_fds p = closed" "p_exit p = 1"
    using reach_started [OF no_start(4,5)] by auto
  obtain p1 where p1: "process_reach w (process_entry k0) (Alive p1)" "p_pc p1 = M_Join" "p_dmn p1 = fst (cleanup_request d)"
      "p_conf p1 = cfg" "p_fds p1 = closed" "p_exit p1 = 1"
    using reach_cleanup [OF p(1,2)] p by auto
  have "join_returns (p_dmn p1)"
    using startup_failed_no_thread [OF no_start(5)] by (simp add: p1 cleanup_request_def join_returns_def)
  from reach_finish [OF p1(1,2) this] no_start p1 show ?thesis by fastforce
next
  case (served cfg logger l1 d0 closed l2 d d1 d2 fds' l3)
  obtain p where p: "process_reach w (process_entry k0) (Alive p)" "p_pc p = M_Loop" "p_dmn p = d0" "p_conf p = cfg"
      "p_fds p = closed" "p_exit p = 1"
    using reach_started [OF served(4,5)] by auto
  have run: "capture_started d0" "capture_started d" using startup_inv(6) [OF served(5)] reach_capture_started [OF served(6)] by simp_all
  obtain p1 where p1: "process_reach w (process_entry k0) (Alive p1)" "p_pc p1 = M_Loop" "p_dmn p1 = d" "p_conf p1 = cfg" "p_fds p1 = closed"
    using reach_threads [of p w d k0] p run served(6) by auto
  let ?p2 = "jump_to M_Cleanup (p1\<lparr>p_exit := 0\<rparr>)"
  have r2: "process_reach w (process_entry k0) (Alive ?p2)"
    by (rule reach_main [OF p1(1)]) (simp add: main_step_def p1 served(7))
  obtain p3 where p3: "process_reach w (process_entry k0) (Alive p3)" "p_pc p3 = M_Join" "p_dmn p3 = fst (cleanup_request d)"
      "p_conf p3 = cfg" "p_fds p3 = closed" "p_exit p3 = 0"
    using reach_cleanup [OF r2] p1 by (auto simp: jump_to_def)
  have "capture_started (p_dmn p3)" "processor (p_dmn p3) = P_Done" using run served(7) by (simp_all add: p3 cleanup_request_def)
  then obtain p4 where p4: "process_reach w (process_entry k0) (Alive p4)" "p_pc p4 = M_Join" "p_dmn p4 = d1" "p_conf p4 = cfg"
      "p_fds p4 = closed" "p_exit p4 = 0"
    using reach_threads [of p3 w d1 k0] p3 served(8) by auto
  from reach_finish [OF p4(1,2)] p4 served show ?thesis by fastforce
qed

section \<open>Stopping the process\<close>

text \<open>What is left to do once \<open>g_running\<close> is false.\<close>

definition budget_left :: "'k process \<Rightarrow> nat" where
  "budget_left p = (if pc_order (p_pc p) \<le> 7 then 20 - pc_order (p_pc p)
     else if pc_order (p_pc p) \<le> 11 then 14 - pc_order (p_pc p) + steps_left (p_dmn p)
     else 14 - pc_order (p_pc p))"

fun is_signal :: "event \<Rightarrow> bool" where
  "is_signal (Ev_signal s) \<longleftrightarrow> True"
| "is_signal _ \<longleftrightarrow> False"

definition process_next :: "'k world \<Rightarrow> 'k process \<Rightarrow> 'k process \<Rightarrow> bool" where
  "process_next w p p' \<longleftrightarrow> (\<exists>e. event_ok e \<and> \<not> is_signal e \<and> process_act w e p = Some (Alive p'))"

definition stopping_process :: "'k world \<Rightarrow> 'k \<Rightarrow> 'k process \<Rightarrow> bool" where
  "stopping_process w k0 p \<longleftrightarrow> process_inv w k0 p \<and> \<not> g_running (p_dmn p)"

lemma startup_steps_left: "daemon_startup cfg ipt env k = (ok, d, closed, ls) \<Longrightarrow> steps_left d = 3"
  by (auto simp: daemon_startup_def pktqueue_init_def steps_left_def Let_def split: prod.splits if_splits)

lemma main_step_budget:
  assumes "main_step w p = Some (Alive p')" "\<not> g_running (p_dmn p)"
  shows "\<not> g_running (p_dmn p') \<and> budget_left p' < budget_left p"
proof (cases "p_pc p")
  case M_Load
  obtain os n where "say_parts w (load_parts (opt_config_file (p_opts p)) (w_files w (opt_config_file (p_opts p))) (p_conf p)) p =
      p\<lparr>p_out := p_out p @ os, p_calls := n\<rparr>" using say_parts_frame by blast
  with M_Load assms show ?thesis
    by (auto simp: main_step_def main_load_def Let_def budget_left_def jump_to_def split: if_splits prod.splits)
next
  case M_Start
  with assms show ?thesis
    by (auto simp: main_step_def main_start_def budget_left_def process_ops steps_left_def
        dest!: startup_steps_left split: if_splits prod.splits)
next
  case M_Release
  with assms show ?thesis
    by (auto simp: main_step_def main_release_def cleanup_release_def budget_left_def process_ops steps_left_def split: prod.splits)
qed (use assms in \<open>auto simp: main_step_def main_args_def main_verbose_def main_announce_def cleanup_request_def budget_left_def process_ops
      steps_left_def pktqueue_shutdown_def Let_def split: if_splits prod.splits sum.splits\<close>)

lemma thread_result_Alive: "thread_result w p r = Some (Alive p') \<longleftrightarrow> (\<exists>d ls. r = Step d ls \<and> p' = say w ls (p\<lparr>p_dmn := d\<rparr>))"
  by (auto simp: thread_result_def split: result.splits)

lemma capture_started_order: "process_inv w k0 p \<Longrightarrow> capture_started (p_dmn p) \<Longrightarrow> 7 < pc_order (p_pc p)"
  by (cases "p_pc p") (auto simp: process_inv_def progress_def untouched_def static_daemon_def signal_handler_def)

lemma capture_moves_order:
  assumes "process_inv w k0 p" "capture_started (p_dmn p)" "capture_thread (p_conf p) rs now (p_dmn p) = Step d ls"
  shows "7 < pc_order (p_pc p)" "pc_order (p_pc p) \<le> 11"
proof -
  show "7 < pc_order (p_pc p)" by (rule capture_started_order [OF assms(1,2)])
  have "\<not> join_returns (p_dmn p)" using assms(2,3) by (auto simp: join_returns_def capture_thread_def)
  with assms(1) show "pc_order (p_pc p) \<le> 11" by (cases "p_pc p") (auto simp: process_inv_def progress_def)
qed

lemma process_next_budget:
  assumes "stopping_process w k0 p" "process_next w p p'"
  shows "stopping_process w k0 p' \<and> budget_left p' < budget_left p"
proof -
  have inv: "process_inv w k0 p" and stop: "\<not> g_running (p_dmn p)" using assms(1) by (simp_all add: stopping_process_def)
  obtain e where e: "event_ok e" "\<not> is_signal e" "process_act w e p = Some (Alive p')"
    using assms(2) unfolding process_next_def by blast
  have "process_inv w k0 p'" using process_act_inv [OF inv e(1,3)] by (simp add: status_inv_def)
  moreover have "\<not> g_running (p_dmn p') \<and> budget_left p' < budget_left p"
  proof (cases e)
    case Ev_main
    with e main_step_budget [OF _ stop] show ?thesis by simp
  next
    case (Ev_capture rs now)
    then obtain d ls where c: "capture_thread (p_conf p) rs now (p_dmn p) = Step d ls" "p' = say w ls (p\<lparr>p_dmn := d\<rparr>)"
      and run: "capture_started (p_dmn p)"
      using e by (auto simp: thread_result_Alive split: if_splits)
    from capture_moves_order [OF inv run c(1)] capture_steps_left [OF stop c(1)] show ?thesis
      by (auto simp: c(2) budget_left_def say_at_def)
  next
    case (Ev_process timedout clk)
    with e processor_steps_left [OF stop] show ?thesis
      by (fastforce simp: thread_result_Alive budget_left_def say_at_def split: if_splits)
  qed (use e in simp)
  ultimately show ?thesis by (simp add: stopping_process_def)
qed

interpretation exiting: draining "process_next w" "stopping_process w k0" budget_left for w k0
  by unfold_locales (rule process_next_budget)

lemma never_stuck:
  assumes inv: "process_inv w k0 p"
  shows "\<exists>e s. e \<in> {Ev_main, Ev_capture [Recv_failed EAGAIN] now, Ev_process True clk} \<and> process_act w e p = Some s"
proof (cases "main_step w p")
  case None
  then consider "p_pc p = M_Loop" "processor (p_dmn p) \<noteq> P_Done" | "p_pc p = M_Join" "\<not> join_returns (p_dmn p)"
    by (cases "p_pc p") (auto simp: main_step_def split: if_splits prod.splits)
  then show ?thesis
  proof cases
    case 1
    then obtain d ls where "run_processor (p_conf p) (w_ipt w) True clk (p_dmn p) = Step d ls"
      using processor_moves [OF loop_running(1,2) [OF inv]] by blast
    with 1 have "process_act w (Ev_process True clk) p = Some (Alive (say w ls (p\<lparr>p_dmn := d\<rparr>)))" by (simp add: thread_result_def)
    then show ?thesis by blast
  next
    case 2
    then have "capture (p_dmn p) \<noteq> C_Done" and run: "capture_started (p_dmn p)" by (auto simp: join_returns_def)
    then obtain d ls where "capture_thread (p_conf p) [Recv_failed EAGAIN] now (p_dmn p) = Step d ls" using capture_moves by blast
    with run have "process_act w (Ev_capture [Recv_failed EAGAIN] now) p = Some (Alive (say w ls (p\<lparr>p_dmn := d\<rparr>)))"
      by (simp add: thread_result_def)
    then show ?thesis by blast
  qed
next
  case (Some s)
  then have "process_act w Ev_main p = Some s" by simp
  then show ?thesis by blast
qed

lemma not_killed_by_itself: "process_act w e p = Some (Killed sg p') \<Longrightarrow> is_signal e"
  by (cases e) (auto simp: main_step_def main_args_def main_load_def thread_result_def Let_def
      split: main_pc.splits if_splits prod.splits sum.splits result.splits)

lemma exits_within_budget:
  assumes "stopping_process w k0 p"
  shows "\<exists>es code p'. process_exec w es (Alive p) = Some (Terminated code p') \<and> length es \<le> Suc (budget_left p) \<and>
    set es \<subseteq> {Ev_main, Ev_capture [Recv_failed EAGAIN] now, Ev_process True clk}"
  using assms
proof (induction "budget_left p" arbitrary: p rule: less_induct)
  case less
  have inv: "process_inv w k0 p" using less.prems by (simp add: stopping_process_def)
  obtain e s where e: "e \<in> {Ev_main, Ev_capture [Recv_failed EAGAIN] now, Ev_process True clk}" and act: "process_act w e p = Some s"
    using never_stuck [OF inv] by blast
  then have ok: "event_ok e" "\<not> is_signal e" by auto
  from process_act_inv [OF inv ok(1) act] not_killed_by_itself [of w e p] act ok(2)
  consider p' where "s = Alive p'" | code p' where "s = Terminated code p'"
    by (cases s) (auto simp: status_inv_def)
  then show ?case
  proof cases
    case 1
    then have "process_next w p p'" using act ok unfolding process_next_def by blast
    from process_next_budget [OF less.prems this] have p': "stopping_process w k0 p'" "budget_left p' < budget_left p" by simp_all
    obtain es code p'' where "process_exec w es (Alive p') = Some (Terminated code p'')" "length es \<le> Suc (budget_left p')"
      "set es \<subseteq> {Ev_main, Ev_capture [Recv_failed EAGAIN] now, Ev_process True clk}"
      using less.hyps [OF p'(2,1)] by blast
    with 1 act e p'(2) show ?thesis by (intro exI [of _ "e # es"] exI [of _ code] exI [of _ p'']) simp
  next
    case 2
    with act e show ?thesis by (intro exI [of _ "[e]"] exI [of _ code] exI [of _ p']) simp
  qed
qed

lemma budget_bound:
  assumes inv: "process_inv w k0 p"
  shows "budget_left p \<le> 2586"
proof -
  have up: "steps_left d \<le> 2580"
    if s: "started w k0 p ok d" and v: "valid_config (p_conf p)" and ok for ok d
    using s that(3) steps_left_bound [OF reach_from_startup [OF v]] unfolding started_def by auto
  have failed: "steps_left d = 3" if "started w k0 p False d" for d
    using that unfolding started_def by (auto simp: signal_handler_def steps_left_def dest!: startup_steps_left)
  have v: "valid_config (p_conf p)" if "7 < pc_order (p_pc p)"
    using inv that main_front_valid by (fastforce simp: process_inv_def)
  have "steps_left (p_dmn p) \<le> 2580" if pc: "7 < pc_order (p_pc p)" "pc_order (p_pc p) \<le> 11"
  proof (cases "p_pc p = M_Join")
    case False
    then obtain ok where "started w k0 p ok (p_dmn p)" using inv pc by (cases "p_pc p") (auto simp: process_inv_def progress_def)
    with up [OF _ v [OF pc(1)]] failed show ?thesis by (cases ok) force+
  next
    case True
    then have c: "cleaning w k0 p" using inv by (simp add: process_inv_def progress_def)
    then obtain d where st: "started w k0 p (p_exit p = 0) d" and
      cl: "if p_exit p = 0 then processor d = P_Done \<and> daemon_reach (p_conf p) (w_ipt w) (fst (cleanup_request d)) (p_dmn p)
        else p_dmn p = fst (cleanup_request d)"
      unfolding cleaning_def by blast
    show ?thesis
    proof (cases "p_exit p = 0")
      case False
      with st failed [of d] cl show ?thesis by (simp add: cleanup_request_def steps_left_def pktqueue_shutdown_def)
    next
      case True
      with st have "daemon_inv (p_conf p) (w_ipt w) k0 d"
        unfolding started_def using reach_from_startup [OF v [OF pc(1)]] by auto
      from daemon_reach_keeps [OF v [OF pc(1)] _ cleanup_request_inv [OF this]] cl True
      have "daemon_inv (p_conf p) (w_ipt w) k0 (p_dmn p)" by simp
      then show ?thesis by (rule steps_left_bound)
    qed
  qed
  then show ?thesis by (auto simp: budget_left_def)
qed

lemma process_exec_reach:
  "process_reach w p0 s \<Longrightarrow> \<forall>e\<in>set es. event_ok e \<Longrightarrow> process_exec w es s = Some s' \<Longrightarrow> process_reach w p0 s'"
proof (induction w es s rule: process_exec.induct)
  case (2 w e es p)
  then obtain s1 where "process_act w e p = Some s1" "process_exec w es s1 = Some s'" by (auto simp: bind_eq_Some_conv)
  with 2 show ?case using process_reach.act by (metis list.set_intros)
qed simp_all

section \<open>Where the log goes\<close>

definition log_effects :: "written list \<Rightarrow> log_effect list" where
  "log_effects os = concat (map (\<lambda>x. case x of Logger e \<Rightarrow> [e] | _ \<Rightarrow> []) os)"

lemma log_effects_simps [simp]:
  "log_effects [] = []" "log_effects (a @ b) = log_effects a @ log_effects b"
  "log_effects (Printf s # os) = log_effects os" "log_effects (Fprintf_stderr s # os) = log_effects os"
  "log_effects (Logger e # os) = e # log_effects os" "log_effects (map Logger es) = es"
  by (simp_all add: log_effects_def) (induction es; simp)

lemma log_effects_print [simp]: "log_effects (main_print m) = []" "log_effects (concat (map main_print ms)) = []"
proof -
  show *: "log_effects (main_print m) = []" for m by (cases m) simp_all
  show "log_effects (concat (map main_print ms)) = []" by (induction ms) (simp_all add: *)
qed

fun in_sink :: "bool \<Rightarrow> log_effect \<Rightarrow> bool" where
  "in_sink True (Vsyslog prio s) \<longleftrightarrow> True"
| "in_sink False (Fputs_stderr s) \<longleftrightarrow> True"
| "in_sink _ _ \<longleftrightarrow> False"

lemma spoken_in_sink: "\<forall>e\<in>set (log_effects (spoken level st version ctx i ls)). in_sink (g_use_syslog st) e"
proof (induction level st version ctx i ls rule: spoken.induct)
  case (2 level st version ctx i l m ls)
  then show ?case by (cases "g_use_syslog st") (auto simp: log_msg_def Let_def)
qed simp

text \<open>The log so far: \<open>openlog\<close> when syslog was chosen, then messages for the sink that was chosen.\<close>

definition logging :: "bool \<Rightarrow> 'k process \<Rightarrow> bool" where
  "logging b p \<longleftrightarrow> g_use_syslog (p_logger p) = b \<and>
     (\<exists>es. log_effects (p_out p) = (if b then Openlog ''knockd'' # es else es) \<and> (\<forall>e\<in>set es. in_sink b e))"

definition logging_ended :: "bool \<Rightarrow> 'k process \<Rightarrow> bool" where
  "logging_ended b p \<longleftrightarrow>
     (\<exists>es. log_effects (p_out p) = (if b then Openlog ''knockd'' # es @ [Closelog] else es) \<and> (\<forall>e\<in>set es. in_sink b e))"

lemma logging_say: "logging b p \<Longrightarrow> logging b (say_at w level ls p)"
  using spoken_in_sink [of level "p_logger p" "w_version w" "w_ctx w" "p_calls p" ls]
  by (auto simp: logging_def say_at_def split: if_splits)

lemma logging_parts: "logging b p \<Longrightarrow> logging b (say_parts w parts p)"
  by (induction w parts p rule: say_parts.induct) (simp_all add: logging_say)

lemma logging_frame [simp]:
  "logging b (p\<lparr>p_pc := l\<rparr>) = logging b p" "logging b (p\<lparr>p_dmn := d\<rparr>) = logging b p" "logging b (p\<lparr>p_conf := c\<rparr>) = logging b p"
  "logging b (p\<lparr>p_fds := fds\<rparr>) = logging b p" "logging b (p\<lparr>p_exit := n\<rparr>) = logging b p" "logging b (p\<lparr>p_disp := f\<rparr>) = logging b p"
  "logging b (p\<lparr>p_opts := opts\<rparr>) = logging b p" "logging b (jump_to l p) = logging b p"
  by (simp_all add: logging_def jump_to_def)

lemma logging_open: "log_effects (p_out p) = [] \<Longrightarrow> logging b (open_logger b p)"
  by (simp add: logging_def open_logger_def logger_init_def emit_def)

lemma logging_close: "logging b p \<Longrightarrow> logging_ended b (close_logger p)"
  by (auto simp: logging_def logging_ended_def close_logger_def logger_close_def emit_def split: if_splits)

definition log_inv :: "'k world \<Rightarrow> 'k process \<Rightarrow> bool" where
  "log_inv w p \<longleftrightarrow> (if p_pc p = M_Args then log_effects (p_out p) = [] \<and> p_opts p = default_options
     else parsed w = Inr (p_opts p) \<and> w_euid w = 0 \<and> logging (opt_use_syslog (p_opts p)) p)"

definition log_outcome :: "'k world \<Rightarrow> 'k process \<Rightarrow> bool" where
  "log_outcome w p \<longleftrightarrow> (case parsed w of
     Inr opts \<Rightarrow> if w_euid w = 0 then logging_ended (opt_use_syslog opts) p else log_effects (p_out p) = []
   | Inl _ \<Rightarrow> log_effects (p_out p) = [])"

lemma frame_opts [simp]:
  "p_opts (say_at w level ls p) = p_opts p" "p_opts (say_parts w parts p) = p_opts p" "p_opts (jump_to l p) = p_opts p"
  "p_pc (jump_to l p) = l" "p_pc (say_at w level ls p) = p_pc p"
proof -
  show "p_opts (say_parts w parts p) = p_opts p" using say_parts_frame [of w parts p] by auto
qed (simp_all add: say_at_def jump_to_def)

lemma main_args_log:
  assumes "log_inv w p" "p_pc p = M_Args"
  shows "case main_args w p of Alive p' \<Rightarrow> log_inv w p' | Terminated code p' \<Rightarrow> log_outcome w p' | _ \<Rightarrow> True"
proof (cases "parsed w")
  case (Inl r)
  with assms show ?thesis by (auto simp: main_args_def log_inv_def log_outcome_def emit_def split: prod.splits)
next
  case (Inr opts)
  have "logging (opt_use_syslog opts) (open_logger (opt_use_syslog opts) (p\<lparr>p_opts := opts\<rparr>))"
    using assms by (intro logging_open) (simp add: log_inv_def)
  moreover have "p_opts (open_logger b (p\<lparr>p_opts := opts\<rparr>)) = opts" for b by (simp add: open_logger_def logger_init_def emit_def)
  ultimately show ?thesis
    using Inr assms by (simp add: main_args_def log_inv_def log_outcome_def emit_def)
qed

lemma main_step_log:
  assumes inv: "log_inv w p" and st: "main_step w p = Some s"
  shows "case s of Alive p' \<Rightarrow> log_inv w p' | Terminated code p' \<Rightarrow> log_outcome w p' | _ \<Rightarrow> True"
proof (cases "p_pc p = M_Args")
  case True
  with main_args_log [OF inv] st show ?thesis by (simp add: main_step_def)
next
  case False
  then have o: "parsed w = Inr (p_opts p)" "w_euid w = 0" and l: "logging (opt_use_syslog (p_opts p)) p"
    using inv by (simp_all add: log_inv_def)
  have e: "logging (opt_use_syslog (p_opts p)) (emit [Fprintf_stderr t] q)" if "logging (opt_use_syslog (p_opts p)) q" for t q
    using that by (auto simp: logging_def emit_def)
  show ?thesis
  proof (cases "p_pc p")
    case M_Load
    let ?parts = "load_parts (opt_config_file (p_opts p)) (w_files w (opt_config_file (p_opts p))) (p_conf p)"
    note said = logging_parts [OF l, of w ?parts]
    show ?thesis using M_Load st o said
      by (auto simp: main_step_def main_load_def Let_def log_inv_def log_outcome_def
          intro!: logging_close logging_say split: if_splits prod.splits)
  next
    case M_Banner
    then show ?thesis using st o e [OF l] by (auto simp: main_step_def log_inv_def) (simp_all add: emit_def)
  qed (use False st o l in \<open>auto simp: main_step_def main_verbose_def main_start_def main_announce_def main_release_def handle_signal_def Let_def
        log_inv_def log_outcome_def intro!: logging_say logging_close split: if_splits prod.splits\<close>)
qed

lemma process_act_log:
  assumes "log_inv w p" "process_inv w k0 p" "process_act w e p = Some s"
  shows "case s of Alive p' \<Rightarrow> log_inv w p' | Terminated code p' \<Rightarrow> log_outcome w p' | _ \<Rightarrow> True"
proof -
  have t: "log_inv w (say w ls (p\<lparr>p_dmn := d\<rparr>))" if "p_pc p \<noteq> M_Args" for d ls
    using that assms(1) by (auto simp: log_inv_def intro: logging_say)
  show ?thesis
  proof (cases e)
    case Ev_main
    with main_step_log [OF assms(1)] assms(3) show ?thesis by simp
  next
    case (Ev_signal sg)
    with assms show ?thesis by (auto simp: deliver_def log_inv_def split: disposition.splits)
  next
    case (Ev_capture rs now)
    then have "p_pc p \<noteq> M_Args" using assms(3) capture_started_order [OF assms(2)] by (auto split: if_splits)
    with t Ev_capture assms(3) show ?thesis by (auto simp: thread_result_def split: if_splits result.splits)
  next
    case (Ev_process timedout clk)
    with t assms(3) show ?thesis by (auto simp: thread_result_def split: if_splits result.splits)
  qed
qed

lemma process_reach_log:
  "process_reach w (process_entry k0) s \<Longrightarrow> (case s of Alive p \<Rightarrow> log_inv w p | Terminated code p \<Rightarrow> log_outcome w p | _ \<Rightarrow> True)"
proof (induction rule: process_reach.induct)
  case enter
  show ?case by (simp add: log_inv_def process_entry_def)
next
  case (act p e s)
  have "process_inv w k0 p" using process_reach_inv [OF act(1)] by (simp add: status_inv_def)
  with process_act_log [OF _ this act(3)] act show ?case by simp
qed

section \<open>Properties\<close>

text \<open>An environment for the witnesses: no configuration file, a system that grants everything.\<close>

definition demo_world :: "string list \<Rightarrow> (ruleset \<times> nat list) world" where
  "demo_world args = \<lparr>w_prog = ''knockd'', w_version = ''1.0'', w_args = args, w_euid = 0, w_files = (\<lambda>_. None),
     w_boot = demo_env, w_ipt = sim_iptables, w_ctx = (\<lambda>_. ([], None))\<rparr>"

text \<open>
  C8.  The process and the description of a run agree.  The process, executed statement by
  statement with its threads interleaved and with signals arriving at any moment, can end with an
  exit status, a state of the system and a list of closed descriptors exactly when \<open>main_run\<close>, which
  the properties of the whole daemon speak of, has that run.
\<close>

theorem process_implements_main:
  "(\<exists>p. process_reach w (process_entry k0) (Terminated code p) \<and> sys (p_dmn p) = k \<and> p_fds p = fds) \<longleftrightarrow>
   main_run (w_prog w) (w_version w) (w_args w) (w_euid w) (w_files w) (w_boot w) (w_ipt w) k0 code k fds"
  using run_reached [of w k0 code k fds] process_reach_inv [of w k0] by (fastforce simp: status_inv_def)

text \<open>
  C5.  A signal never leaves the firewall behind, and the process never crashes.  If a signal kills
  the process, iptables has not been called, no socket has been opened and no thread started; from
  the moment any of these may have happened, SIGINT and SIGTERM only clear \<open>g_running\<close>, so that the
  clean-up runs, and SIGPIPE is ignored.
\<close>

theorem signals_are_safe:
  assumes "process_reach w (process_entry k0) s"
  shows "case s of
     Killed sg p \<Rightarrow> sys (p_dmn p) = k0 \<and> grants (fw (p_dmn p)) = None \<and> sock_fd (p_dmn p) = - 1 \<and> \<not> capture_started (p_dmn p)
   | Alive p \<Rightarrow> (sys (p_dmn p) \<noteq> k0 \<or> grants (fw (p_dmn p)) \<noteq> None \<or> sock_fd (p_dmn p) \<noteq> - 1 \<or> capture_started (p_dmn p)) \<longrightarrow>
       deliver SIGINT p = Alive (p\<lparr>p_dmn := signal_handler (p_dmn p)\<rparr>) \<and>
       deliver SIGTERM p = Alive (p\<lparr>p_dmn := signal_handler (p_dmn p)\<rparr>) \<and> deliver SIGPIPE p = Alive p
   | Segfault p \<Rightarrow> False
   | Terminated code p \<Rightarrow> True"
proof -
  have u: "sys (p_dmn p) = k0 \<and> grants (fw (p_dmn p)) = None \<and> sock_fd (p_dmn p) = - 1 \<and> \<not> capture_started (p_dmn p)"
    if "process_inv w k0 p" "pc_order (p_pc p) \<le> 7" for p
    using that by (cases "p_pc p")
      (auto simp: process_inv_def progress_def untouched_def static_daemon_def signal_handler_def)
  have d: "p_disp p sg = disposition_at (p_pc p) sg" if "process_inv w k0 p" for p sg
    using that by (simp add: process_inv_def)
  show ?thesis
  proof (cases s)
    case (Alive p)
    then have inv: "process_inv w k0 p" using process_reach_inv [OF assms] by (simp add: status_inv_def)
    show ?thesis using Alive u [OF inv] d [OF inv] by (cases "pc_order (p_pc p) \<le> 7") (auto simp: deliver_def)
  next
    case (Killed sg p)
    then have inv: "process_inv w k0 p" "p_disp p sg = SIG_DFL" using process_reach_inv [OF assms] by (simp_all add: status_inv_def)
    then have "pc_order (p_pc p) \<le> 7" by (cases sg) (auto simp: d split: if_splits)
    with Killed u [OF inv(1)] show ?thesis by simp
  qed (use process_reach_inv [OF assms] in \<open>simp_all add: status_inv_def\<close>)
qed

theorem signals_are_safe_witness:
  "\<exists>p. process_reach (demo_world []) (process_entry (demo_rules, [])) (Killed SIGTERM p) \<and> sys (p_dmn p) = (demo_rules, [])"
proof -
  let ?p = "process_entry (demo_rules, []) :: (ruleset \<times> nat list) process"
  have "process_act (demo_world []) (Ev_signal SIGTERM) ?p = Some (Killed SIGTERM ?p)"
    by (simp add: deliver_def process_entry_def)
  from process_reach.act [OF process_reach.enter _ this]
  have r: "process_reach (demo_world []) ?p (Killed SIGTERM ?p)" by simp
  from signals_are_safe [OF r] r show ?thesis by auto
qed

text \<open>
  C7.  A process that has been told to stop exits.  Once \<open>g_running\<close> is false, wherever \<open>main\<close> is and
  however the threads are scheduled, at most 2586 more steps are taken before \<open>main\<close> returns; and at
  each point a sequence of at most 2587 steps leads to the exit, in which the capture thread's
  \<open>recvfrom\<close> and the processor's wait do nothing but time out.
\<close>

theorem process_exits:
  assumes reach: "process_reach w (process_entry k0) (Alive p)" and stop: "\<not> g_running (p_dmn p)"
    and run: "successively (process_next w) (p # ps)" and p': "p' \<in> set (p # ps)"
  shows "length ps \<le> 2586 \<and>
    (\<exists>es code p''. process_exec w es (Alive p') = Some (Terminated code p'') \<and> length es \<le> 2587 \<and>
       set es \<subseteq> {Ev_main, Ev_capture [Recv_failed EAGAIN] now, Ev_process True clk})"
proof -
  have st: "stopping_process w k0 (hd (p # ps))"
    using process_reach_inv [OF reach] stop by (simp add: stopping_process_def status_inv_def)
  then have "budget_left p \<le> 2586" using budget_bound by (auto simp: stopping_process_def)
  then have "length ps \<le> 2586" using exiting.bounded_run [OF st _ run] by simp
  moreover have l: "stopping_process w k0 p'" by (rule exiting.live_run [OF st run p'])
  moreover have "budget_left p' \<le> 2586" using l budget_bound by (auto simp: stopping_process_def)
  ultimately show ?thesis using exits_within_budget [OF l, of now clk] by force
qed

lemma demo_front: "\<exists>cfg lg ls. front (demo_world []) = Inr (cfg, lg, ls)"
proof -
  have "\<exists>r. front (demo_world []) = Inr r" by (simp add: demo_world_def main_front_def default_options_def split: prod.splits)
  then show ?thesis by auto
qed

theorem process_exits_witness:
  "\<exists>p es code p''. process_reach (demo_world []) (process_entry (demo_rules, [])) (Alive p) \<and> \<not> g_running (p_dmn p) \<and>
     process_exec (demo_world []) es (Alive p) = Some (Terminated code p'')"
proof -
  let ?w = "demo_world []" and ?entry = "process_entry (demo_rules, []) :: (ruleset \<times> nat list) process"
  obtain cfg lg ls where "front ?w = Inr (cfg, lg, ls)" using demo_front by blast
  from reach_start [OF this] obtain p where p: "process_reach ?w ?entry (Alive p)" "p_pc p = M_Start" by blast
  let ?p = "p\<lparr>p_dmn := signal_handler (p_dmn p)\<rparr>"
  have "p_disp p SIGTERM = Handled" using process_reach_inv [OF p(1)] p(2) by (simp add: status_inv_def process_inv_def)
  then have "process_act ?w (Ev_signal SIGTERM) p = Some (Alive ?p)" by (simp add: deliver_def)
  from process_reach.act [OF p(1) _ this] have r: "process_reach ?w ?entry (Alive ?p)" by simp
  have stop: "\<not> g_running (p_dmn ?p)" by (simp add: signal_handler_def)
  have "successively (process_next ?w) [?p]" "?p \<in> set [?p]" by simp_all
  from process_exits [OF r stop this] r stop show ?thesis by blast
qed

text \<open>
  C14.  The log has one destination.  When the process has exited, either it never got as far as the
  logger, or every message went to syslog between one \<open>openlog\<close> and one final \<open>closelog\<close> (with \<open>-s\<close>),
  or every message went to stderr and syslog was never touched.
\<close>

theorem log_has_one_sink:
  assumes "process_reach w (process_entry k0) (Terminated code p)"
  shows "case parse_args (w_prog w) (w_version w) (w_args w) default_options of
     Inl _ \<Rightarrow> log_effects (p_out p) = []
   | Inr opts \<Rightarrow> if w_euid w = 0
       then \<exists>es. log_effects (p_out p) = (if opt_use_syslog opts then Openlog ''knockd'' # es @ [Closelog] else es) \<and>
         (\<forall>e\<in>set es. in_sink (opt_use_syslog opts) e)
       else log_effects (p_out p) = []"
  using process_reach_log [OF assms] unfolding log_outcome_def logging_ended_def by (simp split: sum.splits)

theorem log_has_one_sink_witness:
  "\<exists>p es. process_reach (demo_world [''-s'', ''-c'', ''x'']) (process_entry (demo_rules, [])) (Terminated 1 p) \<and>
     log_effects (p_out p) = Openlog ''knockd'' # es @ [Closelog]"
proof -
  let ?w = "demo_world [''-s'', ''-c'', ''x'']"
  have o: "parsed ?w = Inr (default_options\<lparr>opt_use_syslog := True, opt_config_file := ''x'', opt_config_explicit := True\<rparr>)"
    by (simp add: demo_world_def)
  have "\<exists>ls. front ?w = Inl (1, [], ls)"
    using o by (simp add: main_front_def demo_world_def config_load_def split: prod.splits)
  then obtain ls where "front ?w = Inl (1, [], ls)" by blast
  from reach_refused [OF this, of "(demo_rules, [])"] obtain p
    where r: "process_reach ?w (process_entry (demo_rules, [])) (Terminated 1 p)" by blast
  have "w_euid ?w = 0" by (simp add: demo_world_def)
  with log_has_one_sink [OF r] o r show ?thesis by auto
qed

text \<open>
  C40.  A negative \<open>log_level\<close> silences validation.  \<open>config_validate\<close> resets \<open>LOG_LEVEL\<close> last, and every
  warning it makes is filtered by the level in force at that moment.  So when the file leaves a
  negative value, validation makes at least one warning and the process writes none of them: the
  level is corrected to 2 and a sequence that is too short is replaced by the published default
  without a word.
\<close>

theorem negative_log_level_is_silent:
  assumes "config_wf c" and "LOG_LEVEL c < 0" and "validate_parts c = (c', parts)"
  shows "p_out (say_parts w parts p) = p_out p \<and> warned (concat (map snd parts)) \<and> LOG_LEVEL c' = 2 \<and>
    (KNOCK_SEQ_LEN c < 2 \<longrightarrow> knock_seq c' = [7000, 8000, 9000])"
proof -
  have c': "c' = fst (config_validate c)" and ls: "concat (map snd parts) = snd (config_validate c)"
    by (simp_all add: config_validate_def assms(3))
  note f = config_validate_fields [OF assms(1) c', unfolded config_limits]
  have lvl: "LOG_LEVEL c' = 2" using f(6) assms(2) by simp
  then have "c' \<noteq> c" using assms(2) by auto
  then have w: "warned (concat (map snd parts))" using config_validate_warns [of c] c' ls by auto
  have "p_out (say_parts w parts p) = p_out p"
    by (rule say_parts_below) (use validate_parts_level [OF assms(3) w] assms(2) in simp)
  moreover have "knock_seq c' = [7000, 8000, 9000]" if "KNOCK_SEQ_LEN c < 2" using f(1) that by simp
  ultimately show ?thesis using w lvl by blast
qed

text \<open>A file with two lines: the level, and a sequence that is too short.\<close>

theorem negative_log_level_is_silent_witness:
  "\<exists>c c' parts. read_lines ''f'' initial_config (''log_level = -1'' @ [LF] @ ''sequence = 7000'') = (c, []) \<and>
     validate_parts c = (c', parts) \<and> warned (concat (map snd parts)) \<and> knock_seq c' = [7000, 8000, 9000] \<and>
     p_out (say_parts (demo_world []) parts (process_entry (demo_rules, []))) = []"
proof -
  let ?c = "initial_config\<lparr>LOG_LEVEL := - 1, KNOCK_SEQ_LEN := 1\<rparr>"
  have r: "read_lines ''f'' initial_config (''log_level = -1'' @ [LF] @ ''sequence = 7000'') = (?c, [])" by code_simp
  have wf: "config_wf ?c"
    using initial_config_wf by (simp add: config_wf_def c_int_def c_int_limits config_limits)
  obtain c' parts where v: "validate_parts ?c = (c', parts)" by fastforce
  have out: "p_out (process_entry (demo_rules, [])) = []" by (simp add: process_entry_def)
  from negative_log_level_is_silent [OF wf _ v, of "demo_world []" "process_entry (demo_rules, [])"] r v out
  show ?thesis by auto
qed

end
