(* ===== verification/Two_Files.thy ===== *)
theory Two_Files
  imports Program
begin

text \<open>
  Two configuration files that differ only in the ports of their \<open>sequence\<close> line.  Loading either
  writes the same to the log, and the configurations differ only in the ports.
\<close>

section \<open>Reading a file piece by piece\<close>

definition ends_line :: "string \<Rightarrow> bool" where
  "ends_line s \<longleftrightarrow> s = [] \<or> last s = LF"

lemma fgets_line_app:
  "s \<noteq> [] \<Longrightarrow> ends_line s \<Longrightarrow> fgets_line n (s @ t) = (fst (fgets_line n s), snd (fgets_line n s) @ t)"
  by (induction n s rule: fgets_line.induct) (auto simp: ends_line_def Let_def split: prod.splits if_splits)

lemma ends_line_rest: "ends_line s \<Longrightarrow> ends_line (snd (fgets_line n s))"
  using fgets_line_append [of n s] by (metis ends_line_def last_appendR Nil_is_append_conv)

lemma fgets_app:
  assumes "ends_line s" "fgets n s = Some (line, rest)"
  shows "fgets n (s @ t) = Some (line, rest @ t)" and "ends_line rest"
proof -
  have s: "s \<noteq> []" "fgets_line (n - 1) s = (line, rest)" using assms(2) by (simp_all add: fgets_def split: if_splits)
  show "fgets n (s @ t) = Some (line, rest @ t)"
    using fgets_line_app [OF s(1) assms(1), of "n - 1" t] s by (simp add: fgets_def)
  show "ends_line rest" using ends_line_rest [OF assms(1), of "n - 1"] s(2) by simp
qed

lemma fgets_newline: "LF \<notin> set x \<Longrightarrow> length x < n - 1 \<Longrightarrow> fgets n (x @ LF # t) = Some (x @ [LF], t)"
proof -
  have "LF \<notin> set x \<Longrightarrow> length x < m \<Longrightarrow> fgets_line m (x @ LF # t) = (x @ [LF], t)" for m
  proof (induction x arbitrary: m)
    case Nil
    then show ?case by (cases m) simp_all
  next
    case (Cons a x)
    then show ?case by (cases m) auto
  qed
  then show "LF \<notin> set x \<Longrightarrow> length x < n - 1 \<Longrightarrow> fgets n (x @ LF # t) = Some (x @ [LF], t)"
    by (simp add: fgets_def)
qed

lemma read_lines_Some:
  "fgets LINE_SIZE s = Some (line, rest) \<Longrightarrow>
   fst (read_lines p c s) = fst (read_lines p (fst (config_line p c line)) rest)"
  by (simp add: read_lines.simps [of p c s] split_def Let_def)

lemma read_lines_None: "fgets LINE_SIZE s = None \<Longrightarrow> fst (read_lines p c s) = c"
  by (simp add: read_lines.simps [of p c s])

lemma fgets_None: "fgets n s = None \<longleftrightarrow> s = []"
  by (simp add: fgets_def)

lemma fgets_shorter: "fgets LINE_SIZE s = Some (line, rest) \<Longrightarrow> length rest < length s"
  using fgets_SomeD(3) [of LINE_SIZE s line rest] by (auto simp: LINE_SIZE_def)

lemma read_lines_app:
  "ends_line s \<Longrightarrow> fst (read_lines p c (s @ t)) = fst (read_lines p (fst (read_lines p c s)) t)"
proof (induction s arbitrary: c rule: length_induct)
  case (1 s)
  show ?case
  proof (cases "fgets LINE_SIZE s")
    case None
    then show ?thesis by (simp add: read_lines_None fgets_None)
  next
    case (Some lr)
    obtain line rest where "lr = (line, rest)" by fastforce
    note g = Some [unfolded this]
    with "1.IH" fgets_shorter [OF g] fgets_app(1) [OF "1.prems" g, of t] fgets_app(2) [OF "1.prems" g] show ?thesis
      by (simp add: read_lines_Some [OF g] read_lines_Some [OF fgets_app(1) [OF "1.prems" g]])
  qed
qed

lemma line_parts_app:
  "ends_line s \<Longrightarrow> line_parts p c (s @ t) = line_parts p c s @ line_parts p (fst (read_lines p c s)) t"
proof (induction s arbitrary: c rule: length_induct)
  case (1 s)
  show ?case
  proof (cases "fgets LINE_SIZE s")
    case None
    then have "s = []" by (simp add: fgets_None)
    then show ?thesis by (simp add: read_lines_None fgets_def line_parts.simps [of p c "[]"])
  next
    case (Some lr)
    obtain line rest where "lr = (line, rest)" by fastforce
    note g = Some [unfolded this]
    with "1.IH" fgets_shorter [OF g] fgets_app(1) [OF "1.prems" g, of t] fgets_app(2) [OF "1.prems" g] show ?thesis
      by (simp add: read_lines_Some [OF g] line_parts.simps [of p c s] line_parts.simps [of p c "s @ t"])
  qed
qed

section \<open>What a line does to two configurations\<close>

text \<open>Two configurations that differ at most in the sequence.\<close>

definition same_but_sequence :: "config \<Rightarrow> config \<Rightarrow> bool" where
  "same_but_sequence c d \<longleftrightarrow> PROTECTED_PORT d = PROTECTED_PORT c \<and> ACCESS_TIMEOUT d = ACCESS_TIMEOUT c \<and>
     KNOCK_WINDOW d = KNOCK_WINDOW c \<and> MAX_CLIENTS d = MAX_CLIENTS c \<and> LOG_LEVEL d = LOG_LEVEL c \<and>
     KNOCK_INTERFACE d = KNOCK_INTERFACE c"

lemma same_but_sequence_eq:
  "same_but_sequence c d \<Longrightarrow> KNOCK_SEQUENCE d = KNOCK_SEQUENCE c \<Longrightarrow> KNOCK_SEQ_LEN d = KNOCK_SEQ_LEN c \<Longrightarrow> d = c"
  by (cases c; cases d) (simp add: same_but_sequence_def)

text \<open>What a line logs depends on the line only, and what it sets on nothing else.\<close>

definition paired :: "config \<Rightarrow> config \<Rightarrow> config \<times> config_msg logs \<Rightarrow> config \<times> config_msg logs \<Rightarrow> bool" where
  "paired c d r r' \<longleftrightarrow> snd r' = snd r \<and> (same_but_sequence c d \<longrightarrow> same_but_sequence (fst r) (fst r'))"

lemma paired_if: "paired c d x x' \<Longrightarrow> paired c d y y' \<Longrightarrow> paired c d (if b then x else y) (if b then x' else y')"
  by simp

lemma paired_same: "paired c d (c, ls) (d, ls)"
  by (simp add: paired_def)

lemma paired_int:
  "(\<And>n. same_but_sequence c d \<Longrightarrow> same_but_sequence (upd n c) (upd n d)) \<Longrightarrow> paired c d (set_int upd c r) (set_int upd d r)"
  by (auto simp: paired_def set_int_def split: prod.splits option.splits)

lemma paired_sequence: "paired c d (snd (parse_sequence c val)) (snd (parse_sequence d val))"
  by (auto simp: paired_def parse_sequence_def same_but_sequence_def split: sum.splits)

lemma paired_interface: "paired c d (snd (parse_interface c val)) (snd (parse_interface d val))"
  by (auto simp: paired_def parse_interface_def same_but_sequence_def)

lemma paired_setting: "paired c d (apply_setting p c key val) (apply_setting p d key val)"
  unfolding apply_setting_def
  by (intro paired_if paired_sequence paired_interface paired_same paired_int) (simp_all add: same_but_sequence_def)

lemma config_line_pair: "paired c d (config_line p c buf) (config_line p d buf)"
  by (auto simp: config_line_def Let_def paired_setting paired_same split: option.split)

lemma read_lines_pair:
  "same_but_sequence c d \<Longrightarrow> same_but_sequence (fst (read_lines p c s)) (fst (read_lines p d s)) \<and> line_parts p c s = line_parts p d s"
proof (induction s arbitrary: c d rule: length_induct)
  case (1 s)
  show ?case
  proof (cases "fgets LINE_SIZE s")
    case None
    with "1.prems" show ?thesis by (simp add: read_lines_None line_parts.simps [of p _ s])
  next
    case (Some lr)
    obtain line rest where "lr = (line, rest)" by fastforce
    note g = Some [unfolded this]
    have l: "LOG_LEVEL c = LOG_LEVEL d" using "1.prems" by (simp add: same_but_sequence_def)
    from "1.IH" fgets_shorter [OF g] "1.prems" config_line_pair [of c d p line, unfolded paired_def] g l show ?thesis
      by (auto simp: read_lines_Some [OF g] line_parts.simps [of p _ s])
  qed
qed

section \<open>Renaming the ports of the sequence\<close>

text \<open>The sequence is the meaningful part of the array; what is behind it stays.\<close>

definition rename_config :: "(port \<Rightarrow> port) \<Rightarrow> config \<Rightarrow> config" where
  "rename_config f c = c\<lparr>KNOCK_SEQUENCE := map f (knock_seq c) @ drop (KNOCK_SEQ_LEN c) (KNOCK_SEQUENCE c)\<rparr>"

lemma rename_config_sel [simp]:
  "KNOCK_SEQ_LEN (rename_config f c) = KNOCK_SEQ_LEN c"
  "PROTECTED_PORT (rename_config f c) = PROTECTED_PORT c" "ACCESS_TIMEOUT (rename_config f c) = ACCESS_TIMEOUT c"
  "KNOCK_WINDOW (rename_config f c) = KNOCK_WINDOW c" "MAX_CLIENTS (rename_config f c) = MAX_CLIENTS c"
  "LOG_LEVEL (rename_config f c) = LOG_LEVEL c" "KNOCK_INTERFACE (rename_config f c) = KNOCK_INTERFACE c"
  by (simp_all add: rename_config_def)

lemma rename_config_nth:
  "config_wf c \<Longrightarrow> i < KNOCK_SEQ_LEN c \<Longrightarrow> KNOCK_SEQUENCE (rename_config f c) ! i = f (KNOCK_SEQUENCE c ! i)"
  by (simp add: rename_config_def config_wf_def nth_append)

lemma knock_seq_rename: "config_wf c \<Longrightarrow> knock_seq (rename_config f c) = map f (knock_seq c)"
  by (simp add: rename_config_def config_wf_def)

lemma config_wf_rename: "config_wf c \<Longrightarrow> config_wf (rename_config f c)"
  by (simp add: config_wf_def) (simp add: rename_config_def)

section \<open>The line that sets the sequence\<close>

definition sequence_line :: "port list \<Rightarrow> string" where
  "sequence_line ps = ''sequence = '' @ print_ports ps @ [LF]"

text \<open>The whole file: anything up to a line boundary, the sequence, anything after it.\<close>

definition sequence_file :: "string \<Rightarrow> port list \<Rightarrow> string \<Rightarrow> string" where
  "sequence_file pre ps post = pre @ sequence_line ps @ post"

definition keeps_sequence :: "string \<Rightarrow> string \<Rightarrow> bool" where
  "keeps_sequence p post \<longleftrightarrow> (\<forall>c. KNOCK_SEQUENCE (fst (read_lines p c post)) = KNOCK_SEQUENCE c \<and>
     KNOCK_SEQ_LEN (fst (read_lines p c post)) = KNOCK_SEQ_LEN c)"

lemma digit_plain: "isdigit ch \<Longrightarrow> ch \<notin> {CHR ''#'', CR, LF, NUL} \<and> \<not> is_blank ch"
  by (auto simp: isdigit_def is_blank_def CR_def LF_def NUL_def TAB_def)

lemma dec_plain: "ch \<in> set (dec_of_nat n) \<Longrightarrow> ch \<notin> {CHR ''#'', CR, LF, NUL} \<and> \<not> is_blank ch"
  by (rule digit_plain [OF dec_of_nat_digits])

lemma print_ports_chars: "ch \<in> set (print_ports ps) \<Longrightarrow> ch \<notin> {CHR ''#'', CR, LF, NUL}"
proof (induction ps rule: print_ports.induct)
  case (3 p q ps)
  then show ?case using dec_plain [of ch "unat p"] by (auto simp: CR_def LF_def NUL_def)
qed (use dec_plain in auto)

lemma print_ports_ends:
  "ps \<noteq> [] \<Longrightarrow> print_ports ps \<noteq> [] \<and> \<not> is_blank (hd (print_ports ps)) \<and> \<not> is_blank (last (print_ports ps))"
proof (induction ps rule: print_ports.induct)
  case (2 p)
  then show ?case using dec_plain dec_of_nat_nonempty [of "unat p"] by (metis hd_in_set last_in_set print_ports.simps(2))
next
  case (3 p q ps)
  have "\<not> is_blank (hd (dec_of_nat (unat p)))" using dec_plain dec_of_nat_nonempty [of "unat p"] by (metis hd_in_set)
  with 3 show ?case by simp
qed simp

lemma print_ports_plain: "ps \<noteq> [] \<Longrightarrow> plain_value (print_ports ps)"
  using print_ports_ends [of ps] print_ports_chars by (auto simp: plain_value_def)

lemma sequence_line_sets:
  assumes "ps \<noteq> []" "length ps \<le> 16" "0 \<notin> set ps"
  shows "config_line p c (sequence_line ps) =
    (c\<lparr>KNOCK_SEQUENCE := memcpy_prefix (KNOCK_SEQUENCE c) ps, KNOCK_SEQ_LEN := length ps\<rparr>, [])"
proof -
  have "config_line p c ([] @ ''sequence'' @ '' '' @ CHR ''='' # '' '' @ print_ports ps @ [] @ [LF]) =
      apply_setting p c ''sequence'' (print_ports ps)"
    by (rule config_line_plain)
      (simp_all add: is_blank_def key_char_def line_tail_def TAB_def CR_def LF_def NUL_def print_ports_plain [OF assms(1)])
  moreover have "parse_sequence c (print_ports ps) =
      (True, c\<lparr>KNOCK_SEQUENCE := memcpy_prefix (KNOCK_SEQUENCE c) ps, KNOCK_SEQ_LEN := length ps\<rparr>, [])"
    using parse_ports_print [of ps "[]" "[]"] length_print_ports [of ps] assms
    by (simp add: parse_sequence_def MAX_KNOCK_SEQ_LEN_def)
  ultimately show ?thesis by (simp add: sequence_line_def apply_setting_def)
qed

lemma sequence_line_read:
  assumes "length ps \<le> 16"
  shows "fgets LINE_SIZE (sequence_line ps @ t) = Some (sequence_line ps, t)"
proof -
  have "LF \<notin> set (''sequence = '' @ print_ports ps)" using print_ports_chars [of LF ps] by (auto simp: LF_def)
  moreover have "length (''sequence = '' @ print_ports ps) < LINE_SIZE - 1"
    using length_print_ports [of ps] assms by (simp add: LINE_SIZE_def)
  ultimately have "fgets LINE_SIZE ((''sequence = '' @ print_ports ps) @ LF # t) = Some ((''sequence = '' @ print_ports ps) @ [LF], t)"
    by (rule fgets_newline)
  then show ?thesis by (simp add: sequence_line_def)
qed

section \<open>The pair of files\<close>

definition proper_sequence :: "port list \<Rightarrow> bool" where
  "proper_sequence ps \<longleftrightarrow> 2 \<le> length ps \<and> length ps \<le> 16 \<and> distinct ps \<and> 0 \<notin> set ps"

lemma proper_sequence_rename:
  "inj f \<Longrightarrow> f 0 = 0 \<Longrightarrow> proper_sequence ps \<Longrightarrow> proper_sequence (map f ps)"
  by (auto simp: proper_sequence_def distinct_map intro: inj_on_subset) (metis injD)

lemma sequence_file_read:
  assumes pre: "ends_line pre" and ps: "proper_sequence ps" and d: "d = fst (read_lines p c pre)"
    and e: "e = d\<lparr>KNOCK_SEQUENCE := memcpy_prefix (KNOCK_SEQUENCE d) ps, KNOCK_SEQ_LEN := length ps\<rparr>"
  shows "fst (read_lines p c (sequence_file pre ps post)) = fst (read_lines p e post)"
    and "line_parts p c (sequence_file pre ps post) = line_parts p c pre @ (LOG_LEVEL d, []) # line_parts p e post"
proof -
  have l: "length ps \<le> 16" and sets: "config_line p d (sequence_line ps) = (e, [])"
    using ps sequence_line_sets [of ps p d] by (cases ps; simp add: proper_sequence_def e)+
  note r = sequence_line_read [OF l, of post]
  show "fst (read_lines p c (sequence_file pre ps post)) = fst (read_lines p e post)"
    unfolding sequence_file_def read_lines_app [OF pre] d [symmetric] read_lines_Some [OF r] sets by simp
  show "line_parts p c (sequence_file pre ps post) = line_parts p c pre @ (LOG_LEVEL d, []) # line_parts p e post"
    unfolding sequence_file_def line_parts_app [OF pre] d [symmetric]
    by (simp add: line_parts.simps [of p d "sequence_line ps @ post"] r sets)
qed

lemma sequence_file_pair:
  assumes f: "inj f" "f 0 = 0" and pre: "ends_line pre" and post: "keeps_sequence p post" and ps: "proper_sequence ps"
  shows "fst (read_lines p c (sequence_file pre (map f ps) post)) = rename_config f (fst (read_lines p c (sequence_file pre ps post)))"
    and "line_parts p c (sequence_file pre (map f ps) post) = line_parts p c (sequence_file pre ps post)"
    and "knock_seq (fst (read_lines p c (sequence_file pre ps post))) = ps"
proof -
  define d where "d = fst (read_lines p c pre)"
  define e where "e qs = d\<lparr>KNOCK_SEQUENCE := memcpy_prefix (KNOCK_SEQUENCE d) qs, KNOCK_SEQ_LEN := length qs\<rparr>" for qs
  note one = sequence_file_read [OF pre ps d_def e_def, of post]
  note two = sequence_file_read [OF pre proper_sequence_rename [of f, OF f ps] d_def e_def, of post]
  let ?r = "\<lambda>qs. fst (read_lines p (e qs) post)"
  have "same_but_sequence (e ps) (e (map f ps))" by (simp add: same_but_sequence_def e_def)
  note pair = read_lines_pair [OF this, of p post]
  have seq: "KNOCK_SEQUENCE (?r qs) = memcpy_prefix (KNOCK_SEQUENCE d) qs" "KNOCK_SEQ_LEN (?r qs) = length qs" for qs
    using post by (simp_all add: keeps_sequence_def e_def)
  have "?r (map f ps) = rename_config f (?r ps)"
  proof (rule same_but_sequence_eq)
    show "same_but_sequence (rename_config f (?r ps)) (?r (map f ps))" using pair by (simp add: same_but_sequence_def)
    show "KNOCK_SEQUENCE (?r (map f ps)) = KNOCK_SEQUENCE (rename_config f (?r ps))"
      unfolding rename_config_def by (simp add: seq memcpy_prefix_def)
  qed (simp add: seq)
  then show "fst (read_lines p c (sequence_file pre (map f ps) post)) = rename_config f (fst (read_lines p c (sequence_file pre ps post)))"
    unfolding one two .
  show "line_parts p c (sequence_file pre (map f ps) post) = line_parts p c (sequence_file pre ps post)"
    unfolding one two using pair by simp
  show "knock_seq (fst (read_lines p c (sequence_file pre ps post))) = ps" unfolding one by (simp add: seq)
qed

section \<open>Validation of the pair\<close>

text \<open>The warnings name the protected port if it is a knock port, and its place in the sequence.  So the
  renaming has to leave the protected port alone.\<close>

definition fixes_port :: "(port \<Rightarrow> port) \<Rightarrow> int \<Rightarrow> bool" where
  "fixes_port f n \<longleftrightarrow> (\<forall>x. uint x = n \<longrightarrow> f x = x)"

lemma warn_port_rename:
  assumes "inj f" "config_wf c" "fixes_port f (PROTECTED_PORT c)"
  shows "warn_port_in_sequence (rename_config f c) = warn_port_in_sequence c"
proof -
  have "uint (f x) = PROTECTED_PORT c \<longleftrightarrow> uint x = PROTECTED_PORT c" for x
    using assms(1,3) unfolding fixes_port_def by (metis injD)
  then have "filter (\<lambda>i. uint (KNOCK_SEQUENCE (rename_config f c) ! i) = PROTECTED_PORT c) [0..<KNOCK_SEQ_LEN c] =
      filter (\<lambda>i. uint (KNOCK_SEQUENCE c ! i) = PROTECTED_PORT c) [0..<KNOCK_SEQ_LEN c]"
    by (intro filter_cong) (simp_all add: rename_config_nth [OF assms(2)])
  then show ?thesis by (simp add: warn_port_in_sequence_def)
qed

lemma rename_config_update:
  "(rename_config f c)\<lparr>PROTECTED_PORT := n\<rparr> = rename_config f (c\<lparr>PROTECTED_PORT := n\<rparr>)"
  "(rename_config f c)\<lparr>ACCESS_TIMEOUT := n\<rparr> = rename_config f (c\<lparr>ACCESS_TIMEOUT := n\<rparr>)"
  "(rename_config f c)\<lparr>KNOCK_WINDOW := n\<rparr> = rename_config f (c\<lparr>KNOCK_WINDOW := n\<rparr>)"
  "(rename_config f c)\<lparr>MAX_CLIENTS := n\<rparr> = rename_config f (c\<lparr>MAX_CLIENTS := n\<rparr>)"
  "(rename_config f c)\<lparr>LOG_LEVEL := n\<rparr> = rename_config f (c\<lparr>LOG_LEVEL := n\<rparr>)"
  by (simp_all add: rename_config_def)

lemma validate_blocks_rename:
  "validate_port (rename_config f c) = (rename_config f (fst (validate_port c)), snd (validate_port c))"
  "validate_timeout (rename_config f c) = (rename_config f (fst (validate_timeout c)), snd (validate_timeout c))"
  "validate_window (rename_config f c) = (rename_config f (fst (validate_window c)), snd (validate_window c))"
  "validate_max_clients (rename_config f c) = (rename_config f (fst (validate_max_clients c)), snd (validate_max_clients c))"
  "validate_log_level (rename_config f c) = (rename_config f (fst (validate_log_level c)), snd (validate_log_level c))"
  by (simp_all add: validate_port_def validate_timeout_def validate_window_def validate_max_clients_def
      validate_log_level_def rename_config_update)

lemma validate_sequence_proper:
  assumes "config_wf c" "proper_sequence (knock_seq c)"
  shows "validate_sequence c = (c, [])"
proof -
  have "KNOCK_SEQ_LEN c \<le> length (KNOCK_SEQUENCE c)" using assms(1) by (simp add: config_wf_def)
  then have "sequence_problem c = None"
    using assms unfolding sequence_problem_None_iff [OF assms(1)] by (simp add: proper_sequence_def)
  then show ?thesis by (simp add: validate_sequence_def)
qed

lemma validate_parts_rename:
  assumes f: "inj f" "f 0 = 0" and wf: "config_wf c" and seq: "proper_sequence (knock_seq c)"
    and port: "fixes_port f (PROTECTED_PORT (fst (validate_parts c)))"
  shows "validate_parts (rename_config f c) = (rename_config f (fst (validate_parts c)), snd (validate_parts c))"
proof -
  have "proper_sequence (knock_seq (rename_config f c))"
    unfolding knock_seq_rename [OF wf] by (rule proper_sequence_rename [of f, OF f seq])
  note v = validate_sequence_proper [OF wf seq] validate_sequence_proper [OF config_wf_rename [OF wf] this]
  let ?c = "fst (validate_port c)"
  have "PROTECTED_PORT (fst (validate_parts c)) = PROTECTED_PORT ?c"
    by (simp add: validate_parts_def Let_def split_def v fst_validate_fields)
  moreover have "config_wf ?c" using wf by (auto simp: fst_validate_fields config_wf_def c_int_def c_int_limits config_limits)
  ultimately have "warn_port_in_sequence (rename_config f ?c) = warn_port_in_sequence ?c"
    using port by (intro warn_port_rename [OF f(1)]) simp_all
  then show ?thesis by (simp add: validate_parts_def Let_def split_def v validate_blocks_rename)
qed

section \<open>Loading the pair\<close>

lemma load_pair:
  assumes f: "inj f" "f 0 = 0" and pre: "ends_line pre" and post: "keeps_sequence path post" and ps: "proper_sequence ps"
    and F: "file_bytes F = sequence_file pre ps post" and load: "config_load path (Some F) initial_config = (rc, cfg, ls)"
    and port: "fixes_port f (PROTECTED_PORT cfg)"
  shows "load_parts path (Some (F\<lparr>file_bytes := sequence_file pre (map f ps) post\<rparr>)) initial_config = load_parts path (Some F) initial_config"
    and "\<exists>ls'. config_load path (Some (F\<lparr>file_bytes := sequence_file pre (map f ps) post\<rparr>)) initial_config = (rc, rename_config f cfg, ls')"
proof -
  let ?c = "fst (read_lines path initial_config (file_bytes F))"
  note pair = sequence_file_pair [of f, OF f pre post ps, of initial_config]
  have wf: "config_wf ?c" by (rule read_lines_wf) simp
  have cfg: "rc = 0" "cfg = fst (validate_parts ?c)"
    using load by (auto simp: config_load_def config_validate_def Let_def split: prod.splits)
  have v: "validate_parts (rename_config f ?c) = (rename_config f (fst (validate_parts ?c)), snd (validate_parts ?c))"
    by (rule validate_parts_rename [of f, OF f wf]) (use pair(3) ps port F cfg in simp_all)
  show "load_parts path (Some (F\<lparr>file_bytes := sequence_file pre (map f ps) post\<rparr>)) initial_config = load_parts path (Some F) initial_config"
    using v by (simp add: load_parts_def Let_def F pair(1,2))
  show "\<exists>ls'. config_load path (Some (F\<lparr>file_bytes := sequence_file pre (map f ps) post\<rparr>)) initial_config = (rc, rename_config f cfg, ls')"
    using v pair(1) cfg F by (auto simp: config_load_def config_validate_def Let_def split: prod.splits)
qed

end
