(* ===== verification/Secrecy.thy ===== *)
theory Secrecy
  imports Two_Files
begin

text \<open>
  The secret is the sequence of ports.  An observer of everything the process writes, and of all its
  iptables commands do, learns nothing about which ports they are, below debug level and unless the
  protected port is one of them: replacing the ports of the configuration file and of the arriving
  packets by others, one to one, changes none of it.  Each function of the program commutes with
  such a renaming \<open>f\<close>.
\<close>

section \<open>Renaming the ports\<close>

text \<open>In a frame the port is two bytes of the transport header, in network byte order.\<close>

definition set_port :: "(port \<Rightarrow> port) \<Rightarrow> byte list \<Rightarrow> nat \<Rightarrow> byte list" where
  "set_port f buf i = (if i + 1 < length buf
     then (let w = f (ntohs (le16 (buf ! i) (buf ! (i + 1)))) in buf[i := be16 w ! 0, i + 1 := be16 w ! 1])
     else buf)"

definition rename_frame :: "(port \<Rightarrow> port) \<Rightarrow> nat \<Rightarrow> 16 word \<Rightarrow> byte list \<Rightarrow> byte list" where
  "rename_frame f len hatype buf = (case find_ip_offset buf len hatype of
     Some (Some off) \<Rightarrow> set_port f buf (off + unat (buf ! off) mod 16 * 4 + 2)
   | _ \<Rightarrow> buf)"

fun rename_recv :: "(port \<Rightarrow> port) \<Rightarrow> recv \<Rightarrow> recv" where
  "rename_recv f (Recv_failed errno) = Recv_failed errno"
| "rename_recv f (Received n buf sll) =
     Received n (rename_frame f (if n > PKT_BUF_SIZE then PKT_BUF_SIZE else n) (sll_hatype sll) buf) sll"

fun rename_verdict :: "(port \<Rightarrow> port) \<Rightarrow> verdict \<Rightarrow> verdict" where
  "rename_verdict f Skip = Skip"
| "rename_verdict f (Report name ip p) = Report name ip (f p)"

fun rename_sniffer_rc :: "(port \<Rightarrow> port) \<Rightarrow> sniffer_rc \<Rightarrow> sniffer_rc" where
  "rename_sniffer_rc f (SNIFFER_OK ip p) = SNIFFER_OK ip (f p)"
| "rename_sniffer_rc f rc = rc"

definition rename_event :: "(port \<Rightarrow> port) \<Rightarrow> knock_event_t \<Rightarrow> knock_event_t" where
  "rename_event f e = e\<lparr>dst_port := f (dst_port e)\<rparr>"

definition rename_queue :: "(port \<Rightarrow> port) \<Rightarrow> pktqueue \<Rightarrow> pktqueue" where
  "rename_queue f q = q\<lparr>ring := map (rename_event f) (ring q)\<rparr>"

definition rename_client :: "(port \<Rightarrow> port) \<Rightarrow> knock_client_t \<Rightarrow> knock_client_t" where
  "rename_client f c = c\<lparr>last_port := f (last_port c)\<rparr>"

fun rename_record :: "(port \<Rightarrow> port) \<Rightarrow> knock_record \<Rightarrow> knock_record" where
  "rename_record f (t, ip, p, r) = (t, ip, f p, r)"

fun rename_capture :: "(port \<Rightarrow> port) \<Rightarrow> capture_pc \<Rightarrow> capture_pc" where
  "rename_capture f (C_Push e) = C_Push (rename_event f e)"
| "rename_capture f pc = pc"

fun rename_processor :: "(port \<Rightarrow> port) \<Rightarrow> processor_pc \<Rightarrow> processor_pc" where
  "rename_processor f (P_Event e) = P_Event (rename_event f e)"
| "rename_processor f pc = pc"

definition rename_daemon :: "(port \<Rightarrow> port) \<Rightarrow> 'k daemon \<Rightarrow> 'k daemon" where
  "rename_daemon f d = d\<lparr>queue := rename_queue f (queue d), clients := map_option (map (rename_client f)) (clients d),
     capture := rename_capture f (capture d), processor := rename_processor f (processor d),
     accepted := map (rename_event f) (accepted d), history := map (rename_record f) (history d)\<rparr>"

text \<open>The renamed process has written the same.\<close>

definition rename_process :: "(port \<Rightarrow> port) \<Rightarrow> 'k process \<Rightarrow> 'k process" where
  "rename_process f p = p\<lparr>p_conf := rename_config f (p_conf p), p_dmn := rename_daemon f (p_dmn p)\<rparr>"

fun rename_status :: "(port \<Rightarrow> port) \<Rightarrow> 'k status \<Rightarrow> 'k status" where
  "rename_status f (Alive p) = Alive (rename_process f p)"
| "rename_status f (Terminated code p) = Terminated code (rename_process f p)"
| "rename_status f (Killed sg p) = Killed sg (rename_process f p)"
| "rename_status f (Segfault p) = Segfault (rename_process f p)"

fun rename_arrival :: "(port \<Rightarrow> port) \<Rightarrow> event \<Rightarrow> event" where
  "rename_arrival f (Ev_capture rs now) = Ev_capture (map (rename_recv f) rs) now"
| "rename_arrival f e = e"

section \<open>The sniffer\<close>

lemma byte_at_set_port: "j \<noteq> i \<Longrightarrow> j \<noteq> i + 1 \<Longrightarrow> byte_at (set_port f buf i) j = byte_at buf j"
  by (simp add: set_port_def byte_at_def Let_def)

lemma load16_set_port: "load16 (set_port f buf i) i = map_option (\<lambda>w. ntohs (f (ntohs w))) (load16 buf i)"
proof (cases "i + 1 < length buf")
  case True
  let ?w = "f (ntohs (le16 (buf ! i) (buf ! (i + 1))))"
  obtain b0 b1 where b: "be16 ?w = [b0, b1]" "ntohs (le16 b0 b1) = ?w" using be16_pair by blast
  then have "le16 b0 b1 = ntohs ?w" by (metis ntohs_ntohs)
  with True b show ?thesis by (simp add: set_port_def load16_def byte_at_def)
qed (simp add: set_port_def load16_def byte_at_def)

lemma find_ip_offset_set_port: "14 < i \<Longrightarrow> find_ip_offset (set_port f buf i) len hatype = find_ip_offset buf len hatype"
  by (cases "byte_at buf 12"; cases "byte_at buf 13") (simp_all add: find_ip_offset_def load16_def byte_at_set_port header_sizes)

lemma is_knock_port_rename:
  assumes "inj f" "config_wf cfg"
  shows "is_knock_port (rename_config f cfg) (f p) = is_knock_port cfg p"
proof -
  have "first_index (\<lambda>i. KNOCK_SEQUENCE (rename_config f cfg) ! i = f p) 0 (KNOCK_SEQ_LEN cfg) =
      first_index (\<lambda>i. KNOCK_SEQUENCE cfg ! i = p) 0 (KNOCK_SEQ_LEN cfg)"
    by (rule first_index_cong) (use assms in \<open>simp add: rename_config_nth inj_eq\<close>)
  then show ?thesis by (simp add: is_knock_port_def)
qed

lemma transport_verdict_rename:
  assumes f: "inj f" "config_wf cfg" and l4: "off + 20 \<le> l4"
  shows "transport_verdict (rename_config f cfg) (set_port f buf (l4 + 2)) len off l4 protocol =
    map_option (rename_verdict f) (transport_verdict cfg buf len off l4 protocol)"
proof -
  define buf' where "buf' = set_port f buf (l4 + 2)"
  have same: "load32 buf' (off + 12) = load32 buf (off + 12)" "byte_at buf' (l4 + 13) = byte_at buf (l4 + 13)"
    "load16 buf' (l4 + 2) = map_option (\<lambda>w. ntohs (f (ntohs w))) (load16 buf (l4 + 2))"
    using l4 unfolding buf'_def load16_set_port by (simp_all add: load32_def byte_at_set_port)
  have r: "report_knock (rename_config f cfg) buf' off name (f p) = map_option (rename_verdict f) (report_knock cfg buf off name p)"
    for name p
    by (cases "load32 buf (off + 12)") (simp_all add: report_knock_def same is_knock_port_rename [OF f])
  show ?thesis
    unfolding transport_verdict_def buf'_def [symmetric] same
    by (cases "byte_at buf (l4 + 13)"; cases "load16 buf (l4 + 2)") (simp_all add: r ntohs_ntohs)
qed

lemma find_ip_offset_SomeD:
  "find_ip_offset buf len hatype = Some (Some off) \<Longrightarrow> \<exists>b. byte_at buf off = Some b \<and> 5 \<le> unat b mod 16"
  by (auto simp: find_ip_offset_def Let_def split: if_splits option.splits bind_splits)

lemma frame_verdict_rename:
  assumes f: "inj f" "config_wf cfg"
  shows "frame_verdict (rename_config f cfg) (rename_frame f len hatype buf) len hatype =
    map_option (rename_verdict f) (frame_verdict cfg buf len hatype)"
proof (cases "find_ip_offset buf len hatype")
  case None
  then show ?thesis by (simp add: frame_verdict_def rename_frame_def)
next
  case (Some r)
  show ?thesis
  proof (cases r)
    case None
    with Some show ?thesis by (simp add: frame_verdict_def rename_frame_def)
  next
    case (Some off)
    then have o: "find_ip_offset buf len hatype = Some (Some off)" using \<open>find_ip_offset buf len hatype = Some r\<close> by simp
    obtain b where b: "byte_at buf off = Some b" "5 \<le> unat b mod 16" using find_ip_offset_SomeD [OF o] by blast
    then have nth: "buf ! off = b" by (simp add: byte_at_def split: if_splits)
    let ?l4 = "off + unat b mod 16 * 4"
    have l4: "off + 20 \<le> ?l4" using b(2) by simp
    define buf' where "buf' = set_port f buf (?l4 + 2)"
    have ren: "rename_frame f len hatype buf = buf'" by (simp add: rename_frame_def o nth buf'_def)
    have same: "find_ip_offset buf' len hatype = Some (Some off)" "byte_at buf' off = Some b"
      "load16 buf' (off + 6) = load16 buf (off + 6)" "byte_at buf' (off + 9) = byte_at buf (off + 9)"
      using l4 b o by (simp_all add: buf'_def find_ip_offset_set_port byte_at_set_port load16_def)
    have tv: "transport_verdict (rename_config f cfg) buf' len off ?l4 protocol =
        map_option (rename_verdict f) (transport_verdict cfg buf len off ?l4 protocol)" for protocol
      unfolding buf'_def by (rule transport_verdict_rename [OF f l4])
    show ?thesis
      unfolding ren frame_verdict_def
      by (cases "load16 buf (off + 6)"; cases "byte_at buf (off + 9)") (simp_all add: same o b tv Let_def)
  qed
qed

lemma packet_verdict_rename:
  assumes f: "inj f" "config_wf cfg"
  shows "packet_verdict (rename_config f cfg) ifi n (rename_frame f (if n > PKT_BUF_SIZE then PKT_BUF_SIZE else n) (sll_hatype sll) buf) sll =
    map_option (rename_verdict f) (packet_verdict cfg ifi n buf sll)"
  using frame_verdict_rename [OF f] by (simp add: packet_verdict_def Let_def)

abbreviation rename_sniffer_log :: "(port \<Rightarrow> port) \<Rightarrow> sniffer_msg logs \<Rightarrow> sniffer_msg logs" where
  "rename_sniffer_log f ls \<equiv> map (\<lambda>(l, m). (l, case m of Knock_seen n ip p \<Rightarrow> Knock_seen n ip (f p) | _ \<Rightarrow> m)) ls"

fun rename_sniff :: "(port \<Rightarrow> port) \<Rightarrow> sniff \<Rightarrow> sniff" where
  "rename_sniff f (Returned rc rs ls) = Returned (rename_sniffer_rc f rc) (map (rename_recv f) rs) (rename_sniffer_log f ls)"
| "rename_sniff f s = s"

lemma sniffer_next_knock_rename:
  assumes f: "inj f" "config_wf cfg"
  shows "sniffer_next_knock (rename_config f cfg) ifi (map (rename_recv f) rs) = rename_sniff f (sniffer_next_knock cfg ifi rs)"
  using assms
proof (induction cfg ifi rs rule: sniffer_next_knock.induct)
  case (3 cfg ifi n buf sll rs)
  note v = packet_verdict_rename [OF "3.prems", of ifi n sll buf]
  show ?case
  proof (cases "packet_verdict cfg ifi n buf sll")
    case None
    with v show ?thesis by simp
  next
    case (Some x)
    with v "3.IH" [OF Some] "3.prems" show ?thesis by (cases x) (simp_all del: if_split)
  qed
qed simp_all

lemma rename_recv_ok: "recv_ok r \<Longrightarrow> recv_ok (rename_recv f r)"
  by (cases r) (auto simp: rename_frame_def set_port_def Let_def split: option.splits)

section \<open>The state machine\<close>

fun rename_knocker_msg :: "(port \<Rightarrow> port) \<Rightarrow> knocker_msg \<Rightarrow> knocker_msg" where
  "rename_knocker_msg f (Does_not_start_sequence ip p) = Does_not_start_sequence ip (f p)"
| "rename_knocker_msg f (Ignored_as_retransmit ip p) = Ignored_as_retransmit ip (f p)"
| "rename_knocker_msg f (Progress_discarded ip p) = Progress_discarded ip (f p)"
| "rename_knocker_msg f m = m"

abbreviation rename_knocker_log :: "(port \<Rightarrow> port) \<Rightarrow> knocker_msg logs \<Rightarrow> knocker_msg logs" where
  "rename_knocker_log f ls \<equiv> map (\<lambda>(l, m). (l, rename_knocker_msg f m)) ls"

lemma rename_client_sel [simp]:
  "c_ip (rename_client f c) = c_ip c" "current_step (rename_client f c) = current_step c"
  "last_knock (rename_client f c) = last_knock c" "last_port (rename_client f c) = f (last_port c)"
  "c_active (rename_client f c) = c_active c"
  by (simp_all add: rename_client_def)

lemma rename_client_update [simp]:
  "(rename_client f c)\<lparr>current_step := n\<rparr> = rename_client f (c\<lparr>current_step := n\<rparr>)"
  "(rename_client f c)\<lparr>last_knock := t\<rparr> = rename_client f (c\<lparr>last_knock := t\<rparr>)"
  "(rename_client f c)\<lparr>last_port := f p\<rparr> = rename_client f (c\<lparr>last_port := p\<rparr>)"
  "(rename_client f c)\<lparr>c_active := b\<rparr> = rename_client f (c\<lparr>c_active := b\<rparr>)"
  "(rename_client f c)\<lparr>c_ip := ip\<rparr> = rename_client f (c\<lparr>c_ip := ip\<rparr>)"
  by (simp_all add: rename_client_def)

lemma rename_zero_client: "f 0 = 0 \<Longrightarrow> rename_client f zero_client = zero_client"
  by (simp add: rename_client_def zero_client_def)

lemma advance_client_rename:
  assumes f: "inj f" and wf: "config_wf cfg" and c: "current_step c < KNOCK_SEQ_LEN cfg"
    and adv: "advance_client cfg now ip port c = (r, c', ls)"
  shows "advance_client (rename_config f cfg) now ip (f port) (rename_client f c) = (r, rename_client f c', rename_knocker_log f ls)"
proof -
  have nth: "KNOCK_SEQUENCE (rename_config f cfg) ! current_step c = f (KNOCK_SEQUENCE cfg ! current_step c)"
    "KNOCK_SEQUENCE (rename_config f cfg) ! 0 = f (KNOCK_SEQUENCE cfg ! 0)"
    by (rule rename_config_nth [OF wf]; use c in linarith)+
  have "advance_client (rename_config f cfg) now ip (f port) (rename_client f c) =
      (case advance_client cfg now ip port c of (r, c', ls) \<Rightarrow> (r, rename_client f c', rename_knocker_log f ls))"
    by (simp add: advance_client_def Let_def nth inj_eq [OF f])
  with adv show ?thesis by simp
qed

lemma find_client_rename:
  "length tbl = nat (MAX_CLIENTS cfg) \<Longrightarrow> find_client (rename_config f cfg) (map (rename_client f) tbl) ip = find_client cfg tbl ip"
  unfolding find_client_def rename_config_sel by (rule first_index_cong) simp

lemma alloc_scan_rename:
  "i + n \<le> length tbl \<Longrightarrow> (\<And>k. oldest = Some k \<Longrightarrow> k < length tbl) \<Longrightarrow>
   alloc_scan (map (rename_client f) tbl) i n oldest = alloc_scan tbl i n oldest"
  by (induction tbl i n oldest rule: alloc_scan.induct) (auto split: option.splits)

lemma alloc_client_rename:
  assumes f: "f 0 = 0" and len: "length tbl = nat (MAX_CLIENTS cfg)"
  shows "alloc_client (rename_config f cfg) now (map (rename_client f) tbl) =
    (case alloc_client cfg now tbl of (r, ls) \<Rightarrow> (map_option (\<lambda>(i, t). (i, map (rename_client f) t)) r, ls))"
proof -
  have s: "alloc_scan (map (rename_client f) tbl) 0 (nat (MAX_CLIENTS cfg)) None = alloc_scan tbl 0 (nat (MAX_CLIENTS cfg)) None"
    by (rule alloc_scan_rename) (simp_all add: len)
  have k: "k < length tbl" if "alloc_scan tbl 0 (nat (MAX_CLIENTS cfg)) None = Inr (Some k)" for k
    using alloc_scan_Inr_Some [OF that] len by simp
  show ?thesis
    by (auto simp: alloc_client_def s map_update rename_zero_client [of f, OF f] k split: sum.split option.split)
qed

lemma process_locked_rename:
  assumes f: "inj f" "f 0 = 0" and cfg: "valid_config cfg" and inv: "table_inv cfg tbl"
    and res: "process_locked cfg now na ip port tbl = (r, tbl', ls)"
  shows "process_locked (rename_config f cfg) now na ip (f port) (map (rename_client f) tbl) =
    (r, map (rename_client f) tbl', rename_knocker_log f ls)"
proof -
  have len: "length tbl = nat (MAX_CLIENTS cfg)" using inv by (simp add: table_inv_def)
  have wf: "config_wf cfg" and seq: "0 < KNOCK_SEQ_LEN cfg" using cfg by (simp_all add: valid_config_def)
  have start: "f port = KNOCK_SEQUENCE (rename_config f cfg) ! 0 \<longleftrightarrow> port = KNOCK_SEQUENCE cfg ! 0"
    using rename_config_nth [OF wf seq] by (simp add: inj_eq [OF f(1)])
  show ?thesis
  proof (cases "find_client cfg tbl ip")
    case (Some i)
    note c = find_client_SomeD [OF inv Some]
    obtain c' l where adv: "advance_client cfg now ip port (tbl ! i) = (r, c', l)" "tbl' = tbl[i := c']" "ls = l"
      using res Some by (auto simp: process_locked_def split: prod.splits)
    have "current_step (tbl ! i) < KNOCK_SEQ_LEN cfg" using c(4) by (simp add: client_inv_def)
    from advance_client_rename [OF f(1) wf this adv(1)] Some c adv show ?thesis
      by (simp add: process_locked_def find_client_rename [OF len] map_update)
  next
    case None
    show ?thesis
    proof (cases "port = KNOCK_SEQUENCE cfg ! 0")
      case False
      with None res have "r = KNOCK_RESET" "tbl' = tbl" "ls = [(LEVEL_DEBUG, Does_not_start_sequence ip port)]"
        by (simp_all add: process_locked_def)
      with None False start show ?thesis by (simp add: process_locked_def find_client_rename [OF len])
    next
      case True
      obtain ro l0 where al: "alloc_client cfg na tbl = (ro, l0)" by fastforce
      have quiet: "rename_knocker_log f l0 = l0"
        using al by (auto simp: alloc_client_def split: sum.splits option.splits if_splits)
      show ?thesis
      proof (cases ro)
        case None
        with \<open>find_client cfg tbl ip = None\<close> True al res
        have "r = KNOCK_RESET" "tbl' = tbl" "ls = l0 @ [(LEVEL_WARN, Client_table_full ip)]"
          by (simp_all add: process_locked_def)
        with None \<open>find_client cfg tbl ip = None\<close> True al quiet start show ?thesis
          by (simp add: process_locked_def find_client_rename [OF len] alloc_client_rename [of f, OF f(2) len])
      next
        case (Some it)
        obtain i t where it: "it = (i, t)" by fastforce
        have t: "t ! i = zero_client" "i < length t"
          using al Some it alloc_scan_Inl [of tbl 0 "nat (MAX_CLIENTS cfg)" None] alloc_scan_Inr_Some [of tbl 0 "nat (MAX_CLIENTS cfg)" None] len
          by (auto simp: alloc_client_def split: sum.splits option.splits if_splits)
        let ?c = "zero_client\<lparr>c_ip := ip, c_active := True\<rparr>"
        obtain c' l where adv: "advance_client cfg now ip port ?c = (r, c', l)" "tbl' = t[i := c']" "ls = l0 @ l"
          using res \<open>find_client cfg tbl ip = None\<close> True al Some it t by (auto simp: process_locked_def split: prod.splits)
        have "current_step ?c < KNOCK_SEQ_LEN cfg" using seq by (simp add: zero_client_def)
        from advance_client_rename [OF f(1) wf this adv(1)] \<open>find_client cfg tbl ip = None\<close> True al Some it t adv start quiet show ?thesis
          by (simp add: process_locked_def find_client_rename [OF len] alloc_client_rename [of f, OF f(2) len] map_update)
      qed
    qed
  qed
qed

lemma cleanup_stale_rename:
  "knocker_cleanup_stale (rename_config f cfg) now (map_option (map (rename_client f)) cl) =
   map_option (\<lambda>(c, ls). (map_option (map (rename_client f)) c, ls)) (knocker_cleanup_stale cfg now cl)"
proof -
  have st: "is_stale (rename_config f cfg) now (rename_client f c) = is_stale cfg now c" for c by (simp add: is_stale_def)
  have fl: "filter (is_stale (rename_config f cfg) now) (map (rename_client f) xs) = map (rename_client f) (filter (is_stale cfg now) xs)" for xs
    by (simp add: filter_map st comp_def)
  show ?thesis
    by (cases cl) (auto simp: knocker_cleanup_stale_def Let_def fl st take_map drop_map comp_def)
qed

section \<open>Queue and firewall\<close>

lemma rename_queue_sel [simp]:
  "ring (rename_queue f q) = map (rename_event f) (ring q)" "head (rename_queue f q) = head q" "tail (rename_queue f q) = tail q"
  "count (rename_queue f q) = count q" "shutting_down (rename_queue f q) = shutting_down q" "dropped (rename_queue f q) = dropped q"
  "last_drop_report (rename_queue f q) = last_drop_report q"
  by (simp_all add: rename_queue_def)

lemma pktqueue_push_rename:
  "pktqueue_push now (rename_event f e) (rename_queue f q) =
   (case pktqueue_push now e q of (r, q', ls) \<Rightarrow> (r, rename_queue f q', ls))"
  by (simp add: pktqueue_push_def Let_def rename_queue_def map_update)

lemma pktqueue_pop_rename:
  "queue_inv q \<Longrightarrow> pktqueue_pop (rename_queue f q) = map_option (\<lambda>(e, q'). (rename_event f e, rename_queue f q')) (pktqueue_pop q)"
  by (simp add: pktqueue_pop_def queue_inv_def rename_queue_def)

lemma pktqueue_wait_rename:
  assumes "queue_inv q"
  shows "pktqueue_wait (rename_queue f q) (if t then [(True, rename_queue f q)] else []) =
    map_option (\<lambda>(eo, q'). (map_option (rename_event f) eo, rename_queue f q')) (pktqueue_wait q (if t then [(True, q)] else []))"
  using pktqueue_pop_rename [OF assms, of f]
  by (cases "pktqueue_pop q") (auto simp: pktqueue_wait_def)

lemma pktqueue_shutdown_rename: "pktqueue_shutdown (rename_queue f q) = rename_queue f (pktqueue_shutdown q)"
  by (simp add: pktqueue_shutdown_def rename_queue_def)

lemma pktqueue_init_rename: "f 0 = 0 \<Longrightarrow> rename_queue f (fst pktqueue_init) = fst pktqueue_init"
  by (simp add: pktqueue_init_def rename_queue_def rename_event_def zero_event_def)

text \<open>The firewall does not look at the sequence.\<close>

lemma run_iptables_rename: "run_iptables (rename_config f cfg) = run_iptables cfg"
  by (intro ext) (simp add: run_iptables_def)

lemma run_grant_rule_rename: "run_grant_rule (rename_config f cfg) = run_grant_rule cfg"
  by (intro ext) (simp add: run_grant_rule_def grant_argv_def run_iptables_rename)

lemma close_expired_rename: "close_expired (rename_config f cfg) ipt ips k = close_expired cfg ipt ips k"
  by (induction cfg ipt ips k rule: close_expired.induct) (auto simp: run_grant_rule_rename Let_def split: option.splits prod.splits)

lemma firewall_rename:
  "firewall_init (rename_config f cfg) = firewall_init cfg"
  "firewall_open (rename_config f cfg) = firewall_open cfg"
  "firewall_tick (rename_config f cfg) = firewall_tick cfg"
  "firewall_shutdown (rename_config f cfg) = firewall_shutdown cfg"
  unfolding firewall_init_def firewall_open_def firewall_tick_def firewall_shutdown_def run_iptables_rename
    run_grant_rule_rename close_expired_rename find_grant_def free_grant_def rename_config_sel
  by (rule refl)+

section \<open>The daemon\<close>

lemma rename_logged:
  "rename_log f (logged Firewall_log lf) = logged Firewall_log lf"
  "rename_log f (logged Queue_log lq) = logged Queue_log lq"
  "rename_log f (logged Knocker_log lk) = logged Knocker_log (rename_knocker_log f lk)"
  "rename_log f (logged Sniffer_log ls) = logged Sniffer_log (rename_sniffer_log f ls)"
proof -
  have "rename_ports f (Knocker_log m) = Knocker_log (rename_knocker_msg f m)" for m by (cases m) simp_all
  then show "rename_log f (logged Knocker_log lk) = logged Knocker_log (rename_knocker_log f lk)"
    by (simp add: logged_def case_prod_beta')
  have "rename_ports f (Sniffer_log m) = Sniffer_log (case m of Knock_seen n ip p \<Rightarrow> Knock_seen n ip (f p) | _ \<Rightarrow> m)" for m
    by (cases m) simp_all
  then show "rename_log f (logged Sniffer_log ls) = logged Sniffer_log (rename_sniffer_log f ls)"
    by (simp add: logged_def case_prod_beta')
qed (simp_all add: logged_def case_prod_beta')

lemma rename_daemon_sel [simp]:
  "g_running (rename_daemon f d) = g_running d" "queue (rename_daemon f d) = rename_queue f (queue d)"
  "clients (rename_daemon f d) = map_option (map (rename_client f)) (clients d)" "fw (rename_daemon f d) = fw d"
  "sys (rename_daemon f d) = sys d" "ifindex (rename_daemon f d) = ifindex d" "sock_fd (rename_daemon f d) = sock_fd d"
  "capture_started (rename_daemon f d) = capture_started d" "capture (rename_daemon f d) = rename_capture f (capture d)"
  "processor (rename_daemon f d) = rename_processor f (processor d)" "last_cleanup (rename_daemon f d) = last_cleanup d"
  "accepted (rename_daemon f d) = map (rename_event f) (accepted d)" "history (rename_daemon f d) = map (rename_record f) (history d)"
  by (simp_all add: rename_daemon_def)

fun rename_result :: "(port \<Rightarrow> port) \<Rightarrow> 'k result \<Rightarrow> 'k result" where
  "rename_result f (Step d ls) = Step (rename_daemon f d) (rename_log f ls)"
| "rename_result f r = r"

lemma rename_event_sel [simp]: "src_ip (rename_event f e) = src_ip e" "dst_port (rename_event f e) = f (dst_port e)"
  by (simp_all add: rename_event_def)

lemma capture_thread_rename:
  assumes "inj f" "config_wf cfg"
  shows "capture_thread (rename_config f cfg) (map (rename_recv f) rs) now (rename_daemon f d) = rename_result f (capture_thread cfg rs now d)"
proof (cases "capture d")
  case C_Sniff
  note s = sniffer_next_knock_rename [OF assms, of "ifindex d" rs]
  show ?thesis
  proof (cases "sniffer_next_knock cfg (ifindex d) rs")
    case (Returned rc rs' ls)
    with C_Sniff s show ?thesis
      by (cases rc) (simp_all add: capture_thread_def rename_logged rename_daemon_def rename_event_def)
  qed (use C_Sniff s in \<open>simp_all add: capture_thread_def\<close>)
next
  case (C_Push e)
  obtain r q ls where p: "pktqueue_push now e (queue d) = (r, q, ls)" by (metis prod_cases3)
  with C_Push pktqueue_push_rename [of now f e "queue d"] show ?thesis
    by (simp add: capture_thread_def rename_logged rename_daemon_def)
qed (simp_all add: capture_thread_def rename_daemon_def pktqueue_shutdown_rename)

lemma process_event_rename:
  assumes f: "inj f" "f 0 = 0" and cfg: "valid_config cfg" and cl: "clients d = Some tbl" and inv: "table_inv cfg tbl"
  shows "process_event (rename_config f cfg) ipt clk (rename_event f e) (rename_daemon f d) =
    map_option (\<lambda>(d', ls). (rename_daemon f d', rename_log f ls)) (process_event cfg ipt clk e d)"
proof -
  obtain now na no where clk: "clk = (now, na, no)" by (metis prod_cases3)
  obtain r tbl' ls where res: "process_locked cfg now na (src_ip e) (dst_port e) tbl = (r, tbl', ls)" by (metis prod_cases3)
  note ren = process_locked_rename [OF f cfg inv res]
  obtain rc fw' k l2 where o: "firewall_open cfg ipt no (src_ip e) (fw d) (sys d) = (rc, fw', k, l2)" by (metis prod_cases4)
  show ?thesis
    using cl res ren o by (auto simp: process_event_def clk knocker_process_def Let_def firewall_rename rename_logged rename_daemon_def)
qed

lemma run_processor_rename:
  assumes f: "inj f" "f 0 = 0" and cfg: "valid_config cfg" and inv: "daemon_inv cfg ipt k0 d"
  shows "run_processor (rename_config f cfg) ipt timedout clk (rename_daemon f d) = rename_result f (run_processor cfg ipt timedout clk d)"
proof -
  obtain tbl where cl: "clients d = Some tbl" and t: "table_inv cfg tbl" and q: "queue_inv (queue d)"
    using inv by (auto simp: daemon_inv_def tables_ok_def flow_ok_def history_inv_def)
  show ?thesis
  proof (cases "processor d")
    case P_Wait
    note w = pktqueue_wait_rename [OF q, of f timedout]
    show ?thesis
    proof (cases "pktqueue_wait (queue d) (if timedout then [(True, queue d)] else [])")
      case None
      with P_Wait w show ?thesis by (cases timedout) (simp_all add: run_processor_def)
    next
      case (Some r)
      obtain eo q' where "r = (eo, q')" by fastforce
      with P_Wait w Some show ?thesis
        by (cases timedout; cases eo) (simp_all add: run_processor_def rename_daemon_def)
    qed
  next
    case (P_Event e)
    with process_event_rename [OF f cfg cl t, of ipt clk e] show ?thesis
      by (cases "process_event cfg ipt clk e d") (auto simp: run_processor_def rename_daemon_def)
  next
    case P_Pop
    with pktqueue_pop_rename [OF q, of f] show ?thesis
      by (cases "pktqueue_pop (queue d)") (auto simp: run_processor_def rename_daemon_def)
  next
    case P_Tick
    then show ?thesis
      by (auto simp: run_processor_def firewall_rename rename_logged rename_daemon_def split: prod.split)
  next
    case P_Sweep
    have sw: "rename_knocker_log f ls = ls" if "knocker_cleanup_stale cfg n (Some tbl) = Some (c, ls)" for n c ls
      using that by (auto simp: knocker_cleanup_stale_def Let_def split: if_splits)
    obtain now n2 n3 where clk: "clk = (now, n2, n3)" by (metis prod_cases3)
    with P_Sweep cleanup_stale_rename [of f cfg n2 "Some tbl"] cl show ?thesis
      by (cases "knocker_cleanup_stale cfg n2 (Some tbl)")
        (auto simp: run_processor_def rename_logged sw rename_daemon_def)
  qed (simp_all add: run_processor_def rename_daemon_def)
qed

lemma daemon_startup_rename:
  assumes f: "f 0 = 0"
  shows "daemon_startup (rename_config f cfg) ipt env k =
    (case daemon_startup cfg ipt env k of (ok, d, closed, ls) \<Rightarrow> (ok, rename_daemon f d, closed, ls))"
proof -
  obtain q l1 where q: "pktqueue_init = (q, l1)" by fastforce
  then have rq: "rename_queue f q = q" using pktqueue_init_rename [of f, OF f] by (metis fst_conv)
  obtain rc cl l2 where i: "knocker_init cfg (clients_calloc_ok env) = (rc, cl, l2)" by (metis prod_cases3)
  have ri: "knocker_init (rename_config f cfg) b = knocker_init cfg b" for b by (simp add: knocker_init_def)
  have rcl: "map_option (map (rename_client f)) cl = cl"
    using i by (auto simp: knocker_init_def rename_zero_client [of f, OF f] split: if_splits)
  have rs: "sniffer_init (rename_config f cfg) a b c n = sniffer_init cfg a b c n" for a b c n
    unfolding sniffer_init_def rename_config_sel by (rule refl)
  show ?thesis
    by (auto simp: daemon_startup_def q i ri rs firewall_rename Let_def rename_daemon_def rq rcl split: prod.split)
qed

section \<open>The process\<close>

lemma spoken_rename:
  assumes "discreet ls" "level \<le> 2"
  shows "spoken level st version ctx i (rename_log f ls) = spoken level st version ctx i ls"
  using assms by (induction level st version ctx i ls rule: spoken.induct) (auto simp: log_msg_renamed)

lemma rename_process_sel [simp]:
  "p_pc (rename_process f p) = p_pc p" "p_opts (rename_process f p) = p_opts p" "p_disp (rename_process f p) = p_disp p"
  "p_conf (rename_process f p) = rename_config f (p_conf p)" "p_logger (rename_process f p) = p_logger p"
  "p_dmn (rename_process f p) = rename_daemon f (p_dmn p)" "p_exit (rename_process f p) = p_exit p"
  "p_fds (rename_process f p) = p_fds p" "p_out (rename_process f p) = p_out p" "p_calls (rename_process f p) = p_calls p"
  by (simp_all add: rename_process_def)

lemma say_rename:
  assumes "discreet ls" "LOG_LEVEL (p_conf p) \<le> 2"
  shows "say w (rename_log f ls) (rename_process f p\<lparr>p_dmn := rename_daemon f d\<rparr>) = rename_process f (say w ls (p\<lparr>p_dmn := d\<rparr>))"
  by (simp add: say_at_def rename_process_def spoken_rename [OF assms])

lemma thread_result_rename:
  assumes "\<And>d ls. r = Step d ls \<Longrightarrow> discreet ls" "LOG_LEVEL (p_conf p) \<le> 2"
  shows "thread_result w (rename_process f p) (rename_result f r) = map_option (rename_status f) (thread_result w p r)"
  using assms say_rename by (cases r) (auto simp: thread_result_def)

lemma print_banner_rename: "LOG_LEVEL cfg \<le> 2 \<Longrightarrow> print_banner version (rename_config f cfg) = print_banner version cfg"
  by (simp add: print_banner_def banner_sequence_def)

lemma main_step_rename:
  assumes f: "f 0 = 0" and pc: "3 \<le> pc_order (p_pc p)" and level: "LOG_LEVEL (p_conf p) \<le> 2"
  shows "main_step w (rename_process f p) = map_option (rename_status f) (main_step w p)"
proof (cases "p_pc p")
  case M_Start
  obtain ok d closed ls where "daemon_startup (p_conf p) (w_ipt w) (w_boot w) (sys (p_dmn p)) = (ok, d, closed, ls)" by (metis prod_cases4)
  then show ?thesis using M_Start
    by (simp add: main_step_def main_start_def daemon_startup_rename [of f, OF f] process_ops rename_process_def rename_daemon_def)
next
  case M_Loop
  have "rename_processor f x = P_Done \<longleftrightarrow> x = P_Done" for x by (cases x) simp_all
  with M_Loop show ?thesis by (simp add: main_step_def jump_to_def rename_process_def)
next
  case M_Cleanup
  then show ?thesis
    by (simp add: main_step_def cleanup_request_def process_ops rename_process_def rename_daemon_def pktqueue_shutdown_rename)
next
  case M_Join
  have "rename_capture f x = C_Done \<longleftrightarrow> x = C_Done" for x by (cases x) simp_all
  with M_Join show ?thesis by (simp add: main_step_def jump_to_def rename_process_def join_returns_def)
next
  case M_Release
  then show ?thesis
    by (auto simp: main_step_def main_release_def cleanup_release_def firewall_rename process_ops rename_process_def rename_daemon_def
        knocker_shutdown_def split: prod.split)
qed (use pc level in \<open>simp_all add: main_step_def main_announce_def process_ops rename_process_def print_banner_rename\<close>)

lemma process_act_rename:
  assumes f: "inj f" "f 0 = 0" and inv: "process_inv w k0 p" and pc: "3 \<le> pc_order (p_pc p)" and level: "LOG_LEVEL (p_conf p) \<le> 2"
  shows "process_act w (rename_arrival f e) (rename_process f p) = map_option (rename_status f) (process_act w e p)"
proof (cases e)
  case Ev_main
  with main_step_rename [of f, OF f(2) pc level] show ?thesis by simp
next
  case (Ev_signal sg)
  then show ?thesis
    by (cases "p_disp p sg") (simp_all add: deliver_def rename_process_def signal_handler_def rename_daemon_def)
next
  case (Ev_capture rs now)
  have "config_wf (p_conf p)" using inv pc main_front_valid by (fastforce simp: process_inv_def valid_config_def)
  note c = capture_thread_rename [OF f(1) this, of rs now "p_dmn p"]
  have "thread_result w (rename_process f p) (rename_result f (capture_thread (p_conf p) rs now (p_dmn p))) =
      map_option (rename_status f) (thread_result w p (capture_thread (p_conf p) rs now (p_dmn p)))"
    by (rule thread_result_rename [OF capture_discreet level])
  with c Ev_capture show ?thesis by simp
next
  case (Ev_process timedout clk)
  show ?thesis
  proof (cases "p_pc p = M_Loop")
    case True
    note lr = loop_running [OF inv True]
    note r = run_processor_rename [OF f lr(1,2), of timedout clk]
    have "thread_result w (rename_process f p) (rename_result f (run_processor (p_conf p) (w_ipt w) timedout clk (p_dmn p))) =
        map_option (rename_status f) (thread_result w p (run_processor (p_conf p) (w_ipt w) timedout clk (p_dmn p)))"
      by (rule thread_result_rename [OF processor_discreet level])
    with r Ev_process True show ?thesis by simp
  qed (use Ev_process in simp)
qed

section \<open>Two worlds\<close>

text \<open>The process in a world where the file has the ports renamed.  Until the file is loaded it is the
  same process.\<close>

definition twin :: "(port \<Rightarrow> port) \<Rightarrow> 'k process \<Rightarrow> 'k process" where
  "twin f p = (if pc_order (p_pc p) < 2 then p else rename_process f p)"

fun twin_status :: "(port \<Rightarrow> port) \<Rightarrow> 'k status \<Rightarrow> 'k status" where
  "twin_status f (Alive p) = Alive (twin f p)"
| "twin_status f (Terminated code p) = Terminated code (twin f p)"
| "twin_status f (Killed sg p) = Killed sg (twin f p)"
| "twin_status f (Segfault p) = Segfault (twin f p)"

text \<open>What can be seen of the process from outside: whether and how it ended, all it has written, what its
  iptables commands have made of the system, and the descriptors it has closed.\<close>

datatype ending = Still_running | Exit_status int | By_signal signal | Crashed

fun observed :: "'k status \<Rightarrow> ending \<times> written list \<times> 'k \<times> int list" where
  "observed (Alive p) = (Still_running, p_out p, sys (p_dmn p), p_fds p)"
| "observed (Terminated code p) = (Exit_status code, p_out p, sys (p_dmn p), p_fds p)"
| "observed (Killed sg p) = (By_signal sg, p_out p, sys (p_dmn p), p_fds p)"
| "observed (Segfault p) = (Crashed, p_out p, sys (p_dmn p), p_fds p)"

lemma observed_twin: "observed (twin_status f s) = observed s"
  by (cases s) (simp_all add: twin_def)

text \<open>The same world with another file at the path.\<close>

definition with_file :: "string \<Rightarrow> config_file \<Rightarrow> 'k world \<Rightarrow> 'k world" where
  "with_file path F w = w\<lparr>w_files := (w_files w)(path \<mapsto> F)\<rparr>"

text \<open>The files matter in \<open>main_load\<close> only.\<close>

lemma say_files: "say_at (w\<lparr>w_files := fs\<rparr>) = say_at w"
  by (intro ext) (simp add: say_at_def)

lemma say_parts_files: "say_parts (w\<lparr>w_files := fs\<rparr>) parts p = say_parts w parts p"
  by (induction w parts p rule: say_parts.induct) (simp_all add: say_files)

lemma thread_result_files: "thread_result (w\<lparr>w_files := fs\<rparr>) = thread_result w"
  unfolding thread_result_def [abs_def] say_files by (rule refl)

lemma main_step_files: "p_pc p \<noteq> M_Load \<Longrightarrow> main_step (w\<lparr>w_files := fs\<rparr>) p = main_step w p"
  by (cases "p_pc p") (simp_all add: main_step_def main_args_def main_verbose_def main_start_def main_announce_def
      main_release_def say_files split: sum.split)

lemma process_act_files:
  "p_pc p \<noteq> M_Load \<or> e \<noteq> Ev_main \<Longrightarrow> process_act (with_file path F w) e p = process_act w e p"
  by (cases e) (simp_all add: main_step_files thread_result_files with_file_def)

lemma untouched_rename:
  assumes "f 0 = 0" "untouched k0 p"
  shows "rename_daemon f (p_dmn p) = p_dmn p" and "\<not> capture_started (p_dmn p)"
  using assms pktqueue_init_rename [of f]
  by (auto simp: untouched_def static_daemon_def signal_handler_def rename_daemon_def)

lemma early_untouched: "process_inv w k0 p \<Longrightarrow> pc_order (p_pc p) < 3 \<Longrightarrow> untouched k0 p"
  by (cases "p_pc p") (simp_all add: process_inv_def progress_def)

lemma main_args_twin: "p_pc p = M_Args \<Longrightarrow> twin_status f (main_args w p) = main_args w p"
  by (simp add: main_args_def twin_def process_ops split: sum.split prod.split)

text \<open>Before the file is loaded nothing but a signal can happen besides the steps of \<open>main\<close>.\<close>

lemma early_act_twin:
  assumes "f 0 = 0" and inv: "process_inv w k0 p" and pc: "pc_order (p_pc p) < 2" and e: "e = Ev_main \<longrightarrow> p_pc p = M_Args"
  shows "process_act w (rename_arrival f e) p = map_option (twin_status f) (process_act w e p)"
proof (cases e)
  case Ev_main
  with e main_args_twin [of p f w] show ?thesis by (simp add: main_step_def)
next
  case (Ev_signal sg)
  with pc show ?thesis by (cases "p_disp p sg") (simp_all add: deliver_def twin_def)
next
  case (Ev_capture rs now)
  have "\<not> capture_started (p_dmn p)" using untouched_rename(2) [of f, OF assms(1) early_untouched [OF inv]] pc by simp
  with Ev_capture show ?thesis by simp
next
  case (Ev_process timedout clk)
  with pc show ?thesis by auto
qed

lemma verbose_act_twin:
  assumes "f 0 = 0" and inv: "process_inv w k0 p" and pc: "p_pc p = M_Verbose" and quiet: "\<not> opt_verbose (p_opts p)"
  shows "process_act w (rename_arrival f e) (rename_process f p) = map_option (twin_status f) (process_act w e p)"
proof (cases e)
  case Ev_main
  with pc quiet show ?thesis by (simp add: main_step_def main_verbose_def jump_to_def twin_def rename_process_def)
next
  case (Ev_signal sg)
  with pc show ?thesis
    by (cases "p_disp p sg") (simp_all add: deliver_def twin_def rename_process_def signal_handler_def rename_daemon_def)
next
  case (Ev_capture rs now)
  have "\<not> capture_started (p_dmn p)" using untouched_rename(2) [of f, OF assms(1) early_untouched [OF inv]] pc by simp
  with Ev_capture show ?thesis by simp
qed (use pc in simp)

text \<open>What is known of the two worlds: how the file in each is loaded.\<close>

definition loads_as :: "(port \<Rightarrow> port) \<Rightarrow> 'k world \<Rightarrow> string \<Rightarrow> config_file \<Rightarrow> config \<Rightarrow> bool" where
  "loads_as f w path F' cfg \<longleftrightarrow> (\<exists>opts F ls ls'. parsed w = Inr opts \<and> \<not> opt_verbose opts \<and> opt_config_file opts = path \<and>
     w_files w path = Some F \<and> load_parts path (Some F') initial_config = load_parts path (Some F) initial_config \<and>
     config_load path (Some F) initial_config = (0, cfg, ls) \<and> config_load path (Some F') initial_config = (0, rename_config f cfg, ls'))"

lemma main_load_twin:
  assumes "f 0 = 0" and inv: "process_inv w k0 p" and pc: "p_pc p = M_Load" and load: "loads_as f w path F' cfg"
  shows "main_load (with_file path F' w) p = twin_status f (main_load w p)"
proof -
  have u: "rename_daemon f (p_dmn p) = p_dmn p"
    using untouched_rename(1) [of f, OF assms(1) early_untouched [OF inv]] pc by simp
  have o: "parsed w = Inr (p_opts p)" "p_conf p = initial_config" using inv pc by (simp_all add: process_inv_def progress_def)
  obtain F ls ls' where F: "\<not> opt_verbose (p_opts p)" "opt_config_file (p_opts p) = path" "w_files w path = Some F"
    "load_parts path (Some F') initial_config = load_parts path (Some F) initial_config"
    "config_load path (Some F) initial_config = (0, cfg, ls)" "config_load path (Some F') initial_config = (0, rename_config f cfg, ls')"
    using load o(1) by (auto simp: loads_as_def)
  obtain os n where parts: "say_parts w (load_parts path (Some F) initial_config) p = p\<lparr>p_out := p_out p @ os, p_calls := n\<rparr>"
    using say_parts_frame by blast
  show ?thesis
    by (simp add: main_load_def with_file_def o(2) F say_parts_files parts jump_to_def twin_def rename_process_def u)
qed

lemma loaded_conf:
  assumes inv: "process_inv w k0 p" and pc: "2 \<le> pc_order (p_pc p)" and load: "loads_as f w path F' cfg"
  shows "p_conf p = cfg"
proof (cases "p_pc p = M_Verbose")
  case True
  with inv load show ?thesis by (auto simp: process_inv_def progress_def loads_as_def)
next
  case False
  with pc have "3 \<le> pc_order (p_pc p)" by (cases "p_pc p") simp_all
  with inv obtain lg ls where "front w = Inr (p_conf p, lg, ls)" by (auto simp: process_inv_def)
  with load show ?thesis by (auto simp: main_front_def loads_as_def Let_def split: if_splits prod.splits)
qed

lemma late_act_pc:
  assumes "3 \<le> pc_order (p_pc p)" "process_act w e p = Some s"
  shows "case s of Alive q \<Rightarrow> 3 \<le> pc_order (p_pc q) | Terminated code q \<Rightarrow> 3 \<le> pc_order (p_pc q)
    | Killed sg q \<Rightarrow> 3 \<le> pc_order (p_pc q) | Segfault q \<Rightarrow> 3 \<le> pc_order (p_pc q)"
proof (cases e)
  case Ev_main
  with assms show ?thesis
    by (cases "p_pc p") (auto simp: main_step_def main_start_def main_announce_def main_release_def process_ops split: prod.splits if_splits)
next
  case (Ev_signal sg)
  with assms show ?thesis by (auto simp: deliver_def split: disposition.splits)
qed (use assms in \<open>auto simp: thread_result_def say_at_def split: result.splits if_splits\<close>)

lemma process_act_twin:
  assumes f: "inj f" "f 0 = 0" and inv: "process_inv w k0 p" and load: "loads_as f w path F' cfg" and level: "LOG_LEVEL cfg \<le> 2"
  shows "process_act (with_file path F' w) (rename_arrival f e) (twin f p) =
    map_option (twin_status f) (process_act w e p)"
proof -
  let ?w = "with_file path F' w"
  consider (load) "p_pc p = M_Load" "e = Ev_main" | (early) "pc_order (p_pc p) < 2" "e = Ev_main \<longrightarrow> p_pc p = M_Args"
    | (verbose) "p_pc p = M_Verbose" | (late) "3 \<le> pc_order (p_pc p)"
    by (cases "p_pc p") auto
  then show ?thesis
  proof cases
    case load
    with main_load_twin [of f, OF f(2) inv load(1) assms(4)] show ?thesis by (simp add: main_step_def twin_def)
  next
    case early
    have "process_act ?w (rename_arrival f e) p = process_act w (rename_arrival f e) p"
      by (rule process_act_files) (use early in \<open>cases e; auto\<close>)
    with early_act_twin [of f, OF f(2) inv early] early(1) show ?thesis by (simp add: twin_def)
  next
    case verbose
    have "\<not> opt_verbose (p_opts p)" using inv load verbose by (auto simp: process_inv_def progress_def loads_as_def)
    from verbose_act_twin [of f, OF f(2) inv verbose this, of e] verbose process_act_files [of "rename_process f p"] show ?thesis
      by (simp add: twin_def)
  next
    case late
    have c: "p_conf p = cfg" using loaded_conf [OF inv _ load] late by simp
    have s: "twin_status f s = rename_status f s" if "process_act w e p = Some s" for s
      using late_act_pc [OF late that] by (cases s) (simp_all add: twin_def)
    have "p_pc p \<noteq> M_Load" using late by auto
    then have "process_act ?w (rename_arrival f e) (rename_process f p) = map_option (rename_status f) (process_act w e p)"
      using process_act_rename [OF f inv late, of e] level c by (simp add: process_act_files)
    with late s show ?thesis by (cases "process_act w e p") (simp_all add: twin_def)
  qed
qed

lemma process_exec_twin:
  assumes f: "inj f" "f 0 = 0" and load: "loads_as f w path F' cfg" and level: "LOG_LEVEL cfg \<le> 2" and es: "\<forall>e\<in>set es. event_ok e"
    and s: "\<And>p. s = Alive p \<Longrightarrow> process_inv w k0 p"
  shows "process_exec (with_file path F' w) (map (rename_arrival f) es) (twin_status f s) =
    map_option (twin_status f) (process_exec w es s)"
  using es s load
proof (induction w es s rule: process_exec.induct)
  case (2 w e es p)
  let ?w = "with_file path F' w"
  have inv: "process_inv w k0 p" using "2.prems"(2) by simp
  note act = process_act_twin [of f, OF f inv "2.prems"(3) level, of e]
  show ?case
  proof (cases "process_act w e p")
    case None
    with act show ?thesis by simp
  next
    case (Some s1)
    have "process_inv w k0 q" if "s1 = Alive q" for q
      using process_act_inv [OF inv _ Some] "2.prems"(1) that by (simp add: status_inv_def)
    from "2.IH" [OF Some _ this "2.prems"(3)] "2.prems"(1) act Some show ?thesis by simp
  qed
qed simp_all

section \<open>Properties\<close>

lemma event_ok_rename: "event_ok e \<Longrightarrow> event_ok (rename_arrival f e)"
  by (cases e) (auto intro: rename_recv_ok)

text \<open>
  C4.  The process gives nothing of the sequence away except what is listed here.  Take two
  configuration files that differ only in the ports of the line \<open>sequence\<close>: 2 to 16 distinct
  non-zero ports, and their images under a renaming.  Start the process on each, with anything else
  in the files, any command line without \<open>-v\<close>, any iptables and any events, the arriving frames
  renamed with the ports.  If the level that is loaded is below debug and the renaming leaves the
  protected port alone, then after any number of steps everything that can be seen from outside is
  the same in both: all that was written to stdout, stderr and syslog from the first instruction on,
  loading included, what the iptables commands did, the descriptors closed, and whether and with
  which status the process ended.  What may be revealed is therefore only: whether and where the
  protected port is in the sequence, everything at debug level, and a sequence that is not proper,
  which the warnings quote.
\<close>

theorem ports_stay_secret:
  assumes f: "inj f" "f 0 = 0"
    and opts: "parse_args (w_prog w) (w_version w) (w_args w) default_options = Inr opts" "\<not> opt_verbose opts"
    and path: "path = opt_config_file opts" "w_files w path = Some F"
    and bytes: "file_bytes F = sequence_file pre ps post" "ends_line pre" "keeps_sequence path post" "proper_sequence ps"
    and load: "config_load path (Some F) initial_config = (rc, cfg, ls)"
    and level: "LOG_LEVEL cfg \<le> 2" and port: "fixes_port f (PROTECTED_PORT cfg)"
    and w': "w' = with_file path (F\<lparr>file_bytes := sequence_file pre (map f ps) post\<rparr>) w"
    and es: "\<forall>e\<in>set es. event_ok e"
  shows "map_option observed (process_exec w' (map (rename_arrival f) es) (Alive (process_entry k0))) =
      map_option observed (process_exec w es (Alive (process_entry k0))) \<and>
    (\<forall>e\<in>set (map (rename_arrival f) es). event_ok e)"
proof -
  have rc: "rc = 0" using config_load_ok [OF initial_config_wf load] by simp
  have l: "loads_as f w path (F\<lparr>file_bytes := sequence_file pre (map f ps) post\<rparr>) cfg"
    using load_pair [of f, OF f bytes(2-4,1) load port] opts path load unfolding loads_as_def rc by blast
  have "process_inv w k0 (process_entry k0)"
    using process_reach_inv [OF process_reach.enter, of w k0] by (simp add: status_inv_def)
  from process_exec_twin [of f, OF f l level es, of "Alive (process_entry k0)" k0] this
  have "process_exec w' (map (rename_arrival f) es) (Alive (twin f (process_entry k0))) =
      map_option (twin_status f) (process_exec w es (Alive (process_entry k0)))" by (simp add: w')
  moreover have "twin f (process_entry k0) = process_entry k0" by (simp add: twin_def process_entry_def)
  ultimately show ?thesis using es event_ok_rename by (auto simp: option.map_comp comp_def observed_twin)
qed

text \<open>A pair of files for the witness: the first port is 7000 in one and 7001 in the other.\<close>

definition swap_ports :: "port \<Rightarrow> port" where
  "swap_ports x = (if x = 7000 then 7001 else if x = 7001 then 7000 else x)"

lemma swap_ports_facts: "inj swap_ports" "swap_ports 0 = 0" "fixes_port swap_ports 22"
proof -
  show "inj swap_ports" by (auto simp: inj_def swap_ports_def split: if_splits)
  have "uint (7000 :: port) \<noteq> 22" "uint (7001 :: port) \<noteq> 22" by simp_all
  then show "fixes_port swap_ports 22" by (auto simp: fixes_port_def swap_ports_def)
qed (simp add: swap_ports_def)

definition demo_file :: "port list \<Rightarrow> config_file" where
  "demo_file ps = \<lparr>file_mode = None,
     file_bytes = sequence_file (''# knockd'' @ [LF]) ps (''timeout = 20'' @ [LF]), file_error = False\<rparr>"

lemma timeout_line_read:
  "fst (read_lines p c (''timeout = 20'' @ [LF])) = fst (apply_setting p c ''timeout'' ''20'')"
proof -
  have g: "fgets LINE_SIZE (''timeout = 20'' @ [LF]) = Some (''timeout = 20'' @ [LF], [])" by code_simp
  have "config_line p c ([] @ ''timeout'' @ '' '' @ CHR ''='' # '' '' @ ''20'' @ [] @ [LF]) = apply_setting p c ''timeout'' ''20''"
    by (rule config_line_plain)
      (simp_all add: is_blank_def key_char_def line_tail_def plain_value_def TAB_def CR_def LF_def NUL_def)
  then have l: "config_line p c (''timeout = 20'' @ [LF]) = apply_setting p c ''timeout'' ''20''" by simp
  show ?thesis unfolding read_lines_Some [OF g] l by (rule read_lines_None) (simp add: fgets_def)
qed

lemma timeout_setting_keeps:
  "KNOCK_SEQUENCE (fst (apply_setting p c ''timeout'' ''20'')) = KNOCK_SEQUENCE c"
  "KNOCK_SEQ_LEN (fst (apply_setting p c ''timeout'' ''20'')) = KNOCK_SEQ_LEN c"
  "LOG_LEVEL (fst (apply_setting p c ''timeout'' ''20'')) = LOG_LEVEL c"
  "PROTECTED_PORT (fst (apply_setting p c ''timeout'' ''20'')) = PROTECTED_PORT c"
  by (simp_all add: apply_setting_def set_int_def split: prod.split option.split)

lemma demo_file_keeps: "keeps_sequence p (''timeout = 20'' @ [LF])"
  unfolding keeps_sequence_def timeout_line_read by (simp add: timeout_setting_keeps)

lemma demo_file_proper: "proper_sequence [7000, 8000, 9000]" "ends_line (''# knockd'' @ [LF])"
  by (simp_all add: proper_sequence_def ends_line_def)

lemma demo_file_loads:
  "\<exists>cfg ls. config_load p (Some (demo_file [7000, 8000, 9000])) initial_config = (0, cfg, ls) \<and>
     LOG_LEVEL cfg = 2 \<and> PROTECTED_PORT cfg = 22"
proof -
  let ?F = "demo_file [7000, 8000, 9000]" and ?c = "fst (read_lines p initial_config (file_bytes (demo_file [7000, 8000, 9000])))"
  define d where "d = fst (read_lines p initial_config (''# knockd'' @ [LF]))"
  have "fgets LINE_SIZE (''# knockd'' @ [LF]) = Some (''# knockd'' @ [LF], [])" by code_simp
  moreover have "config_line p initial_config (''# knockd'' @ [LF]) = (initial_config, [])"
    by (simp add: config_line_def cstr_def is_blank_def TAB_def NUL_def LF_def)
  ultimately have d: "d = initial_config" by (simp add: d_def read_lines_Some read_lines_None fgets_None del: append.simps)
  have "LOG_LEVEL ?c = 2" "PROTECTED_PORT ?c = 22"
    using sequence_file_read(1) [OF demo_file_proper(2,1) d_def refl, of "''timeout = 20'' @ [LF]"]
    unfolding timeout_line_read by (simp_all add: demo_file_def d timeout_setting_keeps initial_config_def config_limits)
  moreover have "config_wf ?c" by (rule read_lines_wf) simp
  moreover obtain rc cfg ls where l: "config_load p (Some ?F) initial_config = (rc, cfg, ls)" by (metis prod_cases3)
  moreover from l have "cfg = fst (config_validate ?c)" by (auto simp: config_load_def Let_def split: prod.splits)
  moreover have "rc = 0" using config_load_ok [OF initial_config_wf l] by simp
  ultimately show ?thesis using config_validate_fields(2,6) [of ?c cfg] by simp
qed

text \<open>The first four steps of \<open>main\<close>: arguments, configuration, verbosity, banner.\<close>

definition demo_steps :: "event list" where
  "demo_steps = [Ev_main, Ev_main, Ev_main, Ev_main]"

lemma demo_steps_run:
  assumes w: "w = with_file DEFAULT_CONFIG_PATH F (demo_world [])"
  shows "\<exists>p. process_exec w demo_steps (Alive (process_entry k)) = Some (Alive p) \<and> p_pc p = M_Sigint"
proof -
  let ?p0 = "process_entry k" and ?path = DEFAULT_CONFIG_PATH
  define p1 where "p1 = jump_to M_Load (open_logger False (process_entry k\<lparr>p_opts := default_options\<rparr>))"
  have p1: "p_pc p1 = M_Load" "p_opts p1 = default_options" by (simp_all add: p1_def process_ops)
  have e1: "process_act w Ev_main ?p0 = Some (Alive p1)"
    by (simp add: w main_step_def main_args_def process_entry_def demo_world_def with_file_def p1_def default_options_def)
  obtain rc cfg ls where load: "config_load ?path (Some F) (p_conf p1) = (rc, cfg, ls)" by (metis prod_cases3)
  obtain os n where parts: "say_parts w (load_parts ?path (Some F) (p_conf p1)) p1 = p1\<lparr>p_out := p_out p1 @ os, p_calls := n\<rparr>"
    using say_parts_frame by blast
  obtain p2 where e2: "process_act w Ev_main p1 = Some (Alive p2)" and p2: "p_pc p2 = M_Verbose" "p_opts p2 = default_options"
  proof
    let ?p2 = "jump_to M_Verbose (p1\<lparr>p_out := p_out p1 @ os, p_calls := n, p_conf := cfg\<rparr>)"
    have f: "w_files w ?path = Some F" by (simp add: w with_file_def)
    show "process_act w Ev_main p1 = Some (Alive ?p2)"
      using p1 load parts f by (simp add: main_step_def main_load_def default_options_def)
  qed (simp_all add: jump_to_def p1)
  then obtain p3 where e3: "process_act w Ev_main p2 = Some (Alive p3)" and p3: "p_pc p3 = M_Banner"
    by (simp add: main_step_def main_verbose_def default_options_def jump_to_def)
  then obtain p4 where "process_act w Ev_main p3 = Some (Alive p4)" "p_pc p4 = M_Sigint"
    by (simp add: main_step_def jump_to_def)
  with e1 e2 e3 show ?thesis by (simp add: demo_steps_def del: process_act.simps)
qed

theorem ports_stay_secret_witness:
  "\<exists>w w' p p'. w = with_file DEFAULT_CONFIG_PATH (demo_file [7000, 8000, 9000]) (demo_world []) \<and>
     w' = with_file DEFAULT_CONFIG_PATH (demo_file [7001, 8000, 9000]) (demo_world []) \<and>
     process_exec w demo_steps (Alive (process_entry (demo_rules, []))) = Some (Alive p) \<and> p_pc p = M_Sigint \<and>
     process_exec w' demo_steps (Alive (process_entry (demo_rules, []))) = Some (Alive p') \<and> p_out p' = p_out p"
proof -
  let ?path = DEFAULT_CONFIG_PATH and ?F = "demo_file [7000, 8000, 9000]" and ?k = "(demo_rules, [])"
  define w where "w = with_file ?path ?F (demo_world [])"
  define w' where "w' = with_file ?path (demo_file [7001, 8000, 9000]) (demo_world [])"
  have opts: "parse_args (w_prog w) (w_version w) (w_args w) default_options = Inr default_options"
    "\<not> opt_verbose default_options" "?path = opt_config_file default_options" "w_files w ?path = Some ?F"
    by (simp_all add: w_def with_file_def demo_world_def default_options_def)
  have "map swap_ports [7000, 8000, 9000] = [7001, 8000, 9000]" by (simp add: swap_ports_def)
  then have w2: "w' = with_file ?path (?F\<lparr>file_bytes := sequence_file (''# knockd'' @ [LF]) (map swap_ports [7000, 8000, 9000]) (''timeout = 20'' @ [LF])\<rparr>) w"
    by (simp add: w_def w'_def with_file_def demo_file_def)
  obtain cfg ls where load: "config_load ?path (Some ?F) initial_config = (0, cfg, ls)" "LOG_LEVEL cfg = 2" "PROTECTED_PORT cfg = 22"
    using demo_file_loads by blast
  have bytes: "file_bytes ?F = sequence_file (''# knockd'' @ [LF]) [7000, 8000, 9000] (''timeout = 20'' @ [LF])"
    by (simp add: demo_file_def)
  have level: "LOG_LEVEL cfg \<le> 2" and port: "fixes_port swap_ports (PROTECTED_PORT cfg)"
    using load swap_ports_facts(3) by simp_all
  have es: "\<forall>e\<in>set demo_steps. event_ok e" "map (rename_arrival swap_ports) demo_steps = demo_steps"
    by (simp_all add: demo_steps_def)
  from ports_stay_secret [OF swap_ports_facts(1,2) opts bytes demo_file_proper(2) demo_file_keeps demo_file_proper(1)
      load(1) level port w2 es(1), of ?k, unfolded es(2)]
  have same: "map_option observed (process_exec w' demo_steps (Alive (process_entry ?k))) =
      map_option observed (process_exec w demo_steps (Alive (process_entry ?k)))" by blast
  obtain p p' where p: "process_exec w demo_steps (Alive (process_entry ?k)) = Some (Alive p)" "p_pc p = M_Sigint"
    and p': "process_exec w' demo_steps (Alive (process_entry ?k)) = Some (Alive p')"
    using demo_steps_run [OF w_def, of ?k] demo_steps_run [OF w'_def, of ?k] by blast
  with same have "p_out p' = p_out p" by simp
  with p p' show ?thesis unfolding w_def w'_def by blast
qed

text \<open>
  The protected port has to be left alone.  If it is a knock port, validation says so, with its place
  in the sequence, at the level of a warning, so at the default level one port of the sequence and
  its position are in the log.
\<close>

theorem protected_port_is_named:
  assumes "cfg = fst (config_validate c)" and "i < KNOCK_SEQ_LEN cfg" and "uint (KNOCK_SEQUENCE cfg ! i) = PROTECTED_PORT cfg"
  shows "(LEVEL_WARN, Port_is_knock_port (PROTECTED_PORT cfg) (i + 1)) \<in> set (snd (config_validate c))"
proof -
  let ?c = "fst (validate_port (fst (validate_sequence c)))"
  have same: "KNOCK_SEQUENCE cfg = KNOCK_SEQUENCE ?c" "KNOCK_SEQ_LEN cfg = KNOCK_SEQ_LEN ?c" "PROTECTED_PORT cfg = PROTECTED_PORT ?c"
    by (simp_all add: assms(1) fst_config_validate fst_validate_fields)
  have "(LEVEL_WARN, Port_is_knock_port (PROTECTED_PORT ?c) (i + 1)) \<in> set (warn_port_in_sequence ?c)"
    using assms(2,3) unfolding same by (auto simp: warn_port_in_sequence_def)
  moreover from this have "set (warn_port_in_sequence ?c) \<subseteq> set (snd (config_validate c))"
    by (auto simp: config_validate_blocks Let_def split_def)
  ultimately show ?thesis unfolding same by blast
qed

theorem protected_port_is_named_witness:
  "(LEVEL_WARN, Port_is_knock_port 8000 2) \<in> set (snd (config_validate (initial_config\<lparr>PROTECTED_PORT := 8000\<rparr>)))"
proof -
  let ?c = "initial_config\<lparr>PROTECTED_PORT := 8000\<rparr>"
  have wf: "config_wf ?c" by (rule config_wf_update(1)) (simp_all add: c_int_def c_int_limits)
  have ks: "knock_seq ?c = [7000, 8000, 9000]" "KNOCK_SEQ_LEN ?c = 3" by (simp_all add: initial_config_def config_limits)
  then have "valid_config ?c" using wf by (simp add: valid_config_def) (simp add: initial_config_def config_limits)
  then have id: "fst (config_validate ?c) = ?c" by (rule config_validate_id)
  have "KNOCK_SEQUENCE ?c ! 1 = 8000" by (simp add: initial_config_def config_limits)
  then show ?thesis using protected_port_is_named [of ?c ?c 1, unfolded one_add_one] ks(2) id by simp
qed

end
