(* ===== verification/Spec2Isabelle.thy ===== *)
theory Spec2Isabelle
  imports Config Queue_Monitor Knocker Firewall Sniffer Daemon Demo_Run Service Log_Text Program Two_Files Secrecy
begin

text \<open>
  A verification library for \<open>knockd\<close>, a port-knocking daemon in C.  The daemon listens on a raw
  socket for TCP and UDP packets to a secret sequence of ports; an address that sends the whole
  sequence in time gets a rule in an iptables chain that lets it reach the protected port for a
  limited time.

  \<^bold>\<open>The program and how its parts interact.\<close>  \<open>main\<close> reads the arguments and the configuration,
  sets up the queue, the client table, the firewall and the socket, and starts the capture thread.
  The capture thread takes frames off the socket (\<open>sniffer.c\<close>) and puts the knocks into a ring buffer
  (\<open>packet_queue.c\<close>).  The main thread takes them out in its processor loop, gives each to the state
  machine (\<open>knocker.c\<close>), opens the firewall when that answers \<open>KNOCK_COMPLETE\<close> (\<open>firewall.c\<close>), and
  between events expires old grants and sweeps stale clients.  A signal, or a failure of the capture,
  clears \<open>g_running\<close>; both threads then end and the label \<open>cleanup\<close> undoes the set-up.

  \<^bold>\<open>Theories and sources.\<close>
  \<^item> \<open>Prelude\<close>: types of addresses, ports and times; the bounded search loop; shared facts.
  \<^item> \<open>CLib\<close>: the functions of the C library that the sources use, as functions on strings.
  \<^item> \<open>Logger\<close> (\<open>src/logger.c\<close>): levels, filter, line assembly, sinks.  A log is a list of a level and
    a message; each message of the sources is a constructor that carries its arguments.  \<open>troubled\<close>
    says that a log holds a warning or an error.
  \<^item> \<open>Config\<close> (\<open>src/config.c\<close>): the globals as the record \<open>config\<close>; \<open>parse_int\<close>, \<open>parse_sequence\<close>,
    \<open>parse_interface\<close>, \<open>config_validate\<close> (one definition per block of it; \<open>validate_parts\<close> also keeps the
    \<open>LOG_LEVEL\<close> in force at each block), \<open>config_load\<close> with the 256-byte line buffer.  A file is its bytes,
    its mode and an error flag.  \<open>sets\<close> is the meaning of a key and its value, independent of the parsers.
  \<^item> \<open>Packet_Queue\<close> (\<open>src/packet_queue.c\<close>): the ring and its counters as the record \<open>pktqueue\<close>.  Each
    function is one critical section; a wait is given the list of wake-ups of its condition
    variable.  The locale \<open>bounded_fifo\<close> is its contract, interpreted on the ring; a queue that satisfies
    it answers every call as a bounded list does.
  \<^item> \<open>Queue_Monitor\<close> (\<open>src/packet_queue.c\<close> again): the same functions statement by statement, with the
    mutex, the condition variable and both threads.  It justifies the atomic view of \<open>Packet_Queue\<close>,
    through the locale \<open>stuttering_simulation\<close>.
  \<^item> \<open>Slot_Table\<close>: the locale \<open>slot_table\<close> for an array of slots with at most one active entry per
    address, interpreted on the client table and on the grant table.
  \<^item> \<open>Knocker\<close> (\<open>src/knocker.c\<close>): the client table, \<open>alloc_client\<close> with eviction, \<open>process_locked\<close>, the
    sweep; and an abstract machine per address that they refine.
  \<^item> \<open>Firewall\<close> (\<open>src/firewall.c\<close>): the grant table, argument vectors, \<open>run_iptables\<close> with \<open>fork\<close>, \<open>execv\<close>
    and the \<open>waitpid\<close> loop, and all public functions.
  \<^item> \<open>Sniffer\<close> (\<open>src/sniffer.c\<close>): socket set-up, the frame parser on bytes, the receive loop.
  \<^item> \<open>Daemon\<close> (\<open>src/main.c\<close>): arguments, banner, start-up, both threads, signals, clean-up, exit code.
  \<^item> \<open>Log_Text\<close>: the text of every message the sources log, and what reaches stderr or syslog.
  \<^item> \<open>Demo_Run\<close>: one complete concrete run, on which the theorems below are tried out.
  \<^item> \<open>Service\<close>: the calls of the state machine a run of the daemon makes, and that a client who
    follows the sequence is let in.
  \<^item> \<open>Program\<close> (\<open>src/main.c\<close> again): the process as the operating system sees it.  \<open>main\<close> runs statement by
    statement (\<open>main_step\<close>), with the threads of \<open>Daemon\<close>, the dispositions of the signals, \<open>logger_init\<close> and
    \<open>logger_close\<close>, the exit status and everything written to stdout, stderr and syslog.  \<open>process_act\<close> is
    what one event (a step of \<open>main\<close>, of a thread, a signal) makes of it.
  \<^item> \<open>Two_Files\<close>: loading two configuration files that differ only in the ports of the sequence.
  \<^item> \<open>Secrecy\<close>: every function of the program commutes with a renaming of the knock ports, down to the
    bytes of a frame; from this and \<open>Two_Files\<close>, that the process does not give the ports away.
  This theory holds the properties of the whole daemon.

  \<^bold>\<open>State and concurrency.\<close>  The record \<open>daemon\<close> holds \<open>g_running\<close>, the queue, both tables, the state of
  the system that iptables changes, the socket and a program counter for each thread.  It also
  holds two lists the program does not have, the events the queue accepted and the answers of the
  state machine, which only the theorems read.  A step of a thread ends before its next access to
  \<open>g_running\<close> or the queue; \<open>daemon_step\<close> interleaves the threads and signals at will and
  \<open>daemon_reach\<close> is its closure.  The client and grant tables are used by the processor thread only, so
  a call on them is one step.  \<open>main_run\<close> is a run of the whole program up to its exit code; the process of
  \<open>Program\<close> has exactly these runs.  Start-up is one step of it: none of its statements reads \<open>g_running\<close>,
  so a signal during start-up is a signal right after it.

  \<^bold>\<open>The environment.\<close>  Clock readings are arguments, with no assumption that they grow unless a theorem
  states it.  Frames, \<open>errno\<close> values, \<open>calloc\<close> and thread creation results are arguments.  iptables is
  the parameter \<open>ipt\<close>; theorems about rules assume \<open>iptables_ok\<close>: a command that exits with 0 had its
  documented effect on the ruleset, one with another status none, one that was killed either.
  \<open>sim_iptables\<close> is an executable instance in which any chosen commands fail.

  \<^bold>\<open>What is shown.\<close>
  \<^item> Here: only addresses that completed the sequence have rules; no thread accesses memory out of
    bounds; events are processed in order; the daemon stops; a stop and a failed start restore the
    firewall; what holds when \<open>main\<close> begins start-up; the exit code after a capture failure.
  \<^item> \<open>Knocker\<close>: soundness and completeness of \<open>KNOCK_COMPLETE\<close>, refinement, no eviction of a live
    sequence, the one-pass slot search against a reference, secrecy of the ports in the log.
  \<^item> \<open>Firewall\<close>: agreement of chain and grant table, the effect of opening in every case, keyed on how
    the command ended (\<open>exits_zero\<close>, \<open>surely_failed\<close>), the effect of a tick, the end of access as long as no
    failure of iptables is logged (\<open>iptables_trouble\<close>; refused opens are none), and restoration at the
    end of a session.
  \<^item> \<open>Sniffer\<close>: bounds, the round trip from packets written by a sender, what is reported.
  \<^item> \<open>Service\<close>: under any scheduling and other traffic a correct sequence of knocks opens the port.
  \<^item> \<open>Program\<close>: the process and \<open>main_run\<close> have the same outcomes; it never crashes; a signal kills it only
    while nothing has to be undone; once told to stop it exits; the log has one destination.
  \<^item> \<open>Secrecy\<close>: from the first instruction on, output, firewall and exit status are the same for any other
    proper sequence in the file, below debug level, if the protected port keeps its place.
  \<^item> \<open>Queue_Monitor\<close>: the queue functions are atomic, no wake-up is lost, the mutex is always released.
  \<^item> \<open>Log_Text\<close>: the knock ports stay out of the log below debug level; messages are not cut short, and
    are one line each unless they quote a newline.
  \<^item> \<open>Packet_Queue\<close>: bounded FIFO call by call, waits, drop reports.  \<open>Config\<close>: validity of every loaded
    configuration, the exact effect of every line, exactly which sequences are accepted, parser round
    trips, validation field by field.  \<open>Logger\<close>: complete lines.

  \<^bold>\<open>Bounds and termination.\<close>  All operations are total functions.  Loops that depend on the environment
  consume a list of what it answers (\<open>recvfrom\<close> results, wake-ups, \<open>waitpid\<close> errors), and a list that
  ends too early is the explicit result that the thread is still waiting.  Once \<open>g_running\<close> is false
  \<open>steps_left\<close> falls with each step: 10 for each of at most 256 queued events, at most 14 for the capture
  thread and 6 for the processor, together 2580.  The locale \<open>draining\<close> turns that into the bound.  It is
  interpreted a second time on the process, where \<open>main\<close> itself adds at most 6 steps.

  \<^bold>\<open>Where code and documentation differ.\<close>  A delete that iptables refuses leaves a rule that never
  expires, and a start-up that fails on the jump leaves the chain (both in \<open>Firewall\<close>).  The receive loop
  does not return while other traffic arrives (\<open>Sniffer\<close>).  The duplicate filter can swallow a legitimate
  first knock (\<open>Knocker\<close>).  The tail of a long comment is read as a setting (\<open>Config\<close>), and a negative
  \<open>log_level\<close> silences validation (\<open>Program\<close>).  A configuration line without an equals sign is logged with
  its newline, as two lines (\<open>Log_Text\<close>).  A protected port that is a knock port is named in a warning,
  with its place in the sequence (\<open>Secrecy\<close>).  A capture failure ends with exit code 0, which \<open>Restart=on-failure\<close> in
  the systemd unit takes for success (below).

  \<^bold>\<open>Not modelled.\<close>  The text of \<open>strerror\<close> and \<open>KNOCKD_VERSION\<close>, which are parameters; failures of writes to
  stdout and stderr, which the program does not look at; the locks of \<open>knocker.c\<close> and \<open>firewall.c\<close>, whose
  tables only one thread uses; weak memory effects on \<open>g_running\<close>; other programs that change the ruleset
  while the daemon runs; SIGKILL, after which the rules stay until the next start-up flushes the chain;
  big-endian hosts.  The secrecy of the ports is about a sequence that is accepted: one that
  \<open>config_load\<close> rejects is quoted in its warnings.  The shell client, which depends on \<open>nc\<close> and the
  network, the tests, the Makefile and the systemd unit are not part of the daemon.
\<close>

section \<open>Properties of the whole daemon\<close>

text \<open>
  C1.  Access requires the sequence.  In every state the running daemon can reach, whatever frames
  arrive, however the two threads interleave, whatever the clock does and whichever iptables
  commands fail, every rule in the daemon's chain is the rule of an address that completed the
  knock sequence: some knock of it was answered \<open>KNOCK_COMPLETE\<close>, and its knocks since its previous
  completion contain the whole sequence in order, each step within the window of the one before.
\<close>

theorem access_only_after_sequence:
  assumes "iptables_ok ipt rules" and "valid_config cfg"
    and "daemon_startup cfg ipt env k0 = (True, d0, closed, ls)" and "daemon_reach cfg ipt d0 d"
    and "rule \<in> set (knockd_rules (rules (sys d)))"
  shows "\<exists>ip. rule = grant_rule cfg ip \<and> completed cfg (history d) ip"
proof -
  obtain cs l where ses: "firewall_session cfg ipt cs k0 = Some ((fw d, sys d), l)"
    and opn: "\<forall>t ip. Open t ip \<in> set cs \<longrightarrow> completed cfg (history d) ip"
    using reach_from_startup [OF assms(2-4)] unfolding daemon_inv_def tables_ok_def by blast
  from session_rules [OF assms(1) ses] assms(5) opn show ?thesis by blast
qed

text \<open>The complete run of three knocks: the rule is there, and it is there because of them.\<close>

theorem access_only_after_sequence_witness:
  "\<exists>d. daemon_reach demo_config sim_iptables demo_booted d \<and>
     grant_rule demo_config (le32 10 0 0 5) \<in> set (knockd_rules (fst (sys d))) \<and>
     completed demo_config (history d) (le32 10 0 0 5)"
proof -
  obtain d where run: "daemon_exec demo_config sim_iptables demo_actions demo_booted = Some d"
    and rule: "knockd_rules (fst (sys d)) = [grant_rule demo_config (le32 10 0 0 5)]" using demo_run by blast
  obtain ls where boot: "daemon_startup demo_config sim_iptables demo_env (demo_rules, []) = (True, demo_booted, [], ls)"
    using demo_boot by blast
  have reach: "daemon_reach demo_config sim_iptables demo_booted d"
    by (rule daemon_exec_reach [OF daemon_reach.start demo_actions_ok run])
  have "\<exists>ip. grant_rule demo_config (le32 10 0 0 5) = grant_rule demo_config ip \<and> completed demo_config (history d) ip"
    by (rule access_only_after_sequence [OF sim_iptables_ok demo_config_valid boot reach]) (simp add: rule)
  with reach rule show ?thesis by (auto simp: grant_rule_inject)
qed

text \<open>
  No thread of the running daemon ever makes an invalid memory access: not the parser on any
  frame, not the state machine on its table, not the sweep.
\<close>

theorem daemon_never_crashes:
  assumes "valid_config cfg" and "daemon_startup cfg ipt env k0 = (True, d0, closed, ls)"
    and "daemon_reach cfg ipt d0 d" and "\<forall>r\<in>set rs. recv_ok r"
  shows "capture_thread cfg rs now d \<noteq> Crash \<and> run_processor cfg ipt timedout clk d \<noteq> Crash"
  using capture_thread_no_crash [OF assms(4)] run_processor_keeps [OF assms(1) reach_from_startup [OF assms(1-3)]]
  by blast

theorem daemon_never_crashes_witness:
  "capture_thread demo_config [demo_recv 7000] 100 demo_booted \<noteq> Crash"
proof -
  obtain ls where boot: "daemon_startup demo_config sim_iptables demo_env (demo_rules, []) = (True, demo_booted, [], ls)"
    using demo_boot by blast
  have "\<forall>r\<in>set [demo_recv 7000]. recv_ok r" by (simp add: demo_recv_def)
  from daemon_never_crashes [OF demo_config_valid boot daemon_reach.start this] show ?thesis by blast
qed

text \<open>
  C3.  Stopping the daemon closes the port and gives the firewall back.  From any reachable state,
  through the clean-up and whatever the capture thread still does before it is joined, if the
  clean-up reports no problem then the daemon's chain is empty or gone, every other chain is
  exactly what it was before the daemon started, both tables are released and the socket is closed.
\<close>

theorem shutdown_restores_firewall:
  assumes ok: "iptables_ok ipt rules" and cfg: "valid_config cfg"
    and up: "daemon_startup cfg ipt env k0 = (True, d0, closed, ls)" and reach: "daemon_reach cfg ipt d0 d"
    and join: "daemon_reach cfg ipt (fst (cleanup_request d)) d1" "join_returns d1"
    and down: "cleanup_release cfg ipt d1 = (d2, fds, l)" and quiet: "\<not> troubled l"
  shows "knockd_rules (rules (sys d2)) = [] \<and> same_outside (rules k0) (rules (sys d2)) \<and>
    grants (fw d2) = None \<and> clients d2 = None \<and> (0 \<le> sock_fd d1 \<longrightarrow> fds = [sock_fd d1])"
proof -
  have "daemon_inv cfg ipt k0 d1"
    by (rule daemon_reach_keeps [OF cfg join(1) cleanup_request_inv [OF reach_from_startup [OF cfg up reach]]])
  then obtain cs l0 where ses: "firewall_session cfg ipt cs k0 = Some ((fw d1, sys d1), l0)"
    unfolding daemon_inv_def tables_ok_def by blast
  obtain f k lf where sd: "firewall_shutdown cfg ipt (fw d1) (sys d1) = (f, k, lf)" by (metis prod_cases3)
  have "\<not> troubled lf" "fw d2 = f" "sys d2 = k" "clients d2 = None" "0 \<le> sock_fd d1 \<longrightarrow> fds = [sock_fd d1]"
    using down quiet sd by (auto simp: cleanup_release_def knocker_shutdown_def sniffer_close_def split: if_splits)
  with session_restored [OF ok ses sd] show ?thesis by simp
qed

theorem shutdown_restores_firewall_witness:
  "\<exists>d1 d2 fds l. cleanup_release demo_config sim_iptables d1 = (d2, fds, l) \<and> join_returns d1 \<and>
     knockd_rules (fst (sys d2)) = [] \<and> same_outside demo_rules (fst (sys d2)) \<and> fds = [5]"
proof -
  obtain ls where boot: "daemon_startup demo_config sim_iptables demo_env (demo_rules, []) = (True, demo_booted, [], ls)"
    using demo_boot by blast
  let ?d = "demo_booted\<lparr>g_running := False, queue := pktqueue_shutdown (pktqueue_shutdown (fst pktqueue_init)), capture := C_Done\<rparr>"
  have "daemon_exec demo_config sim_iptables [Do_capture [] 0, Do_capture [] 0] (fst (cleanup_request demo_booted)) = Some ?d"
    by (simp add: cleanup_request_def demo_booted_def capture_thread_def)
  from daemon_exec_reach [OF daemon_reach.start _ this]
  have reach: "daemon_reach demo_config sim_iptables (fst (cleanup_request demo_booted)) ?d" by simp
  have join: "join_returns ?d" by (simp add: join_returns_def)
  obtain d2 fds l where down: "cleanup_release demo_config sim_iptables ?d = (d2, fds, l)" by (metis prod_cases3)
  have quiet: "\<not> troubled l"
    using down by (auto simp: cleanup_release_def demo_booted_def sniffer_close_def pktqueue_destroy_def firewall_eval)
  have "sock_fd ?d = 5" by (simp add: demo_booted_def)
  with shutdown_restores_firewall [OF sim_iptables_ok demo_config_valid boot daemon_reach.start reach join down quiet] down join
  show ?thesis by (intro exI [of _ ?d] exI [of _ d2] exI [of _ fds] exI [of _ l]) simp
qed

text \<open>
  C6.  Events are processed in the order they were captured, each once.  In every reachable state
  the events processed so far, the one in the processor's hands and those waiting, in this order,
  are exactly the events the queue accepted; at most 256 wait; and all are for knock ports.
\<close>

theorem events_in_order:
  assumes "valid_config cfg" and "daemon_startup cfg ipt env k0 = (True, d0, closed, ls)"
    and "daemon_reach cfg ipt d0 d"
  shows "accepted d = map event_of (rev (history d)) @ in_hand (processor d) @ contents (queue d) \<and>
    length (contents (queue d)) \<le> 256 \<and> (\<forall>e\<in>set (accepted d). dst_port e \<in> set (knock_seq cfg))"
  using reach_from_startup [OF assms] by (simp add: daemon_inv_def flow_ok_def queue_inv_def QUEUE_CAPACITY_def)

theorem events_in_order_witness:
  "\<exists>d. daemon_exec demo_config sim_iptables demo_actions demo_booted = Some d \<and>
     accepted d = map event_of (rev (history d)) @ in_hand (processor d) @ contents (queue d)"
proof -
  obtain d where run: "daemon_exec demo_config sim_iptables demo_actions demo_booted = Some d" using demo_run by blast
  obtain ls where boot: "daemon_startup demo_config sim_iptables demo_env (demo_rules, []) = (True, demo_booted, [], ls)"
    using demo_boot by blast
  have reach: "daemon_reach demo_config sim_iptables demo_booted d"
    by (rule daemon_exec_reach [OF daemon_reach.start demo_actions_ok run])
  from events_in_order [OF demo_config_valid boot reach] run show ?thesis by blast
qed

text \<open>
  The threads stop.  Once \<open>g_running\<close> is false, however the threads interleave, at most 2580 more
  thread steps are taken; and until a thread has finished it can move on as soon as its wait times
  out: the processor when \<open>pthread_cond_timedwait\<close> expires, the capture thread when \<open>recvfrom\<close> does.
\<close>

theorem stop_terminates:
  assumes cfg: "valid_config cfg" and up: "daemon_startup cfg ipt env k0 = (True, d0, closed, ls)"
    and reach: "daemon_reach cfg ipt d0 d" and stop: "\<not> g_running d"
    and run: "successively (thread_step cfg ipt) (d # ds)" and d': "d' \<in> set (d # ds)"
  shows "length ds \<le> 2580 \<and>
    (processor d' = P_Done \<or> (\<exists>d'' l. run_processor cfg ipt True clk d' = Step d'' l)) \<and>
    (capture d' = C_Done \<or> (\<exists>d'' l. capture_thread cfg [Recv_failed EAGAIN] now d' = Step d'' l))"
proof -
  have inv: "daemon_inv cfg ipt k0 d" by (rule reach_from_startup [OF cfg up reach])
  with cfg stop have st: "stopping_state cfg ipt k0 (hd (d # ds))" by (simp add: stopping_state_def)
  have len: "length ds \<le> 2580" using stopping.bounded_run [OF st _ run] steps_left_bound [OF inv] by simp
  have "daemon_inv cfg ipt k0 d'" using stopping.live_run [OF st run d'] by (simp add: stopping_state_def)
  from len processor_moves [OF cfg this, of clk] capture_moves [of d' cfg now] show ?thesis by argo
qed

theorem stop_terminates_witness:
  "\<exists>d1 d2. successively (thread_step demo_config sim_iptables) [signal_handler demo_booted, d1, d2] \<and> processor d2 = P_Done \<and>
     (\<exists>d3 l. capture_thread demo_config [Recv_failed EAGAIN] 0 d2 = Step d3 l)"
proof -
  obtain ls where boot: "daemon_startup demo_config sim_iptables demo_env (demo_rules, []) = (True, demo_booted, [], ls)"
    using demo_boot by blast
  let ?d = "signal_handler demo_booted"
  let ?d1 = "?d\<lparr>capture := C_Leave\<rparr>"
  let ?d2 = "?d1\<lparr>processor := P_Done\<rparr>"
  have reach: "daemon_reach demo_config sim_iptables demo_booted ?d"
    by (rule daemon_reach.step [OF daemon_reach.start daemon_step.signal])
  have "capture_thread demo_config [] 0 ?d = Step ?d1 []" "run_processor demo_config sim_iptables False (0, 0, 0) ?d1 = Step ?d2 []"
    by (simp_all add: capture_thread_def run_processor_def signal_handler_def demo_booted_def)
  then have "thread_step demo_config sim_iptables ?d ?d1" "thread_step demo_config sim_iptables ?d1 ?d2"
    unfolding thread_step_def by (metis empty_iff empty_set)+
  then have run: "successively (thread_step demo_config sim_iptables) [?d, ?d1, ?d2]" by simp
  have "\<not> g_running ?d" "?d2 \<in> set [?d, ?d1, ?d2]" by (simp_all add: signal_handler_def)
  from stop_terminates [OF demo_config_valid boot reach this(1) run this(2), of _ 0]
  have "\<exists>d3 l. capture_thread demo_config [Recv_failed EAGAIN] 0 ?d2 = Step d3 l" by simp
  with run show ?thesis by (intro exI [of _ ?d1] exI [of _ ?d2]) simp
qed

text \<open>
  C16.  What \<open>main\<close> has established when start-up begins: the arguments were understood, the process
  runs as root, the configuration is well formed and in range, a file named with \<open>-c\<close> really
  was opened (the built-in sequence is never used in its place), and \<open>-v\<close> means debug logging.
\<close>

theorem main_starts_only_when:
  assumes front: "main_front prog version args euid files = Inr (cfg, logger, ls)"
  shows "valid_config cfg \<and> euid = 0 \<and>
    (\<exists>opts. parse_args prog version args default_options = Inr opts \<and>
       (opt_config_explicit opts \<longrightarrow> files (opt_config_file opts) \<noteq> None) \<and> (opt_verbose opts \<longrightarrow> LOG_LEVEL cfg = 3))"
proof -
  obtain opts c l rc where o: "parse_args prog version args default_options = Inr opts" "euid = 0"
    and load: "config_load (opt_config_file opts) (files (opt_config_file opts)) initial_config = (rc, c, l)"
    and rc: "opt_config_explicit opts \<longrightarrow> rc = 0" and c: "cfg = (if opt_verbose opts then c\<lparr>LOG_LEVEL := 3\<rparr> else c)"
    using main_front_InrD [OF front] by blast
  note ok = config_load_ok [OF initial_config_wf load]
  then have "valid_config cfg" by (auto simp: c valid_config_def config_wf_def c_int_def c_int_limits)
  with o rc c ok show ?thesis by (auto split: if_splits)
qed

theorem main_starts_only_when_witness:
  "\<exists>cfg logger ls. main_front ''knockd'' ''1.0'' [''-v''] 0 (\<lambda>_. None) = Inr (cfg, logger, ls) \<and> valid_config cfg \<and> LOG_LEVEL cfg = 3"
proof -
  have args: "parse_args ''knockd'' ''1.0'' [''-v''] default_options = Inr (default_options\<lparr>opt_verbose := True\<rparr>)" by simp
  have "\<exists>r. main_front ''knockd'' ''1.0'' [''-v''] 0 (\<lambda>_. None) = Inr r"
    by (simp add: main_front_def args default_options_def split: prod.splits)
  then obtain cfg logger ls where r: "main_front ''knockd'' ''1.0'' [''-v''] 0 (\<lambda>_. None) = Inr (cfg, logger, ls)"
    by auto
  from main_starts_only_when [OF r] args have "valid_config cfg \<and> LOG_LEVEL cfg = 3" by auto
  with r show ?thesis by blast
qed

text \<open>
  C15.  A start-up that fails after the firewall was set up is undone.  Whether the socket, the
  interface or the thread was the problem: if the clean-up itself reports no problem, it has emptied
  the daemon's chain, every other chain is as it was before start-up, both tables are released, and
  the socket, if one was opened, has been closed exactly once.
\<close>

theorem failed_start_undone:
  assumes ok: "iptables_ok ipt rules" and up: "daemon_startup cfg ipt env k0 = (False, d, closed, ls)"
    and set_up: "grants (fw d) \<noteq> None"
    and down: "cleanup_release cfg ipt (fst (cleanup_request d)) = (d2, fds, l)" and quiet: "\<not> troubled l"
  shows "knockd_rules (rules (sys d2)) = [] \<and> same_outside (rules k0) (rules (sys d2)) \<and>
    grants (fw d2) = None \<and> clients d2 = None \<and>
    (\<forall>fd. socket_result env = Inr fd \<longrightarrow> 0 \<le> fd \<longrightarrow> closed @ fds = [fd])"
proof -
  obtain f k lf where sd: "firewall_shutdown cfg ipt (fw d) (sys d) = (f, k, lf)" by (metis prod_cases3)
  have "\<not> troubled lf" and d2: "fw d2 = f" "sys d2 = k" "clients d2 = None"
    and "fds = (if 0 \<le> sock_fd d then [sock_fd d] else [])"
    using down quiet sd
    by (auto simp: cleanup_request_def cleanup_release_def knocker_shutdown_def sniffer_close_def split: if_splits)
  with session_restored [OF ok startup_failed(1) [OF up set_up] sd] startup_failed(2) [OF up set_up] show ?thesis by simp
qed

theorem failed_start_undone_witness:
  "\<exists>d closed ls d2 fds l. daemon_startup demo_config sim_iptables (demo_env\<lparr>thread_ok := False\<rparr>) (demo_rules, []) = (False, d, closed, ls) \<and>
     cleanup_release demo_config sim_iptables (fst (cleanup_request d)) = (d2, fds, l) \<and> closed @ fds = [5] \<and>
     same_outside demo_rules (fst (sys d2))"
proof -
  let ?env = "demo_env\<lparr>thread_ok := False\<rparr>" and ?d = "demo_booted\<lparr>capture_started := False, last_cleanup := 0\<rparr>"
  have "KNOCK_INTERFACE demo_config = []" by (simp add: demo_config_def initial_config_def)
  then obtain ls where up: "daemon_startup demo_config sim_iptables ?env (demo_rules, []) = (False, ?d, [], ls)"
    by (simp add: daemon_startup_def demo_env_def knocker_init_def firewall_eval pktqueue_init_def sniffer_init_def demo_booted_def)
  have set_up: "grants (fw ?d) \<noteq> None" and sock: "socket_result ?env = Inr 5" by (simp_all add: demo_booted_def demo_env_def)
  obtain d2 fds l where down: "cleanup_release demo_config sim_iptables (fst (cleanup_request ?d)) = (d2, fds, l)"
    by (metis prod_cases3)
  have "\<not> troubled l"
    using down by (auto simp: cleanup_release_def cleanup_request_def demo_booted_def sniffer_close_def pktqueue_destroy_def firewall_eval)
  from failed_start_undone [OF sim_iptables_ok up set_up down this] sock have "[] @ fds = [5]" "same_outside demo_rules (fst (sys d2))" by simp_all
  with up down show ?thesis by blast
qed

text \<open>
  C39.  The exit status does not tell a failure of the running daemon from an orderly stop.  After a
  successful start-up a \<open>recvfrom\<close> error that is not temporary makes the capture thread log an error
  and stop the daemon, and \<open>main\<close> then returns 0; so does every other run after that start-up.
\<close>

theorem capture_failure_exits_zero:
  assumes front: "main_front prog version args euid files = Inr (cfg, logger, l1)"
    and up: "daemon_startup cfg ipt env k0 = (True, d0, closed, l2)"
    and errno: "errno \<notin> {EAGAIN, EWOULDBLOCK, EINTR}"
  shows "\<exists>d1 d2 ls k fds. daemon_reach cfg ipt d0 d1 \<and> capture_thread cfg [Recv_failed errno] now d1 = Step d2 ls \<and>
    (LEVEL_ERROR, Packet_capture_failed) \<in> set ls \<and> \<not> g_running d2 \<and>
    main_run prog version args euid files env ipt k0 0 k fds \<and>
    (\<forall>code k fds. main_run prog version args euid files env ipt k0 code k fds \<longrightarrow> code = 0)"
proof -
  note boot = startup_inv [OF up]
  let ?d1 = "d0\<lparr>capture := C_Sniff\<rparr>" and ?d2 = "d0\<lparr>g_running := False, capture := C_Leave\<rparr>"
  let ?d3 = "?d2\<lparr>processor := P_Done\<rparr>"
  let ?d4 = "fst (cleanup_request ?d3)"
  let ?d5 = "?d4\<lparr>queue := pktqueue_shutdown (queue ?d4), capture := C_Done\<rparr>"
  have fail: "capture_thread cfg [Recv_failed errno] now ?d1 =
      Step ?d2 [(LEVEL_ERROR, Sniffer_log Recvfrom_failed), (LEVEL_ERROR, Packet_capture_failed)]"
    using errno by (simp add: capture_thread_def logged_def)
  have ex1: "daemon_exec cfg ipt [Do_capture [] now] d0 = Some ?d1" using boot by (simp add: capture_thread_def)
  have ex2: "daemon_exec cfg ipt [Do_capture [] now, Do_capture [Recv_failed errno] now, Do_process False (0, 0, 0)] d0 = Some ?d3"
    using boot fail by (simp add: capture_thread_def [of cfg "[]"] run_processor_def)
  have ex3: "daemon_exec cfg ipt [Do_capture [] now] ?d4 = Some ?d5" by (simp add: capture_thread_def cleanup_request_def)
  have r1: "daemon_reach cfg ipt d0 ?d1" by (rule daemon_exec_reach [OF daemon_reach.start _ ex1]) simp
  have r2: "daemon_reach cfg ipt d0 ?d3" by (rule daemon_exec_reach [OF daemon_reach.start _ ex2]) simp
  have r3: "daemon_reach cfg ipt ?d4 ?d5" by (rule daemon_exec_reach [OF daemon_reach.start _ ex3]) simp
  obtain d6 fds l where rel: "cleanup_release cfg ipt ?d5 = (d6, fds, l)" by (metis prod_cases3)
  have "main_run prog version args euid files env ipt k0 0 (sys d6) (closed @ fds)"
    by (rule main_run.served [OF front up r2 _ r3 _ rel]) (simp_all add: join_returns_def)
  moreover have "code = 0" if "main_run prog version args euid files env ipt k0 code k fds" for code k fds
    using that front up by (cases rule: main_run.cases) simp_all
  ultimately show ?thesis
    by (intro exI [of _ ?d1] exI [of _ ?d2] exI conjI) (rule r1, rule fail, simp, simp, assumption, blast)
qed

theorem capture_failure_exits_zero_witness:
  "\<exists>k fds. main_run ''knockd'' ''1.0'' [] 0 (\<lambda>_. None) (demo_env\<lparr>nametoindex := \<lambda>_. 1\<rparr>) sim_iptables (demo_rules, []) 0 k fds"
proof -
  let ?env = "demo_env\<lparr>nametoindex := \<lambda>_. 1\<rparr>"
  have "\<exists>r. main_front ''knockd'' ''1.0'' [] 0 (\<lambda>_. None) = Inr r"
    by (simp add: main_front_def default_options_def split: prod.splits)
  then obtain cfg logger l1 where front: "main_front ''knockd'' ''1.0'' [] 0 (\<lambda>_. None) = Inr (cfg, logger, l1)" by auto
  have "fst (daemon_startup cfg sim_iptables ?env (demo_rules, []))"
    by (simp add: daemon_startup_def demo_env_def knocker_init_def firewall_eval pktqueue_init_def sniffer_init_def)
  then obtain d0 closed l2 where up: "daemon_startup cfg sim_iptables ?env (demo_rules, []) = (True, d0, closed, l2)"
    by (metis prod_cases4 fst_conv)
  have "100 \<notin> {EAGAIN, EWOULDBLOCK, EINTR}" by (simp add: EAGAIN_def EWOULDBLOCK_def EINTR_def)
  from capture_failure_exits_zero [OF front up this, of 0] show ?thesis by blast
qed

end
